(* ===== verification/Prelude.thy ===== *)
theory Prelude
  imports Main "HOL-Library.Word" "HOL-Library.Monad_Syntax"
begin

text \<open>
  Shared vocabulary of the development: names for the C integer types, checked accesses to
  C arrays, the byte-order conversions of the C library, and the generic lemmas on lists,
  options and words that the component theories use.

  A C array or buffer is a list.  Reading or writing outside of it is undefined behaviour
  in C; the model makes it the value \<open>None\<close> (\<open>aget\<close>, \<open>aset\<close>), so that a theorem
  "the operation returns \<open>Some\<close>" is a memory-safety theorem.  The host is taken to be
  little-endian, hence \<open>htonl\<close> swaps bytes.
\<close>

unbundle bit_operations_syntax

section \<open>C integer types\<close>

type_synonym u8 = "8 word"
type_synonym u16 = "16 word"
type_synonym u32 = "32 word"
type_synonym u64 = "64 word"

section \<open>Collections of facts\<close>

named_theorems checked_access \<open>facts on checked array accesses\<close>
named_theorems byte_order \<open>facts on byte order conversions\<close>

section \<open>Checked array accesses\<close>

definition aget :: "'a list \<Rightarrow> nat \<Rightarrow> 'a option" where
  "aget xs i = (if i < length xs then Some (xs ! i) else None)"

definition aset :: "'a list \<Rightarrow> nat \<Rightarrow> 'a \<Rightarrow> 'a list option" where
  "aset xs i v = (if i < length xs then Some (xs[i := v]) else None)"

text \<open>Accesses by a signed C index: a negative index is out of bounds.\<close>

definition iget :: "'a list \<Rightarrow> int \<Rightarrow> 'a option" where
  "iget xs i = (if i < 0 then None else aget xs (nat i))"

definition iset :: "'a list \<Rightarrow> int \<Rightarrow> 'a \<Rightarrow> 'a list option" where
  "iset xs i v = (if i < 0 then None else aset xs (nat i) v)"

lemma aget_Some [checked_access, simp]: "i < length xs \<Longrightarrow> aget xs i = Some (xs ! i)"
  by (simp add: aget_def)

lemma aset_Some [checked_access, simp]: "i < length xs \<Longrightarrow> aset xs i v = Some (xs[i := v])"
  by (simp add: aset_def)

lemma aget_eq_Some [checked_access]: "aget xs i = Some v \<longleftrightarrow> i < length xs \<and> v = xs ! i"
  by (auto simp: aget_def)

lemma aset_eq_Some [checked_access]: "aset xs i v = Some ys \<longleftrightarrow> i < length xs \<and> ys = xs[i := v]"
  by (auto simp: aset_def)

lemma aget_eq_None [checked_access]: "aget xs i = None \<longleftrightarrow> length xs \<le> i"
  by (auto simp: aget_def)

lemma aset_eq_None [checked_access]: "aset xs i v = None \<longleftrightarrow> length xs \<le> i"
  by (auto simp: aset_def)

lemma iget_Some [checked_access, simp]:
  "0 \<le> i \<Longrightarrow> i < int (length xs) \<Longrightarrow> iget xs i = Some (xs ! nat i)"
  by (auto simp: iget_def aget_def)

lemma iset_Some [checked_access, simp]:
  "0 \<le> i \<Longrightarrow> i < int (length xs) \<Longrightarrow> iset xs i v = Some (xs[nat i := v])"
  by (auto simp: iset_def aset_def)

lemma length_aset [checked_access]: "aset xs i v = Some ys \<Longrightarrow> length ys = length xs"
  by (auto simp: aset_def split: if_splits)

text \<open>Copying a range of bytes out of a buffer and into it (\<open>memcpy\<close>).\<close>

definition mem_read :: "'a list \<Rightarrow> nat \<Rightarrow> nat \<Rightarrow> 'a list option" where
  "mem_read buf off n =
     (if off + n \<le> length buf then Some (take n (drop off buf)) else None)"

definition mem_write :: "'a list \<Rightarrow> nat \<Rightarrow> 'a list \<Rightarrow> 'a list option" where
  "mem_write buf off src =
     (if off + length src \<le> length buf
      then Some (take off buf @ src @ drop (off + length src) buf) else None)"

lemma mem_read_Some [checked_access]:
  "mem_read buf off n = Some xs \<longleftrightarrow> off + n \<le> length buf \<and> xs = take n (drop off buf)"
  by (auto simp: mem_read_def)

lemma length_mem_read [checked_access]: "mem_read buf off n = Some xs \<Longrightarrow> length xs = n"
  by (auto simp: mem_read_def split: if_splits)

lemma length_mem_write [checked_access]:
  "mem_write buf off src = Some buf' \<Longrightarrow> length buf' = length buf"
  by (auto simp: mem_write_def split: if_splits)

lemma mem_read_write [checked_access]:
  "mem_write buf off src = Some buf' \<Longrightarrow> mem_read buf' off (length src) = Some src"
  by (auto simp: mem_write_def mem_read_def split: if_splits)

lemma nth_mem_write:
  assumes "mem_write buf off src = Some buf'" and "i < length buf"
  shows "buf' ! i = (if off \<le> i \<and> i < off + length src then src ! (i - off) else buf ! i)"
  using assms by (auto simp: mem_write_def nth_append min_def split: if_splits)

lemma mem_read_write_other:
  assumes w: "mem_write buf off src = Some buf'"
    and disj: "o' + n \<le> off \<or> off + length src \<le> o'"
  shows "mem_read buf' o' n = mem_read buf o' n"
proof (cases "o' + n \<le> length buf")
  case True
  have "take n (drop o' buf') = take n (drop o' buf)"
    using True disj length_mem_write [OF w]
    by (intro nth_equalityI) (auto simp: nth_mem_write [OF w])
  then show ?thesis
    using length_mem_write [OF w] by (simp add: mem_read_def)
next
  case False
  then show ?thesis using length_mem_write [OF w] by (simp add: mem_read_def)
qed

text \<open>Masking with 16 ones.\<close>

lemma and_65535: "(x :: int) AND 65535 = x mod 65536"
  using take_bit_eq_mask [of 16 x] by (simp add: mask_eq_exp_minus_1 take_bit_eq_mod)

section \<open>Byte order\<close>

text \<open>
  The bytes of an \<open>unsigned\<close> in memory (least significant first), and the number four bytes
  of memory hold; the byte swaps of the C library reverse them.
\<close>

definition bytes_of_u32 :: "u32 \<Rightarrow> u8 list" where
  "bytes_of_u32 x = [ucast x, ucast (drop_bit 8 x), ucast (drop_bit 16 x), ucast (drop_bit 24 x)]"

definition u32_of_bytes :: "u8 list \<Rightarrow> u32" where
  "u32_of_bytes bs =
     (ucast (bs ! 0)) OR (push_bit 8 (ucast (bs ! 1))) OR (push_bit 16 (ucast (bs ! 2)))
       OR (push_bit 24 (ucast (bs ! 3)))"

definition bswap_16 :: "u16 \<Rightarrow> u16" where
  "bswap_16 x = (push_bit 8 x) OR (drop_bit 8 x)"

definition bswap_32 :: "u32 \<Rightarrow> u32" where
  "bswap_32 x = u32_of_bytes (rev (bytes_of_u32 x))"

definition htons :: "u16 \<Rightarrow> u16" where "htons x = bswap_16 x"
definition ntohs :: "u16 \<Rightarrow> u16" where "ntohs x = bswap_16 x"
definition htonl :: "u32 \<Rightarrow> u32" where "htonl x = bswap_32 x"
definition ntohl :: "u32 \<Rightarrow> u32" where "ntohl x = bswap_32 x"

lemma byte_cases:
  assumes "n < (32::nat)"
  obtains "n < 8" | m where "n = m + 8" "m < 8" | m where "n = m + 16" "m < 8"
    | m where "n = m + 24" "m < 8"
proof -
  have "n < 8 \<or> (n = (n - 8) + 8 \<and> n - 8 < 8) \<or> (n = (n - 16) + 16 \<and> n - 16 < 8)
      \<or> (n = (n - 24) + 24 \<and> n - 24 < 8)"
    using assms by linarith
  then show thesis using that by blast
qed

lemma bit_u8_ge [simp]: "8 \<le> n \<Longrightarrow> \<not> bit (w :: u8) n"
  using bit_imp_le_length [of w n] by auto

lemma bit_u32_of_bytes:
  "bit (u32_of_bytes [a, b, c, d]) n =
     (if n < 8 then bit a n else if n < 16 then bit b (n - 8)
      else if n < 24 then bit c (n - 16) else n < 32 \<and> bit d (n - 24))"
  by (auto simp: u32_of_bytes_def bit_simps)

lemma length_bytes_of_u32 [simp]: "length (bytes_of_u32 x) = 4"
  by (simp add: bytes_of_u32_def)

lemma u32_of_bytes_of_u32 [byte_order, simp]: "u32_of_bytes (bytes_of_u32 x) = x"
proof (rule bit_word_eqI)
  fix n :: nat
  assume "n < LENGTH(32)"
  then have "n < 32" by simp
  then show "bit (u32_of_bytes (bytes_of_u32 x)) n = bit x n"
    by (cases n rule: byte_cases)
      (simp_all add: bytes_of_u32_def bit_u32_of_bytes, simp_all add: bit_simps ac_simps)
qed

lemma length_4_cases:
  assumes "length bs = 4"
  obtains a b c d where "bs = [a, b, c, d]"
  using assms by (auto simp: numeral_eq_Suc length_Suc_conv)

lemma bytes_of_u32_of_bytes [byte_order, simp]:
  assumes "length bs = 4"
  shows "bytes_of_u32 (u32_of_bytes bs) = bs"
proof -
  obtain a b c d where bs: "bs = [a, b, c, d]"
    using assms by (rule length_4_cases)
  let ?w = "u32_of_bytes [a, b, c, d]"
  have "ucast ?w = a" "ucast (drop_bit 8 ?w) = b" "ucast (drop_bit 16 ?w) = c"
    "ucast (drop_bit 24 ?w) = d"
    by (rule bit_word_eqI; simp add: bit_simps bit_u32_of_bytes)+
  then show ?thesis
    by (simp add: bs bytes_of_u32_def)
qed

lemma bswap_16_bswap_16 [byte_order, simp]: "bswap_16 (bswap_16 x) = x"
proof (rule bit_word_eqI)
  fix n :: nat
  assume "n < LENGTH(16)"
  then show "bit (bswap_16 (bswap_16 x)) n = bit x n"
    by (auto simp: bswap_16_def bit_simps)
qed

lemma bswap_32_bswap_32 [byte_order, simp]: "bswap_32 (bswap_32 x) = x"
  by (simp add: bswap_32_def)

lemma htonl_ntohl [byte_order, simp]: "htonl (ntohl x) = x" "ntohl (htonl x) = x"
  by (simp_all add: htonl_def ntohl_def)

lemma htons_ntohs [byte_order, simp]: "htons (ntohs x) = x" "ntohs (htons x) = x"
  by (simp_all add: htons_def ntohs_def)

text \<open>Reading four bytes of memory and converting from network order gives the big-endian number.\<close>

lemma ntohl_u32_of_bytes [byte_order]:
  "length bs = 4 \<Longrightarrow> ntohl (u32_of_bytes bs) = u32_of_bytes (rev bs)"
  by (simp add: ntohl_def bswap_32_def)

lemma bytes_of_u32_htonl [byte_order]: "bytes_of_u32 (htonl x) = rev (bytes_of_u32 x)"
  by (simp add: htonl_def bswap_32_def)

end
