(* ===== verification/Time_Utils.thy ===== *)
theory Time_Utils
  imports Prelude "HOL-Library.Signed_Division"
begin

text \<open>
  The time arithmetic of \<open>time_utils.h\<close>: the \<open>timespec\<close> operations, the conversions from
  and to milliseconds and microseconds, and the 21-bit TSN timestamp that a TTAG/TCW header
  carries.  \<open>time_t\<close> and \<open>long\<close> are 64-bit; the model uses \<open>int\<close>, since no caller gets
  within reach of that bound.  C division truncates towards zero, hence \<open>sdiv\<close> and
  \<open>smod\<close>.  The lemmas show that on normalised values (\<open>timespecvalid\<close>) the operations
  are addition, subtraction and comparison of nanosecond counts, and that a TSN timestamp
  taken less than two seconds ago is recovered up to the microsecond.
\<close>

section \<open>Definitions\<close>

datatype timespec = Timespec (tv_sec: int) (tv_nsec: int)

definition NSEC_PER_SEC :: int where "NSEC_PER_SEC = 1000000000"

definition timespecclear :: timespec where
  "timespecclear = Timespec 0 0"

definition timespecisset :: "timespec \<Rightarrow> bool" where
  "timespecisset t \<longleftrightarrow> tv_sec t \<noteq> 0 \<or> tv_nsec t \<noteq> 0"

definition timespeccmp :: "timespec \<Rightarrow> timespec \<Rightarrow> (int \<Rightarrow> int \<Rightarrow> bool) \<Rightarrow> bool" where
  "timespeccmp t u cmp =
     (if tv_sec t = tv_sec u then cmp (tv_nsec t) (tv_nsec u) else cmp (tv_sec t) (tv_sec u))"

definition timespecadd :: "timespec \<Rightarrow> timespec \<Rightarrow> timespec" where
  "timespecadd t u =
     (let sec = tv_sec t + tv_sec u; nsec = tv_nsec t + tv_nsec u
      in if nsec \<ge> 1000000000 then Timespec (sec + 1) (nsec - 1000000000) else Timespec sec nsec)"

definition timespecsub :: "timespec \<Rightarrow> timespec \<Rightarrow> timespec" where
  "timespecsub t u =
     (let sec = tv_sec t - tv_sec u; nsec = tv_nsec t - tv_nsec u
      in if nsec < 0 then Timespec (sec - 1) (nsec + 1000000000) else Timespec sec nsec)"

definition timespecvalid_interval :: "timespec \<Rightarrow> bool" where
  "timespecvalid_interval t \<longleftrightarrow> tv_sec t \<ge> 0 \<and> tv_nsec t \<ge> 0 \<and> tv_nsec t < 1000000000"

text \<open>The millisecond and microsecond arguments are C \<open>unsigned\<close>.\<close>

definition timespec_from_msec :: "u32 \<Rightarrow> timespec" where
  "timespec_from_msec msec = Timespec (uint (msec div 1000)) (uint (msec mod 1000 * 1000000))"

definition timespec_to_msec :: "timespec \<Rightarrow> int" where
  "timespec_to_msec t = tv_nsec t sdiv 1000000 + tv_sec t * 1000"

definition timespec_from_usec :: "u32 \<Rightarrow> timespec" where
  "timespec_from_usec usec = Timespec (uint (usec div 1000000)) (uint (usec mod 1000000 * 1000))"

definition timespec_to_usec :: "timespec \<Rightarrow> int" where
  "timespec_to_usec t = tv_nsec t sdiv 1000 + tv_sec t * 1000000"

definition timespec_to_tsntstamp :: "timespec \<Rightarrow> u32" where
  "timespec_to_tsntstamp t =
     htonl (word_of_int (0x08000000 + push_bit 20 (tv_sec t smod 2)
       + ((tv_nsec t sdiv 1000) AND 0xfffff)))"

definition timespec_from_tsntstamp :: "u32 \<Rightarrow> timespec \<Rightarrow> timespec" where
  "timespec_from_tsntstamp tsnts now =
     (let ts = ntohl tsnts;
          sec = uint (drop_bit 20 ts AND 1);
          nsec = uint ((ts AND 0xfffff) * 1000)
      in if tv_sec now AND 1 = sec
         then (if tv_nsec now \<ge> nsec then Timespec (tv_sec now) nsec
               else Timespec (tv_sec now - 2) nsec)
         else Timespec (tv_sec now - 1) nsec)"

definition time_diff_us :: "timespec \<Rightarrow> timespec \<Rightarrow> int" where
  "time_diff_us t1 t2 =
     (tv_nsec t1 - tv_nsec t2) sdiv 1000 + (tv_sec t1 - tv_sec t2) * 1000000"

definition time_add_us :: "timespec \<Rightarrow> u32 \<Rightarrow> timespec" where
  "time_add_us t increase_us =
     (let sec = tv_sec t + uint (increase_us div 1000000);
          nsec = tv_nsec t + uint (increase_us mod 1000000 * 1000)
      in Timespec (sec + nsec sdiv 1000000000) (nsec smod 1000000000))"

section \<open>Nanosecond counts\<close>

text \<open>
  The reference reading of a \<open>timespec\<close>: a number of nanoseconds.  \<open>timespecvalid\<close> is
  the normal form every clock reading has.
\<close>

definition ns_of :: "timespec \<Rightarrow> int" where
  "ns_of t = tv_sec t * 1000000000 + tv_nsec t"

definition timespecvalid :: "timespec \<Rightarrow> bool" where
  "timespecvalid t \<longleftrightarrow> 0 \<le> tv_nsec t \<and> tv_nsec t < 1000000000"

lemma timespecvalid_intervalD: "timespecvalid_interval t \<Longrightarrow> timespecvalid t"
  by (simp add: timespecvalid_interval_def timespecvalid_def)

lemma ns_of_timespecadd [simp]: "ns_of (timespecadd t u) = ns_of t + ns_of u"
  by (simp add: timespecadd_def ns_of_def Let_def algebra_simps)

lemma ns_of_timespecsub [simp]: "ns_of (timespecsub t u) = ns_of t - ns_of u"
  by (simp add: timespecsub_def ns_of_def Let_def algebra_simps)

lemma timespecadd_valid:
  "timespecvalid t \<Longrightarrow> timespecvalid u \<Longrightarrow> timespecvalid (timespecadd t u)"
  by (auto simp: timespecadd_def timespecvalid_def Let_def)

lemma timespecsub_valid:
  "timespecvalid t \<Longrightarrow> timespecvalid u \<Longrightarrow> timespecvalid (timespecsub t u)"
  by (auto simp: timespecsub_def timespecvalid_def Let_def)

lemma ns_of_inj:
  assumes "timespecvalid t" and "timespecvalid u" and "ns_of t = ns_of u"
  shows "t = u"
proof -
  have "tv_sec t = tv_sec u"
    using assms by (auto simp: ns_of_def timespecvalid_def)
  with assms show ?thesis by (cases t, cases u) (simp add: ns_of_def)
qed

lemma timespecsub_add_cancel:
  "timespecvalid t \<Longrightarrow> timespecvalid u \<Longrightarrow> timespecsub (timespecadd t u) u = t"
  by (rule ns_of_inj) (simp_all add: timespecadd_valid timespecsub_valid)

section \<open>The order of time stamps\<close>

text \<open>
  \<open>timespeccmp\<close> with \<open><\<close> is a linear order, so that the ordered queues of the
  packet-ordering and delay functions are \<open>sorted\<close> lists in the library's sense.
\<close>

instantiation timespec :: linorder
begin

definition less_timespec :: "timespec \<Rightarrow> timespec \<Rightarrow> bool" where
  "less_timespec t u \<longleftrightarrow> timespeccmp t u (<)"

definition less_eq_timespec :: "timespec \<Rightarrow> timespec \<Rightarrow> bool" where
  "less_eq_timespec t u \<longleftrightarrow> timespeccmp t u (<) \<or> t = u"

instance
proof
  fix t u v :: timespec
  show "(t < u) = (t \<le> u \<and> \<not> u \<le> t)"
    by (auto simp: less_timespec_def less_eq_timespec_def timespeccmp_def split: if_splits)
  show "t \<le> t" by (simp add: less_eq_timespec_def)
  show "t \<le> u \<Longrightarrow> u \<le> v \<Longrightarrow> t \<le> v"
    by (auto simp: less_eq_timespec_def timespeccmp_def split: if_splits)
  show "t \<le> u \<Longrightarrow> u \<le> t \<Longrightarrow> t = u"
    by (auto simp: less_eq_timespec_def timespeccmp_def split: if_splits)
  show "t \<le> u \<or> u \<le> t"
    by (cases t; cases u) (auto simp: less_eq_timespec_def timespeccmp_def)
qed

end

lemma timespeccmp_less [simp]: "timespeccmp t u (<) \<longleftrightarrow> t < u"
  by (simp add: less_timespec_def)

lemma timespeccmp_greater [simp]: "timespeccmp t u (>) \<longleftrightarrow> u < t"
  by (auto simp: less_timespec_def timespeccmp_def)

lemma timespeccmp_neq [simp]: "timespeccmp t u (\<noteq>) \<longleftrightarrow> t \<noteq> u"
  by (cases t; cases u) (auto simp: timespeccmp_def)

lemma less_timespec_ns:
  "timespecvalid t \<Longrightarrow> timespecvalid u \<Longrightarrow> t < u \<longleftrightarrow> ns_of t < ns_of u"
  by (auto simp: less_timespec_def timespeccmp_def ns_of_def timespecvalid_def)

lemma less_eq_timespec_ns:
  "timespecvalid t \<Longrightarrow> timespecvalid u \<Longrightarrow> t \<le> u \<longleftrightarrow> ns_of t \<le> ns_of u"
  by (metis less_timespec_ns not_le)

section \<open>Conversions\<close>

lemma uint_div_mod_mult:
  fixes x :: u32
  assumes "0 < c" "0 < (k::int)" "c * k \<le> 4294967296"
    and "c = uint cw" "k = uint kw"
  shows "uint (x mod cw * kw) = uint x mod c * k"
proof -
  have "0 \<le> uint x mod c" "uint x mod c < c"
    using assms(1) by simp_all
  then have "0 \<le> uint x mod c * k" "uint x mod c * k < c * k"
    using assms(2) by (simp_all add: mult_strict_right_mono)
  then show ?thesis
    using assms(3) by (simp add: uint_mod uint_word_ariths assms(4,5)[symmetric])
qed

lemma timespec_from_msec_ns:
  "timespecvalid (timespec_from_msec ms) \<and> ns_of (timespec_from_msec ms) = uint ms * 1000000"
proof -
  have m: "uint (ms mod 1000 * 1000000) = uint ms mod 1000 * 1000000"
    by (rule uint_div_mod_mult) simp_all
  have d: "uint (ms div 1000) = uint ms div 1000"
    by (simp add: uint_div)
  have "uint ms mod 1000 < 1000" "0 \<le> uint ms mod 1000" by simp_all
  moreover have "uint ms = uint ms div 1000 * 1000 + uint ms mod 1000" by simp
  ultimately show ?thesis
    unfolding timespec_from_msec_def timespecvalid_def ns_of_def timespec.sel m d by linarith
qed

lemma timespec_from_usec_ns:
  "timespecvalid (timespec_from_usec us) \<and> ns_of (timespec_from_usec us) = uint us * 1000"
proof -
  have m: "uint (us mod 1000000 * 1000) = uint us mod 1000000 * 1000"
    by (rule uint_div_mod_mult) simp_all
  have d: "uint (us div 1000000) = uint us div 1000000"
    by (simp add: uint_div)
  have "uint us mod 1000000 < 1000000" "0 \<le> uint us mod 1000000" by simp_all
  moreover have "uint us = uint us div 1000000 * 1000000 + uint us mod 1000000" by simp
  ultimately show ?thesis
    unfolding timespec_from_usec_def timespecvalid_def ns_of_def timespec.sel m d by linarith
qed

lemma sdiv_nonneg_int [simp]: "0 \<le> a \<Longrightarrow> 0 < b \<Longrightarrow> (a::int) sdiv b = a div b"
  by (cases "a = 0") (simp_all add: signed_divide_int_def)

lemma smod_nonneg_int [simp]: "0 \<le> a \<Longrightarrow> 0 < b \<Longrightarrow> (a::int) smod b = a mod b"
  by (cases "a = 0") (simp_all add: signed_modulo_int_def minus_div_mult_eq_mod)

lemma timespec_to_from_msec [simp]: "timespec_to_msec (timespec_from_msec ms) = uint ms"
proof -
  have m: "uint (ms mod 1000 * 1000000) = uint ms mod 1000 * 1000000"
    by (rule uint_div_mod_mult) simp_all
  have d: "uint (ms div 1000) = uint ms div 1000"
    by (simp add: uint_div)
  show ?thesis
    unfolding timespec_to_msec_def timespec_from_msec_def timespec.sel m d by simp
qed

lemma time_add_us_ns:
  assumes "timespecvalid t"
  shows "timespecvalid (time_add_us t us) \<and> ns_of (time_add_us t us) = ns_of t + uint us * 1000"
proof -
  have m: "uint (us mod 1000000 * 1000) = uint us mod 1000000 * 1000"
    by (rule uint_div_mod_mult) simp_all
  have d: "uint (us div 1000000) = uint us div 1000000"
    by (simp add: uint_div)
  define n where "n = tv_nsec t + uint us mod 1000000 * 1000"
  have "0 \<le> n" using assms by (simp add: timespecvalid_def n_def)
  then have n: "n sdiv 1000000000 = n div 1000000000" "n smod 1000000000 = n mod 1000000000"
    by simp_all
  have t: "time_add_us t us =
      Timespec (tv_sec t + uint us div 1000000 + n div 1000000000) (n mod 1000000000)"
    unfolding time_add_us_def Let_def m d n_def [symmetric] n ..
  have "n div 1000000000 * 1000000000 + n mod 1000000000 = tv_nsec t + uint us mod 1000000 * 1000"
    by (simp add: n_def)
  moreover have "uint us * 1000 = uint us div 1000000 * 1000000000 + uint us mod 1000000 * 1000"
    by presburger
  ultimately show ?thesis
    by (simp add: t timespecvalid_def ns_of_def algebra_simps)
qed

text \<open>\<open>time_diff_us\<close> is the difference in microseconds, less than one microsecond off.\<close>

lemma sdiv_1000_bounds: "1000 * ((a::int) sdiv 1000) - 1000 < a \<and> a < 1000 * (a sdiv 1000) + 1000"
proof (cases "0 \<le> a")
  case True
  then show ?thesis by simp linarith
next
  case False
  then have "a sdiv 1000 = - ((- a) div 1000)"
    by (simp add: signed_divide_int_def)
  with False show ?thesis by simp linarith
qed

lemma time_diff_us_bounds:
  "\<bar>1000 * time_diff_us t1 t2 - (ns_of t1 - ns_of t2)\<bar> < 1000"
  using sdiv_1000_bounds [of "tv_nsec t1 - tv_nsec t2"]
  by (auto simp: time_diff_us_def ns_of_def algebra_simps abs_less_iff)

section \<open>TSN time stamps\<close>

lemma int_and_0xfffff: "(a::int) AND 0xfffff = a mod 1048576"
proof -
  have "a AND 0xfffff = a AND mask 20" by (simp add: mask_eq_exp_minus_1)
  also have "\<dots> = take_bit 20 a" by (rule take_bit_eq_mask [symmetric])
  also have "\<dots> = a mod 1048576" by (simp add: take_bit_eq_mod)
  finally show ?thesis .
qed

lemma tsntstamp_fields:
  assumes "0 \<le> s" "s < 2" "0 \<le> u" "u < 1048576"
  defines "w \<equiv> word_of_int (0x08000000 + push_bit 20 s + u) :: u32"
  shows "uint (drop_bit 20 w AND 1) = s" and "uint (w AND 0xfffff) = u"
proof -
  have b: "0 \<le> 0x08000000 + s * 1048576 + u" "0x08000000 + s * 1048576 + u < 4294967296"
    using assms by linarith+
  have w: "uint w = 0x08000000 + s * 1048576 + u"
    unfolding w_def uint_word_of_int using b by (simp add: push_bit_eq_mult)
  then have w': "uint w = u + (128 + s) * 1048576" by simp
  have dm: "(u + (128 + s) * 1048576) div 1048576 = 128 + s"
    "(u + (128 + s) * 1048576) mod 1048576 = u"
    using assms(3,4) by (simp_all only: div_mult_self1 mod_mult_self1) simp_all
  have tb: "take_bit 32 (uint w) = uint w"
    using b by (simp add: take_bit_int_eq_self w)
  have "uint (drop_bit 20 w AND 1) = (uint w div 1048576) mod 2"
    unfolding unsigned_and_eq unsigned_drop_bit_eq
    by (simp add: drop_bit_eq_div and_one_eq tb)
  also have "\<dots> = s"
    using assms(1,2) unfolding w' dm by presburger
  finally show "uint (drop_bit 20 w AND 1) = s" .
  have "uint (w AND 0xfffff) = uint w mod 1048576"
    by (simp add: unsigned_and_eq int_and_0xfffff)
  also have "\<dots> = u"
    unfolding w' by (rule dm)
  finally show "uint (w AND 0xfffff) = u" .
qed


definition usec_floor :: "timespec \<Rightarrow> timespec" where
  "usec_floor t = Timespec (tv_sec t) (tv_nsec t div 1000 * 1000)"

lemma tsntstamp_decode:
  assumes "timespecvalid t" and "0 \<le> tv_sec t"
  shows "timespec_from_tsntstamp (timespec_to_tsntstamp t) now =
    (if tv_sec now mod 2 = tv_sec t mod 2
     then (if tv_nsec now \<ge> tv_nsec t div 1000 * 1000
           then Timespec (tv_sec now) (tv_nsec t div 1000 * 1000)
           else Timespec (tv_sec now - 2) (tv_nsec t div 1000 * 1000))
     else Timespec (tv_sec now - 1) (tv_nsec t div 1000 * 1000))"
proof -
  let ?s = "tv_sec t mod 2" and ?u = "tv_nsec t div 1000"
  let ?w = "word_of_int (0x08000000 + push_bit 20 ?s + ?u) :: u32"
  have u: "0 \<le> ?u" "?u < 1000000" using assms(1) by (auto simp: timespecvalid_def)
  have "?u AND 0xfffff = ?u"
    using u by (simp add: int_and_0xfffff)
  then have "timespec_to_tsntstamp t = htonl ?w"
    using assms by (simp add: timespec_to_tsntstamp_def timespecvalid_def)
  moreover have f: "uint (drop_bit 20 ?w AND 1) = ?s" "uint (?w AND 0xfffff) = ?u"
    using u tsntstamp_fields [of ?s ?u] by (simp_all del: of_int_add)
  moreover have "uint ((?w AND 0xfffff) * 1000) = ?u * 1000"
    using u f(2) by (simp add: uint_word_ariths)
  ultimately show ?thesis
    by (simp add: timespec_from_tsntstamp_def and_one_eq Let_def)
qed

text \<open>
  C33: A TSN timestamp written at time \<open>t\<close> and read at time \<open>now\<close>, less than two seconds
  after the microsecond it encodes, is recovered exactly, up to the microsecond: the 21 bits
  in the TTAG/TCW header are enough for the delay function to reconstruct the absolute
  time of reception.
\<close>

theorem tsntstamp_roundtrip:
  assumes "timespecvalid t" and "0 \<le> tv_sec t" and "timespecvalid now"
    and "usec_floor t \<le> now" and "ns_of now < ns_of (usec_floor t) + 2 * NSEC_PER_SEC"
  shows "timespec_from_tsntstamp (timespec_to_tsntstamp t) now = usec_floor t"
proof -
  let ?n = "tv_nsec t div 1000 * 1000"
  have v: "0 \<le> ?n" "?n < 1000000000" "0 \<le> tv_nsec now" "tv_nsec now < 1000000000"
    using assms(1,3) by (auto simp: timespecvalid_def)
  have le: "tv_sec t * 1000000000 + ?n \<le> tv_sec now * 1000000000 + tv_nsec now"
    using assms(4) v assms(3)
    by (simp add: less_eq_timespec_ns timespecvalid_def usec_floor_def) (simp add: ns_of_def)
  have lt: "tv_sec now * 1000000000 + tv_nsec now < tv_sec t * 1000000000 + ?n + 2000000000"
    using assms(5) by (simp add: ns_of_def usec_floor_def NSEC_PER_SEC_def)
  from le lt v consider "tv_sec now = tv_sec t" "?n \<le> tv_nsec now"
    | "tv_sec now = tv_sec t + 1" | "tv_sec now = tv_sec t + 2" "tv_nsec now < ?n"
    by linarith
  then show ?thesis
  proof cases
    case 1
    then show ?thesis by (simp add: tsntstamp_decode [OF assms(1,2)] usec_floor_def)
  next
    case 2
    then have "tv_sec now mod 2 \<noteq> tv_sec t mod 2" by presburger
    with 2 show ?thesis by (simp add: tsntstamp_decode [OF assms(1,2)] usec_floor_def)
  next
    case 3
    then have "tv_sec now mod 2 = tv_sec t mod 2" by presburger
    with 3 show ?thesis by (simp add: tsntstamp_decode [OF assms(1,2)] usec_floor_def)
  qed
qed

theorem tsntstamp_roundtrip_witness:
  "timespec_from_tsntstamp (timespec_to_tsntstamp (Timespec 101 999999123)) (Timespec 103 5000)
     = Timespec 101 999999000"
  using tsntstamp_roundtrip [of "Timespec 101 999999123" "Timespec 103 5000"]
  by (simp add: timespecvalid_def usec_floor_def ns_of_def NSEC_PER_SEC_def less_eq_timespec_def
      timespeccmp_def)

end
