(* ===== verification/Hashmap.thy ===== *)
theory Hashmap
  imports Prelude "HOL-Library.Char_ord" "HOL-Library.List_Lexorder"
begin

text \<open>
  The string-keyed hash map of \<open>lib/parsers/hashmap.c\<close>: an array of buckets, each holding its
  first item inline and the rest in a chain.  A bucket is modelled by the list of its items,
  the empty list standing for a \<open>NULL\<close> key.  C strings are lists of characters without the
  terminating zero, so that \<open>strcmp(a, b) == 0\<close> is equality and the order of \<open>strcmp\<close>
  is the lexicographic order of lists of (unsigned) characters.  The items handed to
  \<open>item_delete_cb\<close> are a result of the operations.  Callbacks of \<open>hashmap_foreach\<close> are
  functions on a state that do not change the map under iteration.

  The interface the rest of the program relies on is the locale \<open>string_map\<close>; it is
  interpreted on the operations of the hash map at the end of the theory.
\<close>

section \<open>Operations\<close>

record 'v hashmap =
  bucketcount :: u32
  elemcount :: u32
  buckets :: "(string \<times> 'v) list list"

text \<open>\<open>char\<close> is signed on the target: each character is sign-extended before it is added.\<close>

fun djb2_loop :: "u32 \<Rightarrow> string \<Rightarrow> u32" where
  "djb2_loop hash [] = hash"
| "djb2_loop hash (c # str) = djb2_loop ((push_bit 5 hash + hash) + scast (of_char c :: u8)) str"

definition djb2_hash :: "string \<Rightarrow> u32" where
  "djb2_hash str = djb2_loop 5381 str"

definition bucket_of :: "'v hashmap \<Rightarrow> string \<Rightarrow> nat" where
  "bucket_of hash key = unat (djb2_hash key mod bucketcount hash)"

definition new_hashmap :: "u32 \<Rightarrow> 'v hashmap option" where
  "new_hashmap n =
     (if n = 0 then None
      else Some \<lparr>bucketcount = n, elemcount = 0, buckets = replicate (unat n) []\<rparr>)"

definition delete_hashmap :: "'v hashmap option \<Rightarrow> (string \<times> 'v) list" where
  "delete_hashmap hash = (case hash of None \<Rightarrow> [] | Some h \<Rightarrow> concat (buckets h))"

text \<open>
  The walk along one bucket: an item with the same key is overridden in place (and the old
  one handed to the delete callback), otherwise the new item is appended.
\<close>

fun chain_insert :: "(string \<times> 'v) list \<Rightarrow> string \<Rightarrow> 'v \<Rightarrow> (string \<times> 'v) list \<times> (string \<times> 'v) list" where
  "chain_insert [] key v = ([(key, v)], [])"
| "chain_insert ((k, w) # b) key v =
     (if k = key then ((key, v) # b, [(k, w)])
      else (let r = chain_insert b key v in ((k, w) # fst r, snd r)))"

definition hashmap_insert :: "'v hashmap \<Rightarrow> string \<Rightarrow> 'v \<Rightarrow> int \<times> 'v hashmap \<times> (string \<times> 'v) list" where
  "hashmap_insert hash key v =
     (let h = bucket_of hash key;
          r = chain_insert (buckets hash ! h) key v;
          hash' = hash\<lparr>buckets := (buckets hash)[h := fst r]\<rparr>
      in if snd r \<noteq> [] then (0, hash', snd r)
         else (1, hash'\<lparr>elemcount := elemcount hash + 1\<rparr>, []))"

fun chain_remove :: "(string \<times> 'v) list \<Rightarrow> string \<Rightarrow> (string \<times> 'v) list \<times> (string \<times> 'v) list" where
  "chain_remove [] key = ([], [])"
| "chain_remove ((k, w) # b) key =
     (if k = key then (b, [(k, w)])
      else (let r = chain_remove b key in ((k, w) # fst r, snd r)))"

definition hashmap_remove :: "'v hashmap \<Rightarrow> string \<Rightarrow> int \<times> 'v hashmap \<times> (string \<times> 'v) list" where
  "hashmap_remove hash key =
     (let h = bucket_of hash key;
          r = chain_remove (buckets hash ! h) key
      in if snd r \<noteq> []
         then (1, hash\<lparr>buckets := (buckets hash)[h := fst r], elemcount := elemcount hash - 1\<rparr>, snd r)
         else (0, hash, []))"

fun chain_find :: "(string \<times> 'v) list \<Rightarrow> string \<Rightarrow> 'v option" where
  "chain_find [] key = None"
| "chain_find ((k, w) # b) key = (if k = key then Some w else chain_find b key)"

definition hashmap_find :: "'v hashmap \<Rightarrow> string \<Rightarrow> 'v option" where
  "hashmap_find hash key = chain_find (buckets hash ! bucket_of hash key) key"

definition hashmap_contains :: "'v hashmap \<Rightarrow> string \<Rightarrow> bool" where
  "hashmap_contains hash key = (chain_find (buckets hash ! bucket_of hash key) key \<noteq> None)"

definition hashmap_count :: "'v hashmap \<Rightarrow> u32" where
  "hashmap_count hash = elemcount hash"

definition hashmap_bucketcount :: "'v hashmap \<Rightarrow> u32" where
  "hashmap_bucketcount hash = bucketcount hash"

fun count_used :: "(string \<times> 'v) list list \<Rightarrow> u32" where
  "count_used [] = 0"
| "count_used (b # bs) = (if b \<noteq> [] then 1 else 0) + count_used bs"

definition hashmap_usedbuckets :: "'v hashmap \<Rightarrow> u32" where
  "hashmap_usedbuckets hash = count_used (buckets hash)"

text \<open>Iteration: a callback that returns \<open>False\<close> stops it.\<close>

fun foreach_chain :: "(string \<Rightarrow> 'v \<Rightarrow> 's \<Rightarrow> bool \<times> 's) \<Rightarrow> (string \<times> 'v) list \<Rightarrow> 's \<Rightarrow> bool \<times> 's" where
  "foreach_chain cb [] s = (True, s)"
| "foreach_chain cb ((k, v) # b) s =
     (case cb k v s of (False, s') \<Rightarrow> (False, s') | (True, s') \<Rightarrow> foreach_chain cb b s')"

fun foreach_buckets :: "(string \<Rightarrow> 'v \<Rightarrow> 's \<Rightarrow> bool \<times> 's) \<Rightarrow> (string \<times> 'v) list list \<Rightarrow> 's \<Rightarrow> bool \<times> 's" where
  "foreach_buckets cb [] s = (True, s)"
| "foreach_buckets cb (b # bs) s =
     (case foreach_chain cb b s of (False, s') \<Rightarrow> (False, s') | (True, s') \<Rightarrow> foreach_buckets cb bs s')"

definition hashmap_foreach :: "'v hashmap \<Rightarrow> (string \<Rightarrow> 'v \<Rightarrow> 's \<Rightarrow> bool \<times> 's) \<Rightarrow> 's \<Rightarrow> bool \<times> 's" where
  "hashmap_foreach hash cb s = foreach_buckets cb (buckets hash) s"

text \<open>\<open>qsort\<close> with \<open>strcmp\<close> on distinct keys has one result: the list sorted by key.\<close>

definition hashmap_foreach_sorted :: "'v hashmap \<Rightarrow> (string \<Rightarrow> 'v \<Rightarrow> 's \<Rightarrow> bool \<times> 's) \<Rightarrow> 's \<Rightarrow> bool \<times> 's" where
  "hashmap_foreach_sorted hash cb s = foreach_chain cb (sort_key fst (concat (buckets hash))) s"

definition rehash_item_move_cb :: "string \<Rightarrow> 'v \<Rightarrow> 'v hashmap \<Rightarrow> bool \<times> 'v hashmap" where
  "rehash_item_move_cb key v newhash = (True, fst (snd (hashmap_insert newhash key v)))"

definition hashmap_rehash :: "'v hashmap \<Rightarrow> u32 \<Rightarrow> 'v hashmap" where
  "hashmap_rehash hash n =
     (if n = bucketcount hash then hash
      else (case new_hashmap n of None \<Rightarrow> hash
            | Some newhash \<Rightarrow>
                hash\<lparr>bucketcount := n,
                     buckets := buckets (snd (hashmap_foreach hash rehash_item_move_cb newhash))\<rparr>))"

text \<open>An iterator: the index of a bucket and the rest of its chain.\<close>

record 'v hash_iter =
  iter_i :: nat
  iter_b :: "(string \<times> 'v) list"

function next_used :: "'v hashmap \<Rightarrow> nat \<Rightarrow> nat" where
  "next_used hash i =
     (if i < unat (bucketcount hash) \<and> buckets hash ! i = [] then next_used hash (Suc i) else i)"
  by pat_completeness auto
termination
  by (relation "measure (\<lambda>(hash, i). unat (bucketcount hash) - i)") auto

declare next_used.simps [simp del]

definition hash_iterator :: "'v hashmap \<Rightarrow> 'v hash_iter" where
  "hash_iterator hash =
     (let i = next_used hash 0
      in \<lparr>iter_i = i, iter_b = (if i < unat (bucketcount hash) then buckets hash ! i else [])\<rparr>)"

definition hash_iterator_valid :: "'v hashmap \<Rightarrow> 'v hash_iter \<Rightarrow> bool" where
  "hash_iterator_valid hash it \<longleftrightarrow> iter_i it < unat (bucketcount hash)"

definition hash_iterator_key :: "'v hashmap \<Rightarrow> 'v hash_iter \<Rightarrow> string option" where
  "hash_iterator_key hash it =
     (if \<not> hash_iterator_valid hash it then None else map_option fst (aget (iter_b it) 0))"

definition hash_iterator_value :: "'v hashmap \<Rightarrow> 'v hash_iter \<Rightarrow> 'v option" where
  "hash_iterator_value hash it =
     (if \<not> hash_iterator_valid hash it then None else map_option snd (aget (iter_b it) 0))"

definition hash_iterator_next :: "'v hashmap \<Rightarrow> 'v hash_iter \<Rightarrow> 'v hash_iter" where
  "hash_iterator_next hash it =
     (if \<not> hash_iterator_valid hash it then it
      else if tl (iter_b it) \<noteq> [] then it\<lparr>iter_b := tl (iter_b it)\<rparr>
      else (let i = next_used hash (Suc (iter_i it))
            in \<lparr>iter_i = i, iter_b = (if i < unat (bucketcount hash) then buckets hash ! i else [])\<rparr>))"

section \<open>Well-formed maps\<close>

definition hashmap_items :: "'v hashmap \<Rightarrow> (string \<times> 'v) list" where
  "hashmap_items hash = concat (buckets hash)"

definition hashmap_wf :: "'v hashmap \<Rightarrow> bool" where
  "hashmap_wf hash \<longleftrightarrow>
     0 < bucketcount hash \<and> length (buckets hash) = unat (bucketcount hash) \<and>
     (\<forall>i < length (buckets hash).
        distinct (map fst (buckets hash ! i)) \<and>
        (\<forall>k \<in> fst ` set (buckets hash ! i). bucket_of hash k = i)) \<and>
     elemcount hash = of_nat (length (hashmap_items hash))"

lemma bucket_of_less: "hashmap_wf hash \<Longrightarrow> bucket_of hash key < length (buckets hash)"
  unfolding hashmap_wf_def bucket_of_def
  by (metis unat_mod word_gt_0 unat_gt_0 mod_less_divisor)

lemma bucket_of_cong [simp]:
  "bucket_of (hash\<lparr>buckets := bs\<rparr>) = bucket_of hash"
  "bucket_of (hash\<lparr>elemcount := n\<rparr>) = bucket_of hash"
  by (simp_all add: bucket_of_def fun_eq_iff)

lemma chain_find_map_of: "chain_find b key = map_of b key"
  by (induction b) auto

lemma chain_insert_find:
  "chain_find (fst (chain_insert b key v)) k = (if k = key then Some v else chain_find b k)"
  by (induction b key v rule: chain_insert.induct) (auto simp: Let_def)

lemma chain_insert_keys:
  "fst ` set (fst (chain_insert b key v)) = insert key (fst ` set b)"
  by (induction b key v rule: chain_insert.induct) (auto simp: Let_def)

lemma chain_insert_distinct:
  "distinct (map fst b) \<Longrightarrow> distinct (map fst (fst (chain_insert b key v)))"
proof (induction b key v rule: chain_insert.induct)
  case (2 k w b key v)
  then show ?case
    using chain_insert_keys [of b key v] by (auto simp: Let_def)
qed auto

lemma chain_insert_length:
  "length (fst (chain_insert b key v)) =
     (if snd (chain_insert b key v) = [] then Suc (length b) else length b)"
  by (induction b key v rule: chain_insert.induct) (auto simp: Let_def)

lemma chain_insert_deleted:
  "snd (chain_insert b key v) = (case chain_find b key of None \<Rightarrow> [] | Some w \<Rightarrow> [(key, w)])"
  by (induction b key v rule: chain_insert.induct) (auto simp: Let_def)

lemma chain_remove_keys:
  "fst ` set (fst (chain_remove b key)) \<subseteq> fst ` set b"
  by (induction b key rule: chain_remove.induct) (auto simp: Let_def)

lemma chain_remove_distinct:
  "distinct (map fst b) \<Longrightarrow> distinct (map fst (fst (chain_remove b key)))"
proof (induction b key rule: chain_remove.induct)
  case (2 k w b key)
  then show ?case
    using chain_remove_keys [of b key] by (auto simp: Let_def)
qed auto

lemma chain_find_None: "key \<notin> fst ` set b \<Longrightarrow> chain_find b key = None"
  by (induction b) auto

lemma chain_remove_find:
  "distinct (map fst b) \<Longrightarrow>
     chain_find (fst (chain_remove b key)) k = (if k = key then None else chain_find b k)"
proof (induction b key rule: chain_remove.induct)
  case (2 k' w b key)
  then show ?case
    using chain_find_None [of key b] by (auto simp: Let_def)
qed auto

lemma chain_remove_length:
  "length b = length (fst (chain_remove b key)) + length (snd (chain_remove b key))"
  by (induction b key rule: chain_remove.induct) (auto simp: Let_def)

lemma chain_remove_deleted:
  "snd (chain_remove b key) = (case chain_find b key of None \<Rightarrow> [] | Some w \<Rightarrow> [(key, w)])"
  by (induction b key rule: chain_remove.induct) (auto simp: Let_def)

lemma chain_remove_unchanged: "snd (chain_remove b key) = [] \<Longrightarrow> fst (chain_remove b key) = b"
  by (induction b key rule: chain_remove.induct) (auto simp: Let_def split: if_splits)


lemma length_concat_update:
  "i < length xss \<Longrightarrow>
     length (concat (xss[i := ys])) + length (xss ! i) = length (concat xss) + length ys"
proof (induction xss arbitrary: i)
  case (Cons xs xss)
  then show ?case by (cases i) auto
qed simp

lemma hashmap_wf_bucket:
  assumes "hashmap_wf hash"
  shows "distinct (map fst (buckets hash ! bucket_of hash key))"
  using assms bucket_of_less [OF assms] by (auto simp: hashmap_wf_def)

lemma hashmap_insert_result:
  "fst (hashmap_insert hash key v) = (if hashmap_find hash key = None then 1 else 0)"
  "snd (snd (hashmap_insert hash key v)) =
     (case hashmap_find hash key of None \<Rightarrow> [] | Some w \<Rightarrow> [(key, w)])"
  by (auto simp: hashmap_insert_def hashmap_find_def Let_def chain_insert_deleted
      split: option.splits)

lemma hashmap_remove_result:
  "fst (hashmap_remove hash key) = (if hashmap_find hash key = None then 0 else 1)"
  "snd (snd (hashmap_remove hash key)) =
     (case hashmap_find hash key of None \<Rightarrow> [] | Some w \<Rightarrow> [(key, w)])"
  by (auto simp: hashmap_remove_def hashmap_find_def Let_def chain_remove_deleted
      split: option.splits)

abbreviation hm_insert :: "'v hashmap \<Rightarrow> string \<Rightarrow> 'v \<Rightarrow> 'v hashmap" where
  "hm_insert hash key v \<equiv> fst (snd (hashmap_insert hash key v))"

abbreviation hm_remove :: "'v hashmap \<Rightarrow> string \<Rightarrow> 'v hashmap" where
  "hm_remove hash key \<equiv> fst (snd (hashmap_remove hash key))"

lemma hashmap_wf_update_bucket:
  assumes wf: "hashmap_wf hash" and i: "i < length (buckets hash)"
    and d: "distinct (map fst b)" and k: "\<forall>k \<in> fst ` set b. bucket_of hash k = i"
    and n: "n + of_nat (length (buckets hash ! i)) = elemcount hash + of_nat (length b)"
  shows "hashmap_wf (hash\<lparr>buckets := (buckets hash)[i := b], elemcount := n\<rparr>)"
proof -
  have e: "elemcount hash = of_nat (length (hashmap_items hash))"
    using wf by (simp add: hashmap_wf_def)
  have "length (concat ((buckets hash)[i := b])) + length (buckets hash ! i)
      = length (hashmap_items hash) + length b"
    using length_concat_update [OF i, of b] by (simp add: hashmap_items_def)
  then have "of_nat (length (concat ((buckets hash)[i := b]))) + of_nat (length (buckets hash ! i))
      = (elemcount hash + of_nat (length b) :: u32)"
    unfolding e by (metis of_nat_add)
  with n have "n = of_nat (length (concat ((buckets hash)[i := b])))"
    by (metis add_right_cancel)
  with wf i d k show ?thesis
    unfolding hashmap_wf_def hashmap_items_def
    by (auto simp: nth_list_update)
qed

lemma hashmap_insert_wf:
  assumes wf: "hashmap_wf hash"
  shows "hashmap_wf (hm_insert hash key v)"
proof -
  let ?i = "bucket_of hash key"
  let ?c = "chain_insert (buckets hash ! ?i) key v"
  have i: "?i < length (buckets hash)" by (rule bucket_of_less [OF wf])
  have k: "\<forall>k \<in> fst ` set (fst ?c). bucket_of hash k = ?i"
    using wf i by (auto simp: chain_insert_keys hashmap_wf_def)
  have d: "distinct (map fst (fst ?c))"
    by (rule chain_insert_distinct [OF hashmap_wf_bucket [OF wf]])
  show ?thesis
  proof (cases "snd ?c = []")
    case True
    then have "hm_insert hash key v =
        hash\<lparr>buckets := (buckets hash)[?i := fst ?c], elemcount := elemcount hash + 1\<rparr>"
      by (simp add: hashmap_insert_def Let_def)
    then show ?thesis
      using hashmap_wf_update_bucket [OF wf i d k] True by (simp add: chain_insert_length)
  next
    case False
    then have "hm_insert hash key v = hash\<lparr>buckets := (buckets hash)[?i := fst ?c]\<rparr>"
      by (simp add: hashmap_insert_def Let_def)
    then show ?thesis
      using hashmap_wf_update_bucket [OF wf i d k, of "elemcount hash"] False
      by (simp add: chain_insert_length hashmap_wf_def hashmap_items_def)
  qed
qed

lemma hashmap_insert_find:
  assumes wf: "hashmap_wf hash"
  shows "hashmap_find (hm_insert hash key v) = (hashmap_find hash)(key \<mapsto> v)"
proof
  fix k
  show "hashmap_find (hm_insert hash key v) k = ((hashmap_find hash)(key \<mapsto> v)) k"
    using bucket_of_less [OF wf, of key] bucket_of_less [OF wf, of k]
    by (cases "bucket_of hash k = bucket_of hash key")
      (auto simp: hashmap_insert_def hashmap_find_def Let_def chain_insert_find)
qed

lemma hashmap_remove_wf:
  assumes wf: "hashmap_wf hash"
  shows "hashmap_wf (hm_remove hash key)"
proof -
  let ?i = "bucket_of hash key"
  let ?c = "chain_remove (buckets hash ! ?i) key"
  have i: "?i < length (buckets hash)" by (rule bucket_of_less [OF wf])
  have k: "\<forall>k \<in> fst ` set (fst ?c). bucket_of hash k = ?i"
  proof
    fix k
    assume "k \<in> fst ` set (fst ?c)"
    then have "k \<in> fst ` set (buckets hash ! ?i)"
      using chain_remove_keys [of "buckets hash ! ?i" key] by blast
    with wf i show "bucket_of hash k = ?i" unfolding hashmap_wf_def by blast
  qed
  have d: "distinct (map fst (fst ?c))"
    by (rule chain_remove_distinct [OF hashmap_wf_bucket [OF wf]])
  show ?thesis
  proof (cases "snd ?c = []")
    case True
    then show ?thesis
      using wf by (simp add: hashmap_remove_def Let_def)
  next
    case False
    then have "length (snd ?c) = 1"
      by (auto simp: chain_remove_deleted split: option.splits)
    with chain_remove_length [of "buckets hash ! ?i" key]
    have "length (buckets hash ! ?i) = length (fst ?c) + 1" by simp
    moreover have "hm_remove hash key =
        hash\<lparr>buckets := (buckets hash)[?i := fst ?c], elemcount := elemcount hash - 1\<rparr>"
      using False by (simp add: hashmap_remove_def Let_def)
    ultimately show ?thesis
      using hashmap_wf_update_bucket [OF wf i d k, of "elemcount hash - 1"] by simp
  qed
qed

lemma hashmap_remove_find:
  assumes wf: "hashmap_wf hash"
  shows "hashmap_find (hm_remove hash key) = (hashmap_find hash)(key := None)"
proof
  fix k
  let ?i = "bucket_of hash key"
  let ?c = "chain_remove (buckets hash ! ?i) key"
  have i: "?i < length (buckets hash)" by (rule bucket_of_less [OF wf])
  have b: "buckets (hm_remove hash key) = (buckets hash)[?i := fst ?c]"
    using chain_remove_unchanged [of "buckets hash ! ?i" key]
    by (cases "snd ?c = []") (simp_all add: hashmap_remove_def Let_def)
  have o': "bucket_of (hm_remove hash key) = bucket_of hash"
    by (simp add: hashmap_remove_def Let_def)
  show "hashmap_find (hm_remove hash key) k = ((hashmap_find hash)(key := None)) k"
    using chain_remove_find [OF hashmap_wf_bucket [OF wf], of key key k] i
    by (cases "bucket_of hash k = ?i") (auto simp: hashmap_find_def b o')
qed

lemma new_hashmap_wf: "new_hashmap n = Some hash \<Longrightarrow> hashmap_wf hash"
  by (auto simp: new_hashmap_def hashmap_wf_def hashmap_items_def word_gt_0 split: if_splits)

lemma new_hashmap_find: "new_hashmap n = Some hash \<Longrightarrow> hashmap_find hash = Map.empty"
proof
  fix k
  assume n: "new_hashmap n = Some hash"
  then have "bucket_of hash k < unat n"
    using bucket_of_less [OF new_hashmap_wf [OF n], of k] by (auto simp: new_hashmap_def split: if_splits)
  with n show "hashmap_find hash k = None"
    by (auto simp: new_hashmap_def hashmap_find_def split: if_splits)
qed


section \<open>The interface\<close>

text \<open>
  What the users of the map (the object and interface tables, the OAM recovery instances of a
  sequence recovery, the delay statistics) rely on: a finite map from strings.
\<close>

locale string_map =
  fixes fresh :: "'m \<Rightarrow> bool"
    and ins :: "'m \<Rightarrow> string \<Rightarrow> 'v \<Rightarrow> 'm"
    and del :: "'m \<Rightarrow> string \<Rightarrow> 'm"
    and look :: "'m \<Rightarrow> string \<Rightarrow> 'v option"
    and invar :: "'m \<Rightarrow> bool"
  assumes fresh_invar: "fresh m \<Longrightarrow> invar m"
    and fresh_look: "fresh m \<Longrightarrow> look m = Map.empty"
    and ins_invar: "invar m \<Longrightarrow> invar (ins m k v)"
    and ins_look: "invar m \<Longrightarrow> look (ins m k v) = (look m)(k \<mapsto> v)"
    and del_invar: "invar m \<Longrightarrow> invar (del m k)"
    and del_look: "invar m \<Longrightarrow> look (del m k) = (look m)(k := None)"
begin

lemma look_ins_same: "invar m \<Longrightarrow> look (ins m k v) k = Some v"
  by (simp add: ins_look)

lemma look_ins_other: "invar m \<Longrightarrow> k' \<noteq> k \<Longrightarrow> look (ins m k v) k' = look m k'"
  by (simp add: ins_look)

lemma look_del_same: "invar m \<Longrightarrow> look (del m k) k = None"
  by (simp add: del_look)

lemma look_del_other: "invar m \<Longrightarrow> k' \<noteq> k \<Longrightarrow> look (del m k) k' = look m k'"
  by (simp add: del_look)

text \<open>Filling a map from a list of items.\<close>

lemma fill_invar: "invar m \<Longrightarrow> invar (foldl (\<lambda>m kv. ins m (fst kv) (snd kv)) m kvs)"
  by (induction kvs arbitrary: m) (simp_all add: ins_invar)

lemma fill_look:
  "invar m \<Longrightarrow>
     look (foldl (\<lambda>m kv. ins m (fst kv) (snd kv)) m kvs) = look m ++ map_of (rev kvs)"
proof (induction kvs arbitrary: m)
  case (Cons kv kvs)
  then show ?case
    by (cases kv) (auto simp: ins_invar ins_look map_add_def fun_eq_iff split: option.splits)
qed simp

lemma fill_look_distinct:
  assumes "fresh m" and "distinct (map fst kvs)"
  shows "look (foldl (\<lambda>m kv. ins m (fst kv) (snd kv)) m kvs) = map_of kvs"
proof -
  have "map_of (rev kvs) = map_of kvs"
    using assms(2) by (subst map_of_inject_set) (simp_all add: rev_map [symmetric])
  with fill_look [OF fresh_invar [OF assms(1)], of kvs] fresh_look [OF assms(1)]
  show ?thesis by simp
qed

text \<open>Looking up an item that is created on first use never fails and keeps the other items.\<close>

lemma get_or_create:
  fixes k :: string and v :: 'v
  assumes "invar m"
  defines "m' \<equiv> (case look m k of Some _ \<Rightarrow> m | None \<Rightarrow> ins m k v)"
  shows "invar m'" and "look m' k = Some (case look m k of Some w \<Rightarrow> w | None \<Rightarrow> v)"
    and "k' \<noteq> k \<Longrightarrow> look m' k' = look m k'"
  using assms by (auto simp: ins_invar ins_look split: option.splits)

end

interpretation hm: string_map "\<lambda>h. \<exists>n. new_hashmap n = Some h" hm_insert hm_remove
    hashmap_find hashmap_wf
proof
  fix m :: "'v hashmap" and k :: string and v :: 'v
  show "\<exists>n. new_hashmap n = Some m \<Longrightarrow> hashmap_wf m" by (blast intro: new_hashmap_wf)
  show "\<exists>n. new_hashmap n = Some m \<Longrightarrow> hashmap_find m = Map.empty" by (blast intro: new_hashmap_find)
  assume wf: "hashmap_wf m"
  show "hashmap_wf (hm_insert m k v)" by (rule hashmap_insert_wf [OF wf])
  show "hashmap_find (hm_insert m k v) = (hashmap_find m)(k \<mapsto> v)" by (rule hashmap_insert_find [OF wf])
  show "hashmap_wf (hm_remove m k)" by (rule hashmap_remove_wf [OF wf])
  show "hashmap_find (hm_remove m k) = (hashmap_find m)(k := None)" by (rule hashmap_remove_find [OF wf])
qed


section \<open>Items, iteration, rehashing\<close>

lemma distinct_concat_indexed:
  assumes "\<forall>i < length xss. distinct (xss ! i) \<and> (\<forall>x \<in> set (xss ! i). f x = i)"
  shows "distinct (concat xss) \<and> (\<forall>x \<in> set (concat xss). f x < length xss)"
  using assms
proof (induction xss rule: rev_induct)
  case (snoc ys xss)
  have "\<forall>i < length xss. distinct (xss ! i) \<and> (\<forall>x \<in> set (xss ! i). f x = i)"
    using snoc.prems by (metis nth_append length_append_singleton less_SucI)
  then have IH: "distinct (concat xss)" "\<forall>x \<in> set (concat xss). f x < length xss"
    using snoc.IH by blast+
  have "distinct ys" "\<forall>x \<in> set ys. f x = length xss"
    using snoc.prems by (metis nth_append_length length_append_singleton lessI)+
  with IH show ?case by fastforce
qed simp

lemma hashmap_items_distinct:
  assumes "hashmap_wf hash"
  shows "distinct (map fst (hashmap_items hash))"
  using assms distinct_concat_indexed [of "map (map fst) (buckets hash)" "bucket_of hash"]
  by (simp add: hashmap_wf_def hashmap_items_def map_concat)

lemma hashmap_items_iff:
  assumes wf: "hashmap_wf hash"
  shows "kv \<in> set (hashmap_items hash) \<longleftrightarrow> kv \<in> set (buckets hash ! bucket_of hash (fst kv))"
proof
  assume "kv \<in> set (hashmap_items hash)"
  then obtain b where "b \<in> set (buckets hash)" "kv \<in> set b"
    by (auto simp: hashmap_items_def)
  then obtain i where i: "i < length (buckets hash)" "kv \<in> set (buckets hash ! i)"
    by (metis in_set_conv_nth)
  with wf have "bucket_of hash (fst kv) = i" unfolding hashmap_wf_def by blast
  with i show "kv \<in> set (buckets hash ! bucket_of hash (fst kv))" by simp
next
  assume "kv \<in> set (buckets hash ! bucket_of hash (fst kv))"
  then show "kv \<in> set (hashmap_items hash)"
    using bucket_of_less [OF wf, of "fst kv"] nth_mem by (fastforce simp: hashmap_items_def)
qed

lemma hashmap_find_items:
  assumes wf: "hashmap_wf hash"
  shows "hashmap_find hash = map_of (hashmap_items hash)"
proof
  fix k
  let ?b = "buckets hash ! bucket_of hash k"
  have "hashmap_find hash k = Some v \<longleftrightarrow> map_of (hashmap_items hash) k = Some v" for v
    using hashmap_items_iff [OF wf, of "(k, v)"]
    by (simp add: hashmap_find_def chain_find_map_of hashmap_items_distinct [OF wf]
        hashmap_wf_bucket [OF wf])
  then show "hashmap_find hash k = map_of (hashmap_items hash) k"
    by (metis not_Some_eq)
qed

lemma foreach_chain_append:
  "foreach_chain cb (xs @ ys) s =
     (case foreach_chain cb xs s of (False, s') \<Rightarrow> (False, s') | (True, s') \<Rightarrow> foreach_chain cb ys s')"
  by (induction xs arbitrary: s) (auto split: prod.splits bool.splits)

lemma foreach_buckets_concat: "foreach_buckets cb bs s = foreach_chain cb (concat bs) s"
  by (induction bs arbitrary: s) (auto simp: foreach_chain_append split: prod.splits bool.splits)

lemma foreach_chain_total:
  "foreach_chain (\<lambda>k v s. (True, f s k v)) kvs s = (True, foldl (\<lambda>s kv. f s (fst kv) (snd kv)) s kvs)"
  by (induction kvs arbitrary: s) auto

lemma hashmap_rehash_eq:
  fixes hash :: "'v hashmap"
  assumes "n \<noteq> bucketcount hash" and "new_hashmap n = Some m"
  shows "hashmap_rehash hash n =
    hash\<lparr>bucketcount := n,
         buckets := buckets (foldl (\<lambda>m kv. hm_insert m (fst kv) (snd kv)) m (hashmap_items hash))\<rparr>"
proof -
  have r: "rehash_item_move_cb = (\<lambda>k (v :: 'v) s. (True, hm_insert s k v))"
    by (simp add: fun_eq_iff rehash_item_move_cb_def)
  have "hashmap_foreach hash rehash_item_move_cb m =
      (True, foldl (\<lambda>m kv. hm_insert m (fst kv) (snd kv)) m (hashmap_items hash))"
    unfolding hashmap_foreach_def foreach_buckets_concat hashmap_items_def r
    by (rule foreach_chain_total)
  with assms show ?thesis by (simp add: hashmap_rehash_def)
qed

lemma hm_insert_bucketcount [simp]: "bucketcount (hm_insert h k v) = bucketcount h"
  by (simp add: hashmap_insert_def Let_def)

lemma fill_bucketcount [simp]:
  "bucketcount (foldl (\<lambda>m kv. hm_insert m (fst kv) (snd kv)) m kvs) = bucketcount m"
  by (induction kvs arbitrary: m) simp_all

lemma fill_elemcount:
  assumes "hashmap_wf m" and "distinct (map fst kvs)"
    and "\<forall>k \<in> fst ` set kvs. hashmap_find m k = None"
  shows "elemcount (foldl (\<lambda>m kv. hm_insert m (fst kv) (snd kv)) m kvs)
    = elemcount m + of_nat (length kvs)"
  using assms
proof (induction kvs arbitrary: m)
  case (Cons kv kvs)
  let ?m = "hm_insert m (fst kv) (snd kv)"
  have "snd (chain_insert (buckets m ! bucket_of m (fst kv)) (fst kv) (snd kv)) = []"
    using Cons.prems(3) by (simp add: chain_insert_deleted hashmap_find_def)
  then have e: "elemcount ?m = elemcount m + 1"
    by (simp add: hashmap_insert_def Let_def)
  have "\<forall>k \<in> fst ` set kvs. hashmap_find ?m k = None"
  proof
    fix k
    assume "k \<in> fst ` set kvs"
    moreover have "fst kv \<notin> fst ` set kvs" using Cons.prems(2) by simp
    ultimately show "hashmap_find ?m k = None"
      using Cons.prems(1,3) by (metis hm.look_ins_other image_insert insertCI list.set(2))
  qed
  with Cons.IH [of ?m] Cons.prems e show ?case
    by (simp add: hm.ins_invar algebra_simps)
qed simp

text \<open>
  C13: Rehashing to any other number of buckets keeps the map: it stays well-formed (in
  particular its element counter still is the number of items) and every key is found with
  the same value as before.
\<close>

theorem hashmap_rehash_correct:
  fixes hash :: "'v hashmap"
  assumes wf: "hashmap_wf hash"
  shows "hashmap_wf (hashmap_rehash hash n) \<and> hashmap_find (hashmap_rehash hash n) = hashmap_find hash"
proof (cases "n = bucketcount hash \<or> n = 0")
  case True
  then show ?thesis using wf by (auto simp: hashmap_rehash_def new_hashmap_def)
next
  case False
  then obtain m :: "'v hashmap" where m: "new_hashmap n = Some m" by (simp add: new_hashmap_def)
  let ?kvs = "hashmap_items hash"
  let ?r = "foldl (\<lambda>m kv. hm_insert m (fst kv) (snd kv)) m ?kvs"
  have d: "distinct (map fst ?kvs)" by (rule hashmap_items_distinct [OF wf])
  have wfr: "hashmap_wf ?r" by (rule hm.fill_invar [OF new_hashmap_wf [OF m]])
  have bc: "bucketcount ?r = n" using m by (auto simp: new_hashmap_def split: if_splits)
  have "elemcount ?r = of_nat (length ?kvs)"
    using fill_elemcount [OF new_hashmap_wf [OF m] d] m new_hashmap_find [OF m]
    by (auto simp: new_hashmap_def split: if_splits)
  also have "\<dots> = elemcount hash" using wf by (simp add: hashmap_wf_def)
  finally have r: "hashmap_rehash hash n = ?r"
    using hashmap_rehash_eq [of n hash m] False m bc by (cases ?r) simp
  have "hashmap_find ?r = map_of ?kvs"
    by (rule hm.fill_look_distinct) (use m d in auto)
  with wfr show ?thesis by (simp add: r hashmap_find_items [OF wf])
qed


theorem hashmap_rehash_correct_witness:
  "hashmap_find (hashmap_rehash (hm_insert (the (new_hashmap 5)) ''rec1'' (7::int)) 11) ''rec1'' = Some 7"
proof -
  let ?h = "hm_insert (the (new_hashmap 5)) ''rec1'' (7::int)"
  have n: "\<exists>n. new_hashmap n = Some (the (new_hashmap 5 :: int hashmap option))"
    by (rule exI [of _ 5]) (simp add: new_hashmap_def)
  have "hashmap_wf ?h" by (rule hm.ins_invar [OF hm.fresh_invar [OF n]])
  from hashmap_rehash_correct [OF this, of 11] show ?thesis
    using hm.look_ins_same [OF hm.fresh_invar [OF n]] by simp
qed

text \<open>
  The loop \<open>HASHMAP_ITERATE\<close> with its items, in the order it visits them; fuel bounds the
  number of steps, and the number of items plus one is enough.
\<close>

fun hashmap_iterate :: "nat \<Rightarrow> 'v hashmap \<Rightarrow> 'v hash_iter \<Rightarrow> (string \<times> 'v) list option" where
  "hashmap_iterate 0 hash it = None"
| "hashmap_iterate (Suc fuel) hash it =
     (if hash_iterator_valid hash it then do {
        k \<leftarrow> hash_iterator_key hash it;
        v \<leftarrow> hash_iterator_value hash it;
        rest \<leftarrow> hashmap_iterate fuel hash (hash_iterator_next hash it);
        Some ((k, v) # rest) }
      else Some [])"

lemma next_used_props:
  assumes "length (buckets hash) = unat (bucketcount hash)" and "i \<le> unat (bucketcount hash)"
  shows "next_used hash i \<le> unat (bucketcount hash)"
    and "next_used hash i < unat (bucketcount hash) \<Longrightarrow> buckets hash ! next_used hash i \<noteq> []"
    and "concat (drop (next_used hash i) (buckets hash)) = concat (drop i (buckets hash))"
proof -
  have "next_used hash i \<le> unat (bucketcount hash) \<and>
    (next_used hash i < unat (bucketcount hash) \<longrightarrow> buckets hash ! next_used hash i \<noteq> []) \<and>
    concat (drop (next_used hash i) (buckets hash)) = concat (drop i (buckets hash))"
    using assms
  proof (induction hash i rule: next_used.induct)
    case (1 hash i)
    show ?case
    proof (cases "i < unat (bucketcount hash) \<and> buckets hash ! i = []")
      case True
      then have "concat (drop i (buckets hash)) = concat (drop (Suc i) (buckets hash))"
        using 1(2) by (simp add: Cons_nth_drop_Suc [symmetric])
      with True 1 show ?thesis by (simp add: next_used.simps [of hash i])
    next
      case False
      with 1 show ?thesis by (auto simp: next_used.simps [of hash i])
    qed
  qed
  then show "next_used hash i \<le> unat (bucketcount hash)"
    and "next_used hash i < unat (bucketcount hash) \<Longrightarrow> buckets hash ! next_used hash i \<noteq> []"
    and "concat (drop (next_used hash i) (buckets hash)) = concat (drop i (buckets hash))"
    by blast+
qed

text \<open>What an iterator has still to visit, and the well-formed iterators.\<close>

definition iter_rest :: "'v hashmap \<Rightarrow> 'v hash_iter \<Rightarrow> (string \<times> 'v) list" where
  "iter_rest hash it = iter_b it @ concat (drop (Suc (iter_i it)) (buckets hash))"

definition iter_wf :: "'v hashmap \<Rightarrow> 'v hash_iter \<Rightarrow> bool" where
  "iter_wf hash it \<longleftrightarrow> iter_i it \<le> unat (bucketcount hash) \<and>
     (iter_b it \<noteq> [] \<longleftrightarrow> iter_i it < unat (bucketcount hash))"

lemma iter_at_next_used:
  assumes l: "length (buckets hash) = unat (bucketcount hash)" and i: "i \<le> unat (bucketcount hash)"
  defines "it \<equiv> \<lparr>iter_i = next_used hash i,
      iter_b = (if next_used hash i < unat (bucketcount hash) then buckets hash ! next_used hash i else [])\<rparr>"
  shows "iter_wf hash it" and "iter_rest hash it = concat (drop i (buckets hash))"
proof -
  let ?j = "next_used hash i"
  note p = next_used_props [OF l i]
  show "iter_wf hash it" using p(1,2) by (auto simp: iter_wf_def it_def)
  show "iter_rest hash it = concat (drop i (buckets hash))"
  proof (cases "?j < unat (bucketcount hash)")
    case True
    then have "concat (drop ?j (buckets hash)) = buckets hash ! ?j @ concat (drop (Suc ?j) (buckets hash))"
      using l by (simp add: Cons_nth_drop_Suc [symmetric])
    with True p(3) show ?thesis by (simp add: iter_rest_def it_def)
  next
    case False
    with p(3) l show ?thesis by (simp add: iter_rest_def it_def)
  qed
qed

lemma iter_next:
  assumes l: "length (buckets hash) = unat (bucketcount hash)"
    and wf: "iter_wf hash it" and v: "hash_iterator_valid hash it"
  shows "iter_wf hash (hash_iterator_next hash it)"
    and "iter_rest hash (hash_iterator_next hash it) = tl (iter_rest hash it)"
proof -
  have ne: "iter_b it \<noteq> []" and i: "Suc (iter_i it) \<le> unat (bucketcount hash)"
    using wf v by (auto simp: iter_wf_def hash_iterator_valid_def)
  show "iter_wf hash (hash_iterator_next hash it)"
    using iter_at_next_used(1) [OF l i] wf v
    by (auto simp: hash_iterator_next_def Let_def iter_wf_def)
  show "iter_rest hash (hash_iterator_next hash it) = tl (iter_rest hash it)"
  proof (cases "tl (iter_b it) = []")
    case True
    with ne have "iter_rest hash it = hd (iter_b it) # concat (drop (Suc (iter_i it)) (buckets hash))"
      by (cases "iter_b it") (simp_all add: iter_rest_def)
    with True v iter_at_next_used(2) [OF l i] show ?thesis
      by (simp add: hash_iterator_next_def Let_def)
  next
    case False
    with ne v show ?thesis
      by (simp add: hash_iterator_next_def iter_rest_def)
  qed
qed

lemma iter_head:
  assumes "iter_b it \<noteq> []"
  shows "aget (iter_b it) 0 = Some (hd (iter_b it))"
    and "iter_rest hash it = hd (iter_b it) # tl (iter_rest hash it)"
  using assms by (cases "iter_b it"; simp add: iter_rest_def)+

lemma hashmap_iterate_rest:
  assumes l: "length (buckets hash) = unat (bucketcount hash)"
  shows "iter_wf hash it \<Longrightarrow> length (iter_rest hash it) < fuel \<Longrightarrow>
    hashmap_iterate fuel hash it = Some (iter_rest hash it)"
proof (induction fuel arbitrary: it)
  case (Suc fuel)
  show ?case
  proof (cases "hash_iterator_valid hash it")
    case True
    then have ne: "iter_b it \<noteq> []" using Suc.prems by (simp add: iter_wf_def hash_iterator_valid_def)
    obtain k v where kv: "hd (iter_b it) = (k, v)" by fastforce
    define kvs where "kvs = tl (iter_rest hash it)"
    have rest: "iter_rest hash it = (k, v) # kvs"
      using iter_head(2) [OF ne, of hash] by (simp add: kv kvs_def)
    note n = iter_next [OF l Suc.prems(1) True]
    have "hashmap_iterate fuel hash (hash_iterator_next hash it) = Some kvs"
      using Suc.IH [OF n(1)] Suc.prems(2) n(2) by (simp add: rest)
    then show ?thesis
      using True by (simp add: hash_iterator_key_def hash_iterator_value_def iter_head(1) [OF ne] kv rest)
  next
    case False
    with Suc.prems(1) l have "iter_rest hash it = []"
      by (simp add: iter_wf_def hash_iterator_valid_def iter_rest_def)
    with False show ?thesis by simp
  qed
qed simp

text \<open>
  C20: Iterating over a well-formed map with \<open>hash_iterator\<close> and \<open>hash_iterator_next\<close>
  terminates after visiting every item, and visits no key twice: the visited items are
  exactly the key/value pairs \<open>hashmap_find\<close> returns.
\<close>

theorem hashmap_iterate_complete:
  assumes wf: "hashmap_wf hash"
  shows "\<exists>kvs. hashmap_iterate (Suc (length (hashmap_items hash))) hash (hash_iterator hash) = Some kvs
    \<and> distinct (map fst kvs) \<and> map_of kvs = hashmap_find hash"
proof (intro exI conjI)
  have l: "length (buckets hash) = unat (bucketcount hash)" using wf by (simp add: hashmap_wf_def)
  have a: "iter_wf hash (hash_iterator hash)"
    unfolding hash_iterator_def Let_def by (rule iter_at_next_used(1) [OF l]) simp
  have "iter_rest hash (hash_iterator hash) = concat (drop 0 (buckets hash))"
    unfolding hash_iterator_def Let_def by (rule iter_at_next_used(2) [OF l]) simp
  then have b: "iter_rest hash (hash_iterator hash) = hashmap_items hash"
    by (simp add: hashmap_items_def)
  show "hashmap_iterate (Suc (length (hashmap_items hash))) hash (hash_iterator hash)
      = Some (hashmap_items hash)"
    using hashmap_iterate_rest [OF l a, unfolded b] by blast
  show "distinct (map fst (hashmap_items hash))" by (rule hashmap_items_distinct [OF wf])
  show "map_of (hashmap_items hash) = hashmap_find hash" by (rule hashmap_find_items [OF wf, symmetric])
qed

theorem hashmap_iterate_complete_witness:
  "let h = hm_insert (hm_insert (the (new_hashmap 5)) ''rec1'' (7::int)) ''rec2'' 9 in
   \<exists>kvs. hashmap_iterate (Suc (length (hashmap_items h))) h (hash_iterator h) = Some kvs
    \<and> distinct (map fst kvs) \<and> map_of kvs = [''rec1'' \<mapsto> 7, ''rec2'' \<mapsto> 9]"
proof -
  let ?h = "hm_insert (hm_insert (the (new_hashmap 5)) ''rec1'' (7::int)) ''rec2'' 9"
  have n: "\<exists>n. new_hashmap n = Some (the (new_hashmap 5 :: int hashmap option))"
    by (rule exI [of _ 5]) (simp add: new_hashmap_def)
  note wf = hm.fresh_invar [OF n]
  have f: "hashmap_find ?h = [''rec1'' \<mapsto> 7, ''rec2'' \<mapsto> 9]"
    by (simp only: hm.ins_look [OF hm.ins_invar [OF wf]] hm.ins_look [OF wf] hm.fresh_look [OF n])
  show ?thesis
    unfolding Let_def f [symmetric]
    by (rule hashmap_iterate_complete [OF hm.ins_invar [OF hm.ins_invar [OF wf]]])
qed

text \<open>
  \<open>hashmap_foreach\<close> with a callback that never stops visits the same items in bucket order;
  \<open>hashmap_foreach_sorted\<close> visits them in the order of their keys.
\<close>

lemma hashmap_foreach_total:
  "hashmap_foreach hash (\<lambda>k v s. (True, f s k v)) s
     = (True, foldl (\<lambda>s kv. f s (fst kv) (snd kv)) s (hashmap_items hash))"
  by (simp add: hashmap_foreach_def foreach_buckets_concat foreach_chain_total hashmap_items_def)

lemma hashmap_foreach_sorted_total:
  "hashmap_foreach_sorted hash (\<lambda>k v s. (True, s @ [(k, v)])) []
     = (True, sort_key fst (hashmap_items hash))"
proof -
  have "foldl (\<lambda>s kv. s @ [(fst kv, snd kv)]) s kvs = s @ kvs" for s and kvs :: "(string \<times> 'a) list"
    by (induction kvs arbitrary: s) simp_all
  then show ?thesis
    by (simp add: hashmap_foreach_sorted_def foreach_chain_total hashmap_items_def)
qed

end
