(* ===== verification/Protocol.thy ===== *)
theory Protocol
  imports Prelude
begin

text \<open>
  The protocol table of \<^verbatim>\<open>src/protocol.c\<close>: the fixed-size headers DNT knows, their bit
  fields, the translation between protocol ids and next-header values, and the lookups by
  name and by field type.  The last section shows what the rest of the program relies on:
  every field lies inside its header, the default contents fit, names are resolved back to
  their id, and the next-header value written for a protocol is read back as that protocol.
\<close>

section \<open>Identifiers\<close>

datatype ProtocolFieldType =
  PFTYPE_UNKNOWN | PFTYPE_NUMBER | PFTYPE_MACADDRESS | PFTYPE_IPV4ADDRESS
     | PFTYPE_IPV6ADDRESS | PFTYPE_TSNSEQ | PFTYPE_SRV6SEQ | PFTYPE_TSNTSTAMP
     | PFTYPE_TTL | PFTYPE_CHECKSUM | PFTYPE_NEXTHEADER

datatype ProtocolID =
  PROTO_ID_PAYLOAD | PROTO_ID_ETH | PROTO_ID_SVLAN | PROTO_ID_CVLAN | PROTO_ID_RTAG
     | PROTO_ID_TTAG | PROTO_ID_MPLS | PROTO_ID_DCW | PROTO_ID_TCW | PROTO_ID_IPv4
     | PROTO_ID_IPv6 | PROTO_ID_ARP | PROTO_ID_UDP | PROTO_ID_TCP | PROTO_ID_OAM
     | PROTO_ID_OAMRTAG | PROTO_ID_CFM | PROTO_ID_ICMPv4 | PROTO_ID_ICMPv6

record ProtocolField =
  fname :: string
  bitoffset :: nat
  bitcount :: nat
  ftype :: ProtocolFieldType

abbreviation pfield :: "string \<Rightarrow> nat \<Rightarrow> nat \<Rightarrow> ProtocolFieldType \<Rightarrow> ProtocolField" where
  "pfield n off cnt t \<equiv> \<lparr>fname = n, bitoffset = off, bitcount = cnt, ftype = t\<rparr>"

text \<open>The enumerators in declaration order; an enumerator used as a number is its position.\<close>

definition all_protocols :: "ProtocolID list" where
  "all_protocols = [
    PROTO_ID_PAYLOAD, PROTO_ID_ETH, PROTO_ID_SVLAN, PROTO_ID_CVLAN, PROTO_ID_RTAG, 
    PROTO_ID_TTAG, PROTO_ID_MPLS, PROTO_ID_DCW, PROTO_ID_TCW, PROTO_ID_IPv4, 
    PROTO_ID_IPv6, PROTO_ID_ARP, PROTO_ID_UDP, PROTO_ID_TCP, PROTO_ID_OAM, 
    PROTO_ID_OAMRTAG, PROTO_ID_CFM, PROTO_ID_ICMPv4, PROTO_ID_ICMPv6]"

fun protocol_index :: "ProtocolID \<Rightarrow> nat" where
  "protocol_index PROTO_ID_PAYLOAD = 0"
| "protocol_index PROTO_ID_ETH = 1"
| "protocol_index PROTO_ID_SVLAN = 2"
| "protocol_index PROTO_ID_CVLAN = 3"
| "protocol_index PROTO_ID_RTAG = 4"
| "protocol_index PROTO_ID_TTAG = 5"
| "protocol_index PROTO_ID_MPLS = 6"
| "protocol_index PROTO_ID_DCW = 7"
| "protocol_index PROTO_ID_TCW = 8"
| "protocol_index PROTO_ID_IPv4 = 9"
| "protocol_index PROTO_ID_IPv6 = 10"
| "protocol_index PROTO_ID_ARP = 11"
| "protocol_index PROTO_ID_UDP = 12"
| "protocol_index PROTO_ID_TCP = 13"
| "protocol_index PROTO_ID_OAM = 14"
| "protocol_index PROTO_ID_OAMRTAG = 15"
| "protocol_index PROTO_ID_CFM = 16"
| "protocol_index PROTO_ID_ICMPv4 = 17"
| "protocol_index PROTO_ID_ICMPv6 = 18"

section \<open>Next-header values\<close>

definition ETH_P_8021Q :: u16 where "ETH_P_8021Q = 0x8100"
definition ETH_P_8021AD :: u16 where "ETH_P_8021AD = 0x88A8"
definition ETH_P_FRER :: u16 where "ETH_P_FRER = 0xf1c1"
definition ETH_P_MPLS_UC :: u16 where "ETH_P_MPLS_UC = 0x8847"
definition ETH_P_IP :: u16 where "ETH_P_IP = 0x0800"
definition ETH_P_IPV6 :: u16 where "ETH_P_IPV6 = 0x86DD"
definition ETH_P_ARP :: u16 where "ETH_P_ARP = 0x0806"
definition ETH_P_CFM :: u16 where "ETH_P_CFM = 0x8902"
definition IPPROTO_IPIP :: u16 where "IPPROTO_IPIP = 4"
definition IPPROTO_IPV6 :: u16 where "IPPROTO_IPV6 = 41"
definition IPPROTO_UDP :: u16 where "IPPROTO_UDP = 17"
definition IPPROTO_TCP :: u16 where "IPPROTO_TCP = 6"
definition IPPROTO_MPLS :: u16 where "IPPROTO_MPLS = 137"
definition IPPROTO_ETHERNET :: u16 where "IPPROTO_ETHERNET = 143"
definition IPPROTO_ICMP :: u16 where "IPPROTO_ICMP = 1"
definition IPPROTO_ICMPV6 :: u16 where "IPPROTO_ICMPV6 = 58"

lemmas nexthdr_consts =
  ETH_P_8021Q_def ETH_P_8021AD_def ETH_P_FRER_def ETH_P_MPLS_UC_def ETH_P_IP_def
  ETH_P_IPV6_def ETH_P_ARP_def ETH_P_CFM_def IPPROTO_IPIP_def IPPROTO_IPV6_def
  IPPROTO_UDP_def IPPROTO_TCP_def IPPROTO_MPLS_def IPPROTO_ETHERNET_def IPPROTO_ICMP_def
  IPPROTO_ICMPV6_def

definition id_from_ethertype :: "u16 \<Rightarrow> ProtocolID option" where
  "id_from_ethertype nexthdr = (
     if nexthdr = ETH_P_8021Q then Some PROTO_ID_CVLAN else
     if nexthdr = ETH_P_8021AD then Some PROTO_ID_SVLAN else
     if nexthdr = ETH_P_FRER then Some PROTO_ID_RTAG else
     if nexthdr = ETH_P_MPLS_UC then Some PROTO_ID_MPLS else
     if nexthdr = ETH_P_IP then Some PROTO_ID_IPv4 else
     if nexthdr = ETH_P_IPV6 then Some PROTO_ID_IPv6 else
     if nexthdr = ETH_P_ARP then Some PROTO_ID_ARP else
     if nexthdr = ETH_P_CFM then Some PROTO_ID_CFM else
     None)"

fun ethertype_from_id :: "ProtocolID \<Rightarrow> u16 option" where
  "ethertype_from_id PROTO_ID_SVLAN = Some ETH_P_8021AD"
| "ethertype_from_id PROTO_ID_CVLAN = Some ETH_P_8021Q"
| "ethertype_from_id PROTO_ID_RTAG = Some ETH_P_FRER"
| "ethertype_from_id PROTO_ID_TTAG = Some ETH_P_FRER"
| "ethertype_from_id PROTO_ID_OAMRTAG = Some ETH_P_FRER"
| "ethertype_from_id PROTO_ID_MPLS = Some ETH_P_MPLS_UC"
| "ethertype_from_id PROTO_ID_IPv4 = Some ETH_P_IP"
| "ethertype_from_id PROTO_ID_IPv6 = Some ETH_P_IPV6"
| "ethertype_from_id PROTO_ID_ARP = Some ETH_P_ARP"
| "ethertype_from_id PROTO_ID_CFM = Some ETH_P_CFM"
| "ethertype_from_id PROTO_ID_PAYLOAD = None"
| "ethertype_from_id PROTO_ID_ETH = None"
| "ethertype_from_id PROTO_ID_DCW = None"
| "ethertype_from_id PROTO_ID_TCW = None"
| "ethertype_from_id PROTO_ID_UDP = None"
| "ethertype_from_id PROTO_ID_TCP = None"
| "ethertype_from_id PROTO_ID_OAM = None"
| "ethertype_from_id PROTO_ID_ICMPv4 = None"
| "ethertype_from_id PROTO_ID_ICMPv6 = None"

definition id_from_ipproto :: "u16 \<Rightarrow> ProtocolID option" where
  "id_from_ipproto proto = (
     if proto = IPPROTO_IPIP then Some PROTO_ID_IPv4 else
     if proto = IPPROTO_IPV6 then Some PROTO_ID_IPv6 else
     if proto = IPPROTO_UDP then Some PROTO_ID_UDP else
     if proto = IPPROTO_TCP then Some PROTO_ID_TCP else
     if proto = IPPROTO_MPLS then Some PROTO_ID_MPLS else
     if proto = IPPROTO_ETHERNET then Some PROTO_ID_ETH else
     if proto = IPPROTO_ICMP then Some PROTO_ID_ICMPv4 else
     if proto = IPPROTO_ICMPV6 then Some PROTO_ID_ICMPv6 else
     None)"

fun ipproto_from_id :: "ProtocolID \<Rightarrow> u16 option" where
  "ipproto_from_id PROTO_ID_ETH = Some IPPROTO_ETHERNET"
| "ipproto_from_id PROTO_ID_IPv4 = Some IPPROTO_IPIP"
| "ipproto_from_id PROTO_ID_IPv6 = Some IPPROTO_IPV6"
| "ipproto_from_id PROTO_ID_UDP = Some IPPROTO_UDP"
| "ipproto_from_id PROTO_ID_TCP = Some IPPROTO_TCP"
| "ipproto_from_id PROTO_ID_MPLS = Some IPPROTO_MPLS"
| "ipproto_from_id PROTO_ID_ICMPv4 = Some IPPROTO_ICMP"
| "ipproto_from_id PROTO_ID_ICMPv6 = Some IPPROTO_ICMPV6"
| "ipproto_from_id PROTO_ID_PAYLOAD = None"
| "ipproto_from_id PROTO_ID_CVLAN = None"
| "ipproto_from_id PROTO_ID_SVLAN = None"
| "ipproto_from_id PROTO_ID_RTAG = None"
| "ipproto_from_id PROTO_ID_TTAG = None"
| "ipproto_from_id PROTO_ID_DCW = None"
| "ipproto_from_id PROTO_ID_TCW = None"
| "ipproto_from_id PROTO_ID_OAM = None"
| "ipproto_from_id PROTO_ID_ARP = None"
| "ipproto_from_id PROTO_ID_OAMRTAG = None"
| "ipproto_from_id PROTO_ID_CFM = None"

section \<open>Header fields\<close>

definition payload_fields :: "ProtocolField list" where
  "payload_fields = []"

definition eth_fields :: "ProtocolField list" where
  "eth_fields = [
    pfield ''dmac'' 0 48 PFTYPE_MACADDRESS,
    pfield ''smac'' 48 48 PFTYPE_MACADDRESS,
    pfield ''ethertype'' 96 16 PFTYPE_NEXTHEADER]"

definition vlan_fields :: "ProtocolField list" where
  "vlan_fields = [
    pfield ''pcp'' 0 3 PFTYPE_NUMBER,
    pfield ''dei'' 3 1 PFTYPE_NUMBER,
    pfield ''vid'' 4 12 PFTYPE_NUMBER,
    pfield ''tpid'' 16 16 PFTYPE_NEXTHEADER,
    pfield ''vlan'' 0 16 PFTYPE_NUMBER]"

definition rtag_fields :: "ProtocolField list" where
  "rtag_fields = [
    pfield ''rt_flag'' 4 1 PFTYPE_NUMBER,
    pfield ''reset_flag'' 5 1 PFTYPE_NUMBER,
    pfield ''initseq_flag'' 6 1 PFTYPE_NUMBER,
    pfield ''resv'' 0 16 PFTYPE_NUMBER,
    pfield ''seqnum'' 16 16 PFTYPE_NUMBER,
    pfield ''tpid'' 32 16 PFTYPE_NEXTHEADER,
    pfield ''seq'' 0 32 PFTYPE_TSNSEQ]"

definition ttag_fields :: "ProtocolField list" where
  "ttag_fields = [
    pfield ''rt_flag'' 4 1 PFTYPE_NUMBER,
    pfield ''reset_flag'' 5 1 PFTYPE_NUMBER,
    pfield ''initseq_flag'' 6 1 PFTYPE_NUMBER,
    pfield ''resv'' 0 16 PFTYPE_NUMBER,
    pfield ''tstampnum'' 11 21 PFTYPE_NUMBER,
    pfield ''tpid'' 32 16 PFTYPE_NEXTHEADER,
    pfield ''tstamp'' 0 32 PFTYPE_TSNTSTAMP]"

definition mpls_fields :: "ProtocolField list" where
  "mpls_fields = [
    pfield ''label'' 0 20 PFTYPE_NUMBER,
    pfield ''class'' 20 3 PFTYPE_NUMBER,
    pfield ''bos'' 23 1 PFTYPE_NUMBER,
    pfield ''ttl'' 24 8 PFTYPE_TTL]"

definition dcw_fields :: "ProtocolField list" where
  "dcw_fields = [
    pfield ''rt_flag'' 4 1 PFTYPE_NUMBER,
    pfield ''reset_flag'' 5 1 PFTYPE_NUMBER,
    pfield ''initseq_flag'' 6 1 PFTYPE_NUMBER,
    pfield ''resv'' 0 16 PFTYPE_NUMBER,
    pfield ''seqnum'' 16 16 PFTYPE_NUMBER,
    pfield ''seq'' 0 32 PFTYPE_TSNSEQ]"

definition tcw_fields :: "ProtocolField list" where
  "tcw_fields = [
    pfield ''rt_flag'' 4 1 PFTYPE_NUMBER,
    pfield ''reset_flag'' 5 1 PFTYPE_NUMBER,
    pfield ''initseq_flag'' 6 1 PFTYPE_NUMBER,
    pfield ''resv'' 0 16 PFTYPE_NUMBER,
    pfield ''tstampnum'' 11 21 PFTYPE_NUMBER,
    pfield ''tstamp'' 0 32 PFTYPE_TSNTSTAMP]"

definition ipv4_fields :: "ProtocolField list" where
  "ipv4_fields = [
    pfield ''version'' 0 4 PFTYPE_NUMBER,
    pfield ''ihl'' 4 4 PFTYPE_NUMBER,
    pfield ''verihl'' 0 8 PFTYPE_NUMBER,
    pfield ''dscp'' 8 6 PFTYPE_NUMBER,
    pfield ''ecn'' 14 2 PFTYPE_NUMBER,
    pfield ''tos'' 8 8 PFTYPE_NUMBER,
    pfield ''length'' 16 16 PFTYPE_NUMBER,
    pfield ''id'' 32 16 PFTYPE_NUMBER,
    pfield ''flags'' 48 3 PFTYPE_NUMBER,
    pfield ''evil'' 48 1 PFTYPE_NUMBER,
    pfield ''dontfragment'' 49 1 PFTYPE_NUMBER,
    pfield ''morefragments'' 50 1 PFTYPE_NUMBER,
    pfield ''fragoffset'' 51 13 PFTYPE_NUMBER,
    pfield ''ttl'' 64 8 PFTYPE_TTL,
    pfield ''protocol'' 72 8 PFTYPE_NEXTHEADER,
    pfield ''checksum'' 80 16 PFTYPE_CHECKSUM,
    pfield ''src'' 96 32 PFTYPE_IPV4ADDRESS,
    pfield ''dst'' 128 32 PFTYPE_IPV4ADDRESS]"

definition ipv4_default :: "u8 list" where
  "ipv4_default = [0x45, 0, 0, 0, 0, 0, 0, 0, 0x40, 0, 0, 0]"

definition ipv6_fields :: "ProtocolField list" where
  "ipv6_fields = [
    pfield ''version'' 0 4 PFTYPE_NUMBER,
    pfield ''class'' 4 8 PFTYPE_NUMBER,
    pfield ''label'' 12 20 PFTYPE_NUMBER,
    pfield ''length'' 32 16 PFTYPE_NUMBER,
    pfield ''nextheader'' 48 8 PFTYPE_NEXTHEADER,
    pfield ''hoplimit'' 56 8 PFTYPE_TTL,
    pfield ''src'' 64 128 PFTYPE_IPV6ADDRESS,
    pfield ''dst'' 192 128 PFTYPE_IPV6ADDRESS,
    pfield ''loc'' 192 64 PFTYPE_NUMBER,
    pfield ''func'' 256 16 PFTYPE_NUMBER,
    pfield ''flowid'' 272 20 PFTYPE_NUMBER,
    pfield ''seq'' 292 28 PFTYPE_SRV6SEQ]"

definition ipv6_default :: "u8 list" where
  "ipv6_default = [0x60, 0, 0, 0, 0, 0, 0, 0x40]"

definition arp_fields :: "ProtocolField list" where
  "arp_fields = [
    pfield ''hwtype'' 0 16 PFTYPE_NUMBER,
    pfield ''prtype'' 16 16 PFTYPE_NUMBER,
    pfield ''hwsize'' 32 8 PFTYPE_NUMBER,
    pfield ''prsize'' 40 8 PFTYPE_NUMBER,
    pfield ''opcode'' 48 16 PFTYPE_NUMBER,
    pfield ''srcmac'' 64 48 PFTYPE_MACADDRESS,
    pfield ''srcip'' 112 32 PFTYPE_IPV4ADDRESS,
    pfield ''dstmac'' 144 48 PFTYPE_MACADDRESS,
    pfield ''dstip'' 192 32 PFTYPE_IPV4ADDRESS]"

definition arp_default :: "u8 list" where
  "arp_default = [0, 1, 8, 0, 6, 4, 0, 1]"

definition udp_fields :: "ProtocolField list" where
  "udp_fields = [
    pfield ''srcport'' 0 16 PFTYPE_NUMBER,
    pfield ''dstport'' 16 16 PFTYPE_NUMBER,
    pfield ''length'' 32 16 PFTYPE_NUMBER,
    pfield ''checksum'' 48 16 PFTYPE_CHECKSUM]"

definition tcp_fields :: "ProtocolField list" where
  "tcp_fields = [
    pfield ''srcport'' 0 16 PFTYPE_NUMBER,
    pfield ''dstport'' 16 16 PFTYPE_NUMBER,
    pfield ''seq'' 32 32 PFTYPE_NUMBER,
    pfield ''ack'' 64 32 PFTYPE_NUMBER,
    pfield ''dataoffs'' 96 4 PFTYPE_NUMBER,
    pfield ''reserved'' 100 4 PFTYPE_NUMBER,
    pfield ''flags'' 104 8 PFTYPE_NUMBER,
    pfield ''cwr'' 104 1 PFTYPE_NUMBER,
    pfield ''ece'' 105 1 PFTYPE_NUMBER,
    pfield ''urg'' 106 1 PFTYPE_NUMBER,
    pfield ''ack'' 107 1 PFTYPE_NUMBER,
    pfield ''psh'' 108 1 PFTYPE_NUMBER,
    pfield ''rst'' 109 1 PFTYPE_NUMBER,
    pfield ''syn'' 110 1 PFTYPE_NUMBER,
    pfield ''fin'' 111 1 PFTYPE_NUMBER,
    pfield ''windowsize'' 112 16 PFTYPE_NUMBER,
    pfield ''checksum'' 128 16 PFTYPE_CHECKSUM,
    pfield ''urgentp'' 144 16 PFTYPE_NUMBER]"

definition oam_fields :: "ProtocolField list" where
  "oam_fields = [
    pfield ''oam_nibble'' 0 4 PFTYPE_NUMBER,
    pfield ''version'' 4 4 PFTYPE_NUMBER,
    pfield ''sequence'' 8 8 PFTYPE_NUMBER,
    pfield ''channel'' 16 16 PFTYPE_NUMBER,
    pfield ''nodeid'' 32 20 PFTYPE_NUMBER,
    pfield ''level'' 52 3 PFTYPE_NUMBER,
    pfield ''flags'' 55 5 PFTYPE_NUMBER,
    pfield ''session'' 60 4 PFTYPE_NUMBER]"

definition oamrtag_fields :: "ProtocolField list" where
  "oamrtag_fields = [
    pfield ''oam_nibble'' 0 4 PFTYPE_NUMBER,
    pfield ''reserved'' 4 4 PFTYPE_NUMBER,
    pfield ''sequence'' 8 8 PFTYPE_NUMBER,
    pfield ''flags'' 16 8 PFTYPE_NUMBER,
    pfield ''version'' 24 4 PFTYPE_NUMBER,
    pfield ''session'' 28 4 PFTYPE_NUMBER]"

definition cfm_fields :: "ProtocolField list" where
  "cfm_fields = [
    pfield ''mel'' 0 3 PFTYPE_NUMBER,
    pfield ''version'' 3 5 PFTYPE_NUMBER,
    pfield ''opcode'' 8 8 PFTYPE_NUMBER,
    pfield ''flags'' 16 8 PFTYPE_NUMBER,
    pfield ''tlvoffset'' 24 8 PFTYPE_NUMBER]"

definition icmpv4_fields :: "ProtocolField list" where
  "icmpv4_fields = [
    pfield ''type'' 0 8 PFTYPE_NUMBER,
    pfield ''code'' 8 8 PFTYPE_NUMBER,
    pfield ''checksum'' 16 16 PFTYPE_CHECKSUM,
    pfield ''identifier'' 32 16 PFTYPE_NUMBER,
    pfield ''sequence'' 48 16 PFTYPE_NUMBER,
    pfield ''unused'' 32 32 PFTYPE_NUMBER,
    pfield ''gateway'' 32 32 PFTYPE_IPV4ADDRESS,
    pfield ''pointer'' 32 8 PFTYPE_NUMBER]"

definition icmpv6_fields :: "ProtocolField list" where
  "icmpv6_fields = [
    pfield ''type'' 0 8 PFTYPE_NUMBER,
    pfield ''code'' 8 8 PFTYPE_NUMBER,
    pfield ''checksum'' 16 16 PFTYPE_CHECKSUM,
    pfield ''identifier'' 32 16 PFTYPE_NUMBER,
    pfield ''sequence'' 48 16 PFTYPE_NUMBER,
    pfield ''unused'' 32 32 PFTYPE_NUMBER,
    pfield ''mtu'' 32 32 PFTYPE_NUMBER,
    pfield ''pointer'' 32 32 PFTYPE_NUMBER]"

section \<open>The table and its lookups\<close>

record Protocol =
  pname :: string
  header_fields :: "ProtocolField list"
  bytelength :: nat
  get_id :: "(u16 \<Rightarrow> ProtocolID option) option"
  get_nexthdr :: "(ProtocolID \<Rightarrow> u16 option) option"
  default_value :: "u8 list"

abbreviation eth_family :: "string \<Rightarrow> ProtocolField list \<Rightarrow> nat \<Rightarrow> Protocol" where
  "eth_family n fs len \<equiv> \<lparr>pname = n, header_fields = fs, bytelength = len,
     get_id = Some id_from_ethertype, get_nexthdr = Some ethertype_from_id, default_value = []\<rparr>"

abbreviation ip_family :: "string \<Rightarrow> ProtocolField list \<Rightarrow> nat \<Rightarrow> u8 list \<Rightarrow> Protocol" where
  "ip_family n fs len d \<equiv> \<lparr>pname = n, header_fields = fs, bytelength = len,
     get_id = Some id_from_ipproto, get_nexthdr = Some ipproto_from_id, default_value = d\<rparr>"

abbreviation leaf_proto :: "string \<Rightarrow> ProtocolField list \<Rightarrow> nat \<Rightarrow> u8 list \<Rightarrow> Protocol" where
  "leaf_proto n fs len d \<equiv> \<lparr>pname = n, header_fields = fs, bytelength = len,
     get_id = None, get_nexthdr = None, default_value = d\<rparr>"

definition protocol_list :: "Protocol list" where
  "protocol_list = [
    leaf_proto ''payload'' payload_fields 0 [],
    eth_family ''eth'' eth_fields (6 + 6 + 2),
    eth_family ''svlan'' vlan_fields 4,
    eth_family ''cvlan'' vlan_fields 4,
    eth_family ''rtag'' rtag_fields 6,
    eth_family ''ttag'' ttag_fields 6,
    leaf_proto ''mpls'' mpls_fields 4 [],
    leaf_proto ''dcw'' dcw_fields 4 [],
    leaf_proto ''tcw'' tcw_fields 4 [],
    ip_family ''ipv4'' ipv4_fields 20 ipv4_default,
    ip_family ''ipv6'' ipv6_fields 40 ipv6_default,
    leaf_proto ''arp'' arp_fields 28 arp_default,
    leaf_proto ''udp'' udp_fields 8 [],
    leaf_proto ''tcp'' tcp_fields 20 [],
    leaf_proto ''oam'' oam_fields 8 [],
    leaf_proto ''oamrtag'' oamrtag_fields 4 [],
    leaf_proto ''cfm'' cfm_fields 4 [],
    leaf_proto ''icmpv4'' icmpv4_fields 8 [],
    leaf_proto ''icmpv6'' icmpv6_fields 8 []]"

definition protocol_count :: nat where
  "protocol_count = length protocol_list"

definition protocol_from_id :: "ProtocolID \<Rightarrow> Protocol" where
  "protocol_from_id i = protocol_list ! protocol_index i"

fun fieldtype_name_from_type :: "ProtocolFieldType \<Rightarrow> string" where
  "fieldtype_name_from_type PFTYPE_UNKNOWN = ''Unknown''"
| "fieldtype_name_from_type PFTYPE_NUMBER = ''Number''"
| "fieldtype_name_from_type PFTYPE_MACADDRESS = ''MAC''"
| "fieldtype_name_from_type PFTYPE_IPV4ADDRESS = ''IPv4''"
| "fieldtype_name_from_type PFTYPE_IPV6ADDRESS = ''IPv6''"
| "fieldtype_name_from_type PFTYPE_TSNSEQ = ''TSNSeq''"
| "fieldtype_name_from_type PFTYPE_SRV6SEQ = ''SRv6Seq''"
| "fieldtype_name_from_type PFTYPE_TSNTSTAMP = ''TSNTstamp''"
| "fieldtype_name_from_type PFTYPE_TTL = ''TTL''"
| "fieldtype_name_from_type PFTYPE_CHECKSUM = ''Checksum''"
| "fieldtype_name_from_type PFTYPE_NEXTHEADER = ''NextHeader''"

text \<open>A NULL name is \<open>None\<close>.\<close>

fun name_position :: "string \<Rightarrow> Protocol list \<Rightarrow> nat \<Rightarrow> nat option" where
  "name_position t [] i = None"
| "name_position t (p # ps) i = (if t = pname p then Some i else name_position t ps (i + 1))"

definition protocol_type_valid :: "string option \<Rightarrow> bool" where
  "protocol_type_valid t = (case t of None \<Rightarrow> False
     | Some s \<Rightarrow> name_position s protocol_list 0 \<noteq> None)"

definition protocol_id_from_type :: "string option \<Rightarrow> ProtocolID" where
  "protocol_id_from_type t = (case t of None \<Rightarrow> PROTO_ID_PAYLOAD
     | Some s \<Rightarrow> (case name_position s protocol_list 0 of
           None \<Rightarrow> PROTO_ID_PAYLOAD
         | Some i \<Rightarrow> all_protocols ! i))"

definition protocol_type_from_id :: "ProtocolID \<Rightarrow> string option" where
  "protocol_type_from_id i =
     (if protocol_index i < protocol_count then Some (pname (protocol_list ! protocol_index i)) else None)"

text \<open>
  The guard of the lookup by name is \<^verbatim>\<open>id < 0 && id >= protocol_count\<close>, which no id satisfies;
  it is kept as written.
\<close>

definition protocol_get_field_by_name :: "ProtocolID \<Rightarrow> string \<Rightarrow> ProtocolField option" where
  "protocol_get_field_by_name i name =
     (if int (protocol_index i) < 0 \<and> protocol_index i \<ge> protocol_count then None
      else find (\<lambda>f. name = fname f) (header_fields (protocol_from_id i)))"

definition protocol_fieldname_valid :: "ProtocolID \<Rightarrow> string \<Rightarrow> bool" where
  "protocol_fieldname_valid i name = (protocol_get_field_by_name i name \<noteq> None)"

definition protocol_get_field_by_type :: "ProtocolID \<Rightarrow> ProtocolFieldType \<Rightarrow> ProtocolField option" where
  "protocol_get_field_by_type i t = find (\<lambda>f. ftype f = t) (header_fields (protocol_from_id i))"

fun type_position :: "ProtocolFieldType \<Rightarrow> ProtocolField list \<Rightarrow> int \<Rightarrow> int" where
  "type_position t [] i = -1"
| "type_position t (f # fs) i = (if ftype f = t then i else type_position t fs (i + 1))"

definition protocol_get_field_idx_by_type :: "ProtocolID \<Rightarrow> ProtocolFieldType \<Rightarrow> int" where
  "protocol_get_field_idx_by_type i t = type_position t (header_fields (protocol_from_id i)) 0"

section \<open>What the table guarantees\<close>

lemmas protocol_tables =
  payload_fields_def eth_fields_def vlan_fields_def rtag_fields_def ttag_fields_def
  mpls_fields_def dcw_fields_def tcw_fields_def ipv4_fields_def ipv6_fields_def arp_fields_def
  udp_fields_def tcp_fields_def oam_fields_def oamrtag_fields_def cfm_fields_def
  icmpv4_fields_def icmpv6_fields_def

lemma protocol_index_inverse: "all_protocols ! protocol_index i = i"
  by (cases i) (simp_all add: all_protocols_def)

lemma protocol_index_less: "protocol_index i < protocol_count"
  by (cases i) (simp_all add: protocol_count_def protocol_list_def)

lemma all_protocols_complete: "i \<in> set all_protocols"
  by (cases i) (simp_all add: all_protocols_def)

text \<open>The names of the table are pairwise different, so the search by name finds each one.\<close>

lemma distinct_protocol_names: "distinct (map pname protocol_list)"
  by (simp add: protocol_list_def)

lemma name_position_nth:
  assumes "distinct (map pname ps)" "k < length ps"
  shows "name_position (pname (ps ! k)) ps i = Some (i + k)"
  using assms
proof (induction ps arbitrary: i k)
  case (Cons p ps)
  show ?case
  proof (cases k)
    case (Suc m)
    with Cons.prems have "pname (ps ! m) \<noteq> pname p"
      by (auto simp: image_iff) (metis nth_mem)
    with Suc Cons show ?thesis by simp
  qed simp
qed simp

lemma find_in_set: "find P xs = Some x \<Longrightarrow> x \<in> set xs \<and> P x"
  by (auto simp: find_Some_iff)

lemma field_by_name_in: "protocol_get_field_by_name i n = Some f \<Longrightarrow>
    f \<in> set (header_fields (protocol_from_id i)) \<and> fname f = n"
  by (auto simp: protocol_get_field_by_name_def split: if_splits dest: find_in_set)

lemma field_by_type_in: "protocol_get_field_by_type i t = Some f \<Longrightarrow>
    f \<in> set (header_fields (protocol_from_id i)) \<and> ftype f = t"
  by (auto simp: protocol_get_field_by_type_def dest: find_in_set)

lemma type_position_find:
  "(case find (\<lambda>f. ftype f = t) fs of
      None \<Rightarrow> type_position t fs i = -1
    | Some f \<Rightarrow> \<exists>k < length fs. type_position t fs i = i + int k \<and> fs ! k = f)"
proof (induction fs arbitrary: i)
  case (Cons g fs)
  show ?case
  proof (cases "ftype g = t")
    case False
    with Cons [of "i + 1"] show ?thesis
      by (auto split: option.splits intro: exI [of _ "Suc _"])
  qed (auto intro: exI [of _ 0])
qed simp

lemma field_idx_by_type:
  "(case protocol_get_field_by_type i t of
      None \<Rightarrow> protocol_get_field_idx_by_type i t = -1
    | Some f \<Rightarrow> \<exists>k < length (header_fields (protocol_from_id i)).
         protocol_get_field_idx_by_type i t = int k \<and> header_fields (protocol_from_id i) ! k = f)"
  using type_position_find [of t "header_fields (protocol_from_id i)" 0]
  by (simp add: protocol_get_field_idx_by_type_def protocol_get_field_by_type_def split: option.splits)

text \<open>Every field is a non-empty bit range inside its header, and the defaults fit.\<close>

definition fields_inside :: "Protocol \<Rightarrow> bool" where
  "fields_inside p \<longleftrightarrow> length (default_value p) \<le> bytelength p \<and>
     list_all (\<lambda>f. 0 < bitcount f \<and> bitcount f \<le> 128 \<and>
                   bitoffset f + bitcount f \<le> 8 * bytelength p) (header_fields p)"

lemma fields_inside_table: "fields_inside (protocol_from_id i)"
  by (cases i) (simp_all add: fields_inside_def protocol_from_id_def protocol_list_def
      protocol_tables ipv4_default_def ipv6_default_def arp_default_def)

lemma field_bounds:
  "f \<in> set (header_fields (protocol_from_id i)) \<Longrightarrow>
     0 < bitcount f \<and> bitcount f \<le> 128 \<and> bitoffset f + bitcount f \<le> 8 * bytelength (protocol_from_id i)"
  using fields_inside_table [of i] by (auto simp: fields_inside_def list_all_iff)

text \<open>
  C31: The protocol table is consistent with the ids: the name of every protocol is valid and
  resolves to its id again, and every field found by name or by type is a non-empty bit range
  of at most 128 bits inside the header of that protocol.
\<close>

theorem protocol_table_consistent:
  "(\<exists>n. protocol_type_from_id i = Some n \<and> protocol_type_valid (Some n)
             \<and> protocol_id_from_type (Some n) = i)
   \<and> (protocol_get_field_by_name i name = Some f \<or> protocol_get_field_by_type i t = Some f \<longrightarrow>
           0 < bitcount f \<and> bitcount f \<le> 128 \<and>
           bitoffset f + bitcount f \<le> 8 * bytelength (protocol_from_id i))"
proof (intro conjI impI)
  have "name_position (pname (protocol_list ! protocol_index i)) protocol_list 0
          = Some (protocol_index i)"
    using name_position_nth [OF distinct_protocol_names, of "protocol_index i" 0]
      protocol_index_less [of i] by (simp add: protocol_count_def)
  thus "\<exists>n. protocol_type_from_id i = Some n \<and> protocol_type_valid (Some n)
             \<and> protocol_id_from_type (Some n) = i"
    using protocol_index_less [of i]
    by (simp add: protocol_type_from_id_def protocol_type_valid_def protocol_id_from_type_def
        protocol_index_inverse)
next
  assume "protocol_get_field_by_name i name = Some f \<or> protocol_get_field_by_type i t = Some f"
  hence "0 < bitcount f \<and> bitcount f \<le> 128 \<and>
        bitoffset f + bitcount f \<le> 8 * bytelength (protocol_from_id i)"
    using field_bounds field_by_name_in field_by_type_in by metis
  thus "0 < bitcount f" "bitcount f \<le> 128" "bitoffset f + bitcount f \<le> 8 * bytelength (protocol_from_id i)"
    by simp_all
qed

theorem protocol_table_consistent_witness:
  "protocol_get_field_by_name PROTO_ID_IPv6 ''seq'' = Some (pfield ''seq'' 292 28 PFTYPE_SRV6SEQ) \<and>
   protocol_id_from_type (Some ''ipv6'') = PROTO_ID_IPv6 \<and> 292 + 28 \<le> 8 * bytelength (protocol_from_id PROTO_ID_IPv6)"
proof -
  have f: "protocol_get_field_by_name PROTO_ID_IPv6 ''seq'' = Some (pfield ''seq'' 292 28 PFTYPE_SRV6SEQ)"
    by (simp add: protocol_get_field_by_name_def protocol_from_id_def protocol_list_def ipv6_fields_def)
  have n: "protocol_type_from_id PROTO_ID_IPv6 = Some ''ipv6''"
    by (simp add: protocol_type_from_id_def protocol_count_def protocol_list_def)
  show ?thesis
    using f n protocol_table_consistent [of PROTO_ID_IPv6 "''seq''" "pfield ''seq'' 292 28 PFTYPE_SRV6SEQ"]
    by auto
qed

lemma ethertype_roundtrip:
  "ethertype_from_id i = Some t \<Longrightarrow>
     id_from_ethertype t = Some (if i \<in> {PROTO_ID_TTAG, PROTO_ID_OAMRTAG} then PROTO_ID_RTAG else i)"
  by (cases i) (auto simp: id_from_ethertype_def nexthdr_consts)

lemma ipproto_roundtrip: "ipproto_from_id i = Some t \<Longrightarrow> id_from_ipproto t = Some i \<and> unat t < 2 ^ 8"
  by (cases i) (auto simp: id_from_ipproto_def nexthdr_consts)

lemma nexthdr_families:
  "get_nexthdr (protocol_from_id p) = Some g \<Longrightarrow>
     (g = ethertype_from_id \<and> get_id (protocol_from_id p) = Some id_from_ethertype
        \<and> (\<exists>f. protocol_get_field_by_type p PFTYPE_NEXTHEADER = Some f \<and> bitcount f = 16)) \<or>
     (g = ipproto_from_id \<and> get_id (protocol_from_id p) = Some id_from_ipproto
        \<and> (\<exists>f. protocol_get_field_by_type p PFTYPE_NEXTHEADER = Some f \<and> bitcount f = 8))"
  by (cases p) (simp_all add: protocol_from_id_def protocol_list_def protocol_get_field_by_type_def
      protocol_tables)



text \<open>
  The TCP table names two fields \<^verbatim>\<open>ack\<close>; the lookup always returns the acknowledgement
  number, so the flag bit at offset 107 cannot be addressed by name.
\<close>

lemma tcp_ack_flag_unreachable:
  "pfield ''ack'' 107 1 PFTYPE_NUMBER \<in> set (header_fields (protocol_from_id PROTO_ID_TCP))"
  "protocol_get_field_by_name PROTO_ID_TCP name \<noteq> Some (pfield ''ack'' 107 1 PFTYPE_NUMBER)"
  by (auto simp: protocol_get_field_by_name_def protocol_from_id_def protocol_list_def tcp_fields_def)

end
