(* ===== verification/Packet.thy ===== *)
theory Packet
  imports Prelude Protocol Time_Utils
begin

text \<open>
  Packets and their header list (\<^verbatim>\<open>src/packet.c\<close>): allocation against the packet limit,
  deep copy, serialization, the header list operations and the packet log.

  The buffer of a packet is a list of \<open>PACKET_BUF_LEN\<close> bytes and the header array is the list
  of its live entries, so \<open>header_count\<close> is the length of that list.  Reads and writes of the
  buffer are checked (\<open>None\<close> is an access outside of the buffer).  The shared dummy buffer of
  packets over the limit is the flag \<open>dummy\<close> together with a snapshot of its contents; memory
  that \<open>malloc\<close> leaves uninitialised is an argument.
\<close>

section \<open>Data\<close>

definition PACKET_BUF_LEN :: nat where "PACKET_BUF_LEN = 10000"
definition PACKET_LOG_BUF_SIZE :: nat where "PACKET_LOG_BUF_SIZE = 256"
definition PACKET_MAX_HEADER_NUM :: nat where "PACKET_MAX_HEADER_NUM = 20"
definition PACKET_COUNT_LIMIT :: u32 where "PACKET_COUNT_LIMIT = 200"
definition PACKET_START_OFFSET :: u32 where "PACKET_START_OFFSET = 1024"

lemmas packet_consts =
  PACKET_BUF_LEN_def PACKET_MAX_HEADER_NUM_def PACKET_COUNT_LIMIT_def PACKET_START_OFFSET_def

datatype ActionResult = ACR_CONTINUE | ACR_DONE | ACR_HOLD

record PacketHeader =
  htype :: ProtocolID
  hstart :: u32
  hlen :: u32

record Packet =
  buf :: "u8 list"
  dummy :: bool
  pstart :: u32
  plen :: u32
  scratch_len :: u32
  headers :: "PacketHeader list"
  from_if :: "nat option"
  recv_time :: timespec
  pkt_id :: u32
  original_id :: u32
  timestamp :: u32
  sequence :: u32
  ttl :: u32
  logbuf :: string
  offload :: bool
  delay :: timespec

text \<open>The module's variables: the number of packets, the next id and the dummy buffer.\<close>

record packet_sys =
  packet_count :: u32
  next_packet_id :: u32
  dummybuf :: "u8 list"

abbreviation header_count :: "Packet \<Rightarrow> nat" where
  "header_count p \<equiv> length (headers p)"

section \<open>Allocation, copy and serialization\<close>

definition zeroed_packet :: "nat option \<Rightarrow> u32 \<Rightarrow> Packet" where
  "zeroed_packet from i = \<lparr>buf = [], dummy = False, pstart = PACKET_START_OFFSET, plen = 0,
     scratch_len = 0, headers = [], from_if = from, recv_time = Timespec 0 0, pkt_id = i,
     original_id = i, timestamp = 0, sequence = 0, ttl = 0,
     logbuf = replicate PACKET_LOG_BUF_SIZE (CHR 0x00), offload = False, delay = Timespec 0 0\<rparr>"

text \<open>\<open>mem\<close> is the memory the allocator returns: zeros for \<open>new_packet\<close>, arbitrary bytes for
  \<open>new_packet_fast\<close>.\<close>

definition alloc_packet :: "u8 list \<Rightarrow> nat option \<Rightarrow> packet_sys \<Rightarrow> Packet \<times> packet_sys" where
  "alloc_packet mem from s =
     (let p = zeroed_packet from (next_packet_id s);
          s' = s\<lparr>next_packet_id := next_packet_id s + 1\<rparr>
      in if packet_count s \<ge> PACKET_COUNT_LIMIT
         then (p\<lparr>buf := dummybuf s, dummy := True\<rparr>, s')
         else (p\<lparr>buf := mem\<rparr>, s'\<lparr>packet_count := packet_count s + 1\<rparr>))"

definition new_packet :: "nat option \<Rightarrow> packet_sys \<Rightarrow> Packet \<times> packet_sys" where
  "new_packet = alloc_packet (replicate PACKET_BUF_LEN 0)"

definition new_packet_fast :: "u8 list \<Rightarrow> nat option \<Rightarrow> packet_sys \<Rightarrow> Packet \<times> packet_sys" where
  "new_packet_fast mem = alloc_packet mem"

definition delete_packet :: "Packet option \<Rightarrow> packet_sys \<Rightarrow> packet_sys" where
  "delete_packet po s = (case po of None \<Rightarrow> s
     | Some p \<Rightarrow> (if dummy p then s else s\<lparr>packet_count := packet_count s - 1\<rparr>))"

definition copy_packet :: "u8 list \<Rightarrow> Packet \<Rightarrow> packet_sys \<Rightarrow> (Packet \<times> packet_sys) option" where
  "copy_packet mem p s =
     do { src \<leftarrow> mem_read (buf p) 0 (unat (pstart p + plen p));
          b \<leftarrow> mem_write mem 0 src;
          Some (p\<lparr>pkt_id := next_packet_id s, buf := b, dummy := False\<rparr>,
                s\<lparr>next_packet_id := next_packet_id s + 1, packet_count := packet_count s + 1\<rparr>) }"

fun headers_length :: "PacketHeader list \<Rightarrow> u32 \<Rightarrow> u32" where
  "headers_length [] packetlen = packetlen"
| "headers_length (h # hs) packetlen = headers_length hs (packetlen + hlen h)"

definition packet_length :: "Packet \<Rightarrow> u32" where
  "packet_length p = headers_length (headers p) 0"

fun serialize_loop :: "u8 list \<Rightarrow> PacketHeader list \<Rightarrow> u8 list \<Rightarrow> u32 \<Rightarrow> (u8 list \<times> u32) option" where
  "serialize_loop src [] dst dstlen = Some (dst, dstlen)"
| "serialize_loop src (h # hs) dst dstlen =
     do { bytes \<leftarrow> mem_read src (unat (hstart h)) (unat (hlen h));
          dst' \<leftarrow> mem_write dst (unat PACKET_START_OFFSET + unat dstlen) bytes;
          serialize_loop src hs dst' (dstlen + hlen h) }"

definition serialize_packet :: "Packet \<Rightarrow> packet_sys \<Rightarrow> (Packet \<times> packet_sys) option" where
  "serialize_packet p s =
     do { (b, dstlen) \<leftarrow> serialize_loop (buf p) (headers p) (replicate PACKET_BUF_LEN 0) 0;
          Some (p\<lparr>buf := b, dummy := False, pstart := PACKET_START_OFFSET, plen := dstlen,
                  scratch_len := 0, headers := [], pkt_id := next_packet_id s\<rparr>,
                s\<lparr>next_packet_id := next_packet_id s + 1, packet_count := packet_count s + 1\<rparr>) }"

definition packet_dummy :: "Packet \<Rightarrow> bool" where
  "packet_dummy p = dummy p"

section \<open>The header list\<close>

definition packet_identify_header :: "Packet \<Rightarrow> ProtocolID \<Rightarrow> u32 \<Rightarrow> u32 \<Rightarrow> bool \<times> Packet" where
  "packet_identify_header p type offset len =
     (if header_count p = PACKET_MAX_HEADER_NUM then (False, p)
      else if header_count p > 0 \<and> hstart (headers p ! (header_count p - 1)) \<ge> pstart p + offset
           then (False, p)
      else if offset + len > plen p then (False, p)
      else (True, p\<lparr>headers := headers p @ [\<lparr>htype = type, hstart = pstart p + offset, hlen = len\<rparr>]\<rparr>))"

definition scratch_alloc :: "Packet \<Rightarrow> u32 \<Rightarrow> int \<times> Packet" where
  "scratch_alloc p len =
     (if scratch_len p + len \<ge> pstart p then (-1, p)
      else (uint (scratch_len p), p\<lparr>scratch_len := scratch_len p + len\<rparr>))"

text \<open>Shifting the entries from \<open>idx\<close> on with \<open>memmove\<close> and writing entry \<open>idx\<close>.\<close>

definition packet_add_header :: "Packet \<Rightarrow> u32 \<Rightarrow> ProtocolID \<Rightarrow> u32 \<Rightarrow> bool \<times> Packet" where
  "packet_add_header p idx type len =
     (if header_count p = PACKET_MAX_HEADER_NUM then (False, p)
      else if unat idx > header_count p then (False, p)
      else let (start, p') = scratch_alloc p len
           in if start < 0 then (False, p')
              else (True, p'\<lparr>headers := take (unat idx) (headers p)
                       @ [\<lparr>htype = type, hstart = of_int start, hlen = len\<rparr>]
                       @ drop (unat idx) (headers p)\<rparr>))"

definition packet_del_header :: "Packet \<Rightarrow> u32 \<Rightarrow> Packet" where
  "packet_del_header p idx =
     (if unat idx \<ge> header_count p then p
      else p\<lparr>headers := take (unat idx) (headers p) @ drop (unat idx + 1) (headers p)\<rparr>)"

definition packet_clear_headers :: "Packet \<Rightarrow> Packet" where
  "packet_clear_headers p = p\<lparr>headers := [], scratch_len := 0\<rparr>"

definition packet_enlarge_scratch :: "Packet \<Rightarrow> Packet" where
  "packet_enlarge_scratch p =
     (if plen p = 0 then p\<lparr>pstart := of_nat PACKET_BUF_LEN\<rparr> else p)"

text \<open>
  The loop \<^verbatim>\<open>for (i=1; i<header_count-1; i++)\<close>; the bound is unsigned, so it is
  \<^verbatim>\<open>UINT_MAX\<close> when there is no header.  \<open>None\<close> is a read of an entry that is not live.
\<close>

function linear_loop :: "PacketHeader list \<Rightarrow> nat \<Rightarrow> nat \<Rightarrow> bool option" where
  "linear_loop hs bound i =
     (if i < bound then
        do { next \<leftarrow> aget hs (i + 1);
             cur \<leftarrow> aget hs i;
             if hstart next \<noteq> hstart cur + hlen cur then Some False
             else linear_loop hs bound (i + 1) }
      else Some True)"
  by auto
termination by (relation "measure (\<lambda>(hs, bound, i). bound - i)") auto

declare linear_loop.simps [simp del]

definition packet_is_linear :: "Packet \<Rightarrow> bool option" where
  "packet_is_linear p = linear_loop (headers p) (unat (of_nat (header_count p) - 1 :: u32)) 1"

section \<open>The packet log\<close>

text \<open>
  \<open>msg\<close> is the full text the format produces; \<open>vsnprintf\<close> returns its length and stores at
  most one character less than the size of its buffer.
\<close>

definition cstr :: "string \<Rightarrow> string" where
  "cstr s = takeWhile (\<lambda>c. c \<noteq> CHR 0x00) s"

definition strncpy :: "string \<Rightarrow> nat \<Rightarrow> string \<Rightarrow> nat \<Rightarrow> string option" where
  "strncpy dst off src n = mem_write dst off (take n (src @ replicate n (CHR 0x00)))"

definition packet_logcat :: "Packet \<Rightarrow> string \<Rightarrow> Packet option" where
  "packet_logcat p text =
     do { last \<leftarrow> aget (logbuf p) (PACKET_LOG_BUF_SIZE - 2);
          if last \<noteq> CHR 0x00 then Some p
          else do {
            let buflen = length (cstr (logbuf p));
            let msg = take (PACKET_LOG_BUF_SIZE - 1 - 1) text;
            let n = length text;
            b \<leftarrow> strncpy (logbuf p) buflen msg (PACKET_LOG_BUF_SIZE - buflen - 1);
            b' \<leftarrow> (if n + buflen \<ge> PACKET_LOG_BUF_SIZE - 1
                  then mem_write b (PACKET_LOG_BUF_SIZE - 4) (''...'' @ [CHR 0x00])
                  else Some b);
            Some (p\<lparr>logbuf := b'\<rparr>) } }"

section \<open>Well-formed packets\<close>

text \<open>
  A header is inside the buffer, and if it is not empty it lies in the allocated scratch space
  or in the received bytes.
\<close>

definition header_ok :: "Packet \<Rightarrow> PacketHeader \<Rightarrow> bool" where
  "header_ok p h \<longleftrightarrow> unat (hstart h) + unat (hlen h) \<le> PACKET_BUF_LEN \<and>
     (hlen h = 0 \<or> unat (hstart h) + unat (hlen h) \<le> unat (scratch_len p) \<or>
      unat (pstart p) \<le> unat (hstart h) \<and>
        unat (hstart h) + unat (hlen h) \<le> unat (pstart p) + unat (plen p))"

definition packet_wf :: "Packet \<Rightarrow> bool" where
  "packet_wf p \<longleftrightarrow> length (buf p) = PACKET_BUF_LEN \<and>
     unat (pstart p) + unat (plen p) \<le> PACKET_BUF_LEN \<and> scratch_len p \<le> pstart p \<and>
     header_count p \<le> PACKET_MAX_HEADER_NUM \<and> list_all (header_ok p) (headers p)"

lemma unat_plus_le:
  fixes a b :: u32
  assumes "unat a + unat b < 2 ^ 32"
  shows "unat (a + b) = unat a + unat b"
  using assms by (simp add: unat_word_ariths)

lemma packet_wfD:
  assumes "packet_wf p"
  shows "length (buf p) = 10000" "unat (pstart p) + unat (plen p) \<le> 10000"
    "unat (scratch_len p) \<le> unat (pstart p)" "header_count p \<le> 20"
    "\<And>h. h \<in> set (headers p) \<Longrightarrow> unat (hstart h) + unat (hlen h) \<le> 10000"
    "\<And>h. h \<in> set (headers p) \<Longrightarrow> header_ok p h"
  using assms
  by (auto simp: packet_wf_def packet_consts list_all_iff header_ok_def word_le_nat_alt)

lemma packet_wf_alloc:
  assumes "length mem = PACKET_BUF_LEN" and "length (dummybuf s) = PACKET_BUF_LEN"
  shows "packet_wf (fst (alloc_packet mem from s))"
  using assms
  by (auto simp: alloc_packet_def zeroed_packet_def packet_wf_def packet_consts Let_def)

lemma packet_wf_identify:
  assumes wf: "packet_wf p" and nowrap: "unat offset + unat len < 2 ^ 32"
  shows "packet_wf (snd (packet_identify_header p type offset len))"
proof (cases "fst (packet_identify_header p type offset len)")
  case True
  hence le: "offset + len \<le> plen p" and cnt: "header_count p \<noteq> PACKET_MAX_HEADER_NUM"
    by (auto simp: packet_identify_header_def split: if_splits)
  have ol: "unat offset + unat len \<le> unat (plen p)"
    using le unat_plus_le [OF nowrap] by (simp add: word_le_nat_alt)
  have st: "unat (pstart p + offset) = unat (pstart p) + unat offset"
    using ol packet_wfD(2) [OF wf] by (intro unat_plus_le) simp
  have "header_ok p \<lparr>htype = type, hstart = pstart p + offset, hlen = len\<rparr>"
    using ol st packet_wfD(2) [OF wf] by (auto simp: header_ok_def packet_consts)
  moreover have "snd (packet_identify_header p type offset len) =
      p\<lparr>headers := headers p @ [\<lparr>htype = type, hstart = pstart p + offset, hlen = len\<rparr>]\<rparr>"
    using True by (auto simp: packet_identify_header_def split: if_splits)
  moreover have "header_count p < PACKET_MAX_HEADER_NUM"
    using cnt packet_wfD(4) [OF wf] by (simp add: packet_consts)
  ultimately show ?thesis
    using wf by (auto simp: packet_wf_def header_ok_def list_all_iff)
next
  case False
  hence "snd (packet_identify_header p type offset len) = p"
    by (auto simp: packet_identify_header_def split: if_splits)
  with wf show ?thesis by simp
qed

text \<open>What a successful \<open>packet_add_header\<close> does.\<close>

lemma packet_add_header_True:
  assumes "packet_wf p" and "unat (scratch_len p) + unat len < 2 ^ 32"
    and "packet_add_header p idx type len = (True, p')"
  shows "unat (scratch_len p) + unat len < unat (pstart p)" "unat idx \<le> header_count p"
    "header_count p < PACKET_MAX_HEADER_NUM"
    "p' = p\<lparr>scratch_len := scratch_len p + len,
            headers := take (unat idx) (headers p)
              @ [\<lparr>htype = type, hstart = scratch_len p, hlen = len\<rparr>] @ drop (unat idx) (headers p)\<rparr>"
    "unat (scratch_len p + len) = unat (scratch_len p) + unat len"
  using assms(3) unat_plus_le [OF assms(2)] packet_wfD(4) [OF assms(1)]
  by (auto simp: packet_add_header_def scratch_alloc_def not_le word_less_nat_alt packet_consts
      split: if_splits)

lemma packet_add_header_False:
  "packet_add_header p idx type len = (False, p') \<Longrightarrow> p' = p"
  by (auto simp: packet_add_header_def scratch_alloc_def split: if_splits)

lemma packet_wf_add:
  assumes wf: "packet_wf p" and nowrap: "unat (scratch_len p) + unat len < 2 ^ 32"
  shows "packet_wf (snd (packet_add_header p idx type len))"
proof (cases "packet_add_header p idx type len")
  case (Pair ok p')
  show ?thesis
  proof (cases ok)
    case True
    have eq: "packet_add_header p idx type len = (True, p')" using Pair True by simp
    note t = packet_add_header_True [OF wf nowrap eq]
    have old: "header_ok p' h" if "h \<in> set (headers p)" for h
      using packet_wfD(6) [OF wf that] t(4,5) by (auto simp: header_ok_def)
    have new: "header_ok p' \<lparr>htype = type, hstart = scratch_len p, hlen = len\<rparr>"
      using t(1,4,5) packet_wfD(2) [OF wf] by (auto simp: header_ok_def packet_consts)
    have "list_all (header_ok p') (headers p')"
      using old new t(4) by (auto simp: list_all_iff dest: in_set_takeD in_set_dropD)
    with t wf show ?thesis
      by (auto simp: Pair packet_wf_def word_le_nat_alt)
  next
    case False
    with packet_add_header_False [of p idx type len p'] wf show ?thesis by (simp add: Pair)
  qed
qed

lemma packet_wf_del: "packet_wf p \<Longrightarrow> packet_wf (packet_del_header p idx)"
  by (auto simp: packet_wf_def packet_del_header_def header_ok_def list_all_iff
      dest: in_set_takeD in_set_dropD)

lemma packet_wf_clear: "packet_wf p \<Longrightarrow> packet_wf (packet_clear_headers p)"
  by (auto simp: packet_wf_def packet_clear_headers_def)

lemma packet_wf_enlarge:
  assumes wf: "packet_wf p"
  shows "packet_wf (packet_enlarge_scratch p)"
proof (cases "plen p = 0")
  case True
  have "header_ok (packet_enlarge_scratch p) h" if "h \<in> set (headers p)" for h
    using packet_wfD(6) [OF wf that] packet_wfD(2) [OF wf] True unat_eq_zero [of "hlen h"]
    by (auto simp: header_ok_def packet_enlarge_scratch_def)
  with wf True show ?thesis
    by (auto simp: packet_wf_def packet_enlarge_scratch_def list_all_iff packet_consts
        word_le_nat_alt)
qed (use wf in \<open>simp add: packet_enlarge_scratch_def\<close>)

text \<open>
  The header list operations as the steps of a packet; the side conditions say that the byte
  counts the callers pass do not wrap an \<open>unsigned\<close>.
\<close>

inductive packet_step :: "Packet \<Rightarrow> Packet \<Rightarrow> bool" where
  step_identify: "unat offset + unat len < 2 ^ 32 \<Longrightarrow>
     packet_step p (snd (packet_identify_header p type offset len))"
| step_add: "unat (scratch_len p) + unat len < 2 ^ 32 \<Longrightarrow>
     packet_step p (snd (packet_add_header p idx type len))"
| step_del: "packet_step p (packet_del_header p idx)"
| step_clear: "packet_step p (packet_clear_headers p)"
| step_enlarge: "packet_step p (packet_enlarge_scratch p)"

lemma packet_step_wf: "packet_step p q \<Longrightarrow> packet_wf p \<Longrightarrow> packet_wf q"
  by (induction rule: packet_step.induct)
    (simp_all add: packet_wf_identify packet_wf_add packet_wf_del packet_wf_clear packet_wf_enlarge)

lemma packet_steps_wf: "packet_step\<^sup>*\<^sup>* p q \<Longrightarrow> packet_wf p \<Longrightarrow> packet_wf q"
  by (induction rule: rtranclp_induct) (auto intro: packet_step_wf)

section \<open>Headers do not overlap\<close>

definition hdr_range :: "PacketHeader \<Rightarrow> nat set" where
  "hdr_range h = {unat (hstart h) ..< unat (hstart h) + unat (hlen h)}"

text \<open>No two entries of the list share a byte of the buffer.\<close>

fun ranges_disjoint :: "PacketHeader list \<Rightarrow> bool" where
  "ranges_disjoint [] = True"
| "ranges_disjoint (h # hs) \<longleftrightarrow> list_all (\<lambda>g. hdr_range h \<inter> hdr_range g = {}) hs \<and> ranges_disjoint hs"

lemma ranges_disjoint_append [simp]:
  "ranges_disjoint (hs @ gs) \<longleftrightarrow> ranges_disjoint hs \<and> ranges_disjoint gs \<and>
     (\<forall>h\<in>set hs. \<forall>g\<in>set gs. hdr_range h \<inter> hdr_range g = {})"
  by (induction hs) (auto simp: list_all_iff)

lemma ranges_disjoint_nth:
  "ranges_disjoint hs \<Longrightarrow> i < length hs \<Longrightarrow> j < length hs \<Longrightarrow> i \<noteq> j \<Longrightarrow>
     hdr_range (hs ! i) \<inter> hdr_range (hs ! j) = {}"
proof (induction hs arbitrary: i j)
  case (Cons h hs)
  show ?case
  proof (cases i)
    case 0
    with Cons.prems show ?thesis
      by (cases j) (auto simp: list_all_iff)
  next
    case (Suc i')
    with Cons show ?thesis
      by (cases j) (auto simp: list_all_iff)
  qed
qed simp

lemma scratch_range_fresh:
  assumes wf: "packet_wf p" and h: "h \<in> set (headers p)"
    and room: "unat (scratch_len p) + unat len < unat (pstart p)"
  shows "hdr_range \<lparr>htype = t, hstart = scratch_len p, hlen = len\<rparr> \<inter> hdr_range h = {}"
  using packet_wfD(6) [OF wf h] room by (auto simp: hdr_range_def header_ok_def)

lemma ranges_disjoint_add:
  assumes wf: "packet_wf p" and nowrap: "unat (scratch_len p) + unat len < 2 ^ 32"
    and d: "ranges_disjoint (headers p)"
  shows "ranges_disjoint (headers (snd (packet_add_header p idx type len)))"
proof (cases "packet_add_header p idx type len")
  case (Pair ok p')
  show ?thesis
  proof (cases ok)
    case True
    have eq: "packet_add_header p idx type len = (True, p')" using Pair True by simp
    note t = packet_add_header_True [OF wf nowrap eq]
    have fresh: "hdr_range \<lparr>htype = type, hstart = scratch_len p, hlen = len\<rparr> \<inter> hdr_range h = {}"
      if "h \<in> set (headers p)" for h using scratch_range_fresh [OF wf that t(1)] .
    have "ranges_disjoint (take (unat idx) (headers p) @ drop (unat idx) (headers p))"
      using d by simp
    with fresh show ?thesis
      unfolding ranges_disjoint_append
      by (auto simp: Pair t(4) list_all_iff Int_commute dest: in_set_takeD in_set_dropD)
  next
    case False
    with packet_add_header_False [of p idx type len p'] d show ?thesis by (simp add: Pair)
  qed
qed

lemma ranges_disjoint_del:
  assumes d: "ranges_disjoint (headers p)"
  shows "ranges_disjoint (headers (packet_del_header p idx))"
proof (cases "unat idx < header_count p")
  case True
  have "ranges_disjoint (take (unat idx) (headers p) @ (headers p ! unat idx) # drop (unat idx + 1) (headers p))"
    using d id_take_nth_drop [OF True] by simp
  with True show ?thesis
    unfolding ranges_disjoint_append by (simp add: packet_del_header_def)
qed (use d in \<open>simp add: packet_del_header_def\<close>)

text \<open>
  C29: Adding a header takes bytes that no live header uses: after a successful
  \<open>packet_add_header\<close> on a well-formed packet with non-overlapping headers, the packet is
  well-formed, its headers still do not overlap, the new entry is at the requested index with
  the requested type and length, and the other headers keep their order, position and contents.
\<close>

theorem packet_add_header_fresh:
  assumes "packet_wf p" and "ranges_disjoint (headers p)"
    and "unat (scratch_len p) + unat len < 2 ^ 32"
    and "packet_add_header p idx type len = (True, p')"
  shows "packet_wf p' \<and> ranges_disjoint (headers p') \<and> buf p' = buf p \<and>
         (\<exists>h. headers p' = take (unat idx) (headers p) @ [h] @ drop (unat idx) (headers p)
            \<and> headers p' ! unat idx = h \<and> htype h = type \<and> hlen h = len)"
proof -
  note t = packet_add_header_True [OF assms(1,3,4)]
  have "packet_wf p'" using packet_wf_add [OF assms(1,3), of idx type] by (simp add: assms(4))
  moreover have "ranges_disjoint (headers p')"
    using ranges_disjoint_add [OF assms(1,3,2), of idx type] by (simp add: assms(4))
  moreover have "headers p' ! unat idx = \<lparr>htype = type, hstart = scratch_len p, hlen = len\<rparr>"
    using t(2,4) by (simp add: nth_append)
  ultimately show ?thesis using t(4) by simp
qed

text \<open>A received packet used by the instances below: an Ethernet header and a payload.\<close>

definition sample_packet :: Packet where
  "sample_packet = (zeroed_packet None 0)\<lparr>buf := replicate PACKET_BUF_LEN 7, plen := 100,
     headers := [\<lparr>htype = PROTO_ID_ETH, hstart = 1024, hlen = 14\<rparr>,
                 \<lparr>htype = PROTO_ID_PAYLOAD, hstart = 1038, hlen = 86\<rparr>]\<rparr>"

lemma sample_packet_wf: "packet_wf sample_packet" "ranges_disjoint (headers sample_packet)"
  by (simp_all add: packet_wf_def sample_packet_def zeroed_packet_def packet_consts header_ok_def
      hdr_range_def)

theorem packet_add_header_fresh_witness:
  "\<exists>p'. packet_add_header sample_packet 1 PROTO_ID_CVLAN 4 = (True, p') \<and> packet_wf p' \<and>
     ranges_disjoint (headers p') \<and> htype (headers p' ! 1) = PROTO_ID_CVLAN"
proof -
  obtain p' where p': "packet_add_header sample_packet 1 PROTO_ID_CVLAN 4 = (True, p')"
    by (simp add: packet_add_header_def scratch_alloc_def sample_packet_def zeroed_packet_def
        packet_consts)
  have "unat (scratch_len sample_packet) + unat (4 :: u32) < 2 ^ 32"
    by (simp add: sample_packet_def zeroed_packet_def)
  from packet_add_header_fresh [OF sample_packet_wf this p'] p' show ?thesis by auto
qed

section \<open>Serialization\<close>

text \<open>The bytes a packet puts on the wire: those of its headers, in the order of the list.\<close>

definition header_bytes :: "u8 list \<Rightarrow> PacketHeader \<Rightarrow> u8 list" where
  "header_bytes b h = take (unat (hlen h)) (drop (unat (hstart h)) b)"

definition packet_bytes :: "Packet \<Rightarrow> u8 list" where
  "packet_bytes p = concat (map (header_bytes (buf p)) (headers p))"

definition total_len :: "PacketHeader list \<Rightarrow> nat" where
  "total_len hs = (\<Sum>h\<leftarrow>hs. unat (hlen h))"

lemma total_len_simps [simp]:
  "total_len [] = 0" "total_len (h # hs) = unat (hlen h) + total_len hs"
  "total_len (hs @ gs) = total_len hs + total_len gs"
  by (simp_all add: total_len_def)

lemma headers_length_total:
  "unat acc + total_len hs < 2 ^ 32 \<Longrightarrow> unat (headers_length hs acc) = unat acc + total_len hs"
  by (induction hs arbitrary: acc) (simp_all add: unat_plus_le)

lemma total_len_bound:
  "(\<And>h. h \<in> set hs \<Longrightarrow> unat (hlen h) \<le> m) \<Longrightarrow> total_len hs \<le> length hs * m"
  by (induction hs) (auto intro: add_mono)

lemma packet_total_bound:
  assumes "packet_wf p"
  shows "total_len (headers p) \<le> 200000"
proof -
  have "total_len (headers p) \<le> header_count p * 10000"
    using packet_wfD(5) [OF assms] by (intro total_len_bound) fastforce
  with packet_wfD(4) [OF assms] show ?thesis by linarith
qed

lemma packet_length_total: "packet_wf p \<Longrightarrow> unat (packet_length p) = total_len (headers p)"
  using packet_total_bound [of p] headers_length_total [of 0 "headers p"]
  by (simp add: packet_length_def)

lemma length_packet_bytes:
  assumes "packet_wf p"
  shows "length (packet_bytes p) = total_len (headers p)"
proof -
  have "length (concat (map (header_bytes (buf p)) hs)) = total_len hs" if "set hs \<subseteq> set (headers p)" for hs
    using that
  proof (induction hs)
    case (Cons h hs)
    with packet_wfD(1) [OF assms] packet_wfD(5) [OF assms, of h] show ?case
      by (simp add: header_bytes_def)
  qed simp
  thus ?thesis by (simp add: packet_bytes_def)
qed

lemma serialize_loop_correct:
  assumes "\<And>h. h \<in> set hs \<Longrightarrow> unat (hstart h) + unat (hlen h) \<le> length src"
    and "1024 + unat dstlen + total_len hs \<le> length dst" and "length dst < 2 ^ 32"
  shows "serialize_loop src hs dst dstlen =
           Some (take (1024 + unat dstlen) dst @ concat (map (header_bytes src) hs)
                   @ drop (1024 + unat dstlen + total_len hs) dst,
                 dstlen + of_nat (total_len hs))"
  using assms
proof (induction hs arbitrary: dst dstlen)
  case (Cons h hs)
  let ?b = "header_bytes src h"
  let ?dst = "take (1024 + unat dstlen) dst @ ?b @ drop (1024 + unat dstlen + unat (hlen h)) dst"
  have lb: "length ?b = unat (hlen h)" using Cons.prems(1) [of h] by (simp add: header_bytes_def)
  have rd: "mem_read src (unat (hstart h)) (unat (hlen h)) = Some ?b"
    using Cons.prems(1) [of h] by (simp add: mem_read_def header_bytes_def)
  have wr: "mem_write dst (unat PACKET_START_OFFSET + unat dstlen) ?b = Some ?dst"
    using Cons.prems(2) lb by (simp add: mem_write_def packet_consts)
  have un: "unat (dstlen + hlen h) = unat dstlen + unat (hlen h)"
    using Cons.prems(2,3) by (intro unat_plus_le) simp
  have len: "length ?dst = length dst" using Cons.prems(2) lb by simp
  have "serialize_loop src hs ?dst (dstlen + hlen h) =
          Some (take (1024 + unat (dstlen + hlen h)) ?dst @ concat (map (header_bytes src) hs)
                  @ drop (1024 + unat (dstlen + hlen h) + total_len hs) ?dst,
                dstlen + hlen h + of_nat (total_len hs))"
    using Cons.prems len un by (intro Cons.IH) auto
  with rd wr un lb Cons.prems(2) show ?case
    by (simp add: ac_simps)
qed simp

text \<open>
  C14: Serialization puts the headers' bytes on the wire in order.  For a well-formed packet of at
  most 8976 bytes, \<open>serialize_packet\<close> stays inside both buffers and returns a well-formed packet
  with an empty header list whose received bytes are exactly the concatenation of the headers'
  bytes; its length is \<open>packet_length\<close> of the original, and it has a fresh id and the original's
  original id.
\<close>

theorem serialize_packet_bytes:
  assumes wf: "packet_wf p" and fits: "unat (packet_length p) \<le> 8976"
  shows "\<exists>q s'. serialize_packet p s = Some (q, s') \<and> packet_wf q \<and> headers q = []
           \<and> take (unat (plen q)) (drop (unat (pstart q)) (buf q)) = packet_bytes p
           \<and> plen q = packet_length p \<and> pkt_id q = next_packet_id s
           \<and> original_id q = original_id p \<and> next_packet_id s' = next_packet_id s + 1"
proof -
  have tot: "total_len (headers p) \<le> 8976" using fits packet_length_total [OF wf] by simp
  have loop: "serialize_loop (buf p) (headers p) (replicate PACKET_BUF_LEN 0) 0 =
      Some (replicate 1024 0 @ packet_bytes p @ replicate (8976 - total_len (headers p)) 0,
            of_nat (total_len (headers p)))"
    using serialize_loop_correct [of "headers p" "buf p" 0 "replicate PACKET_BUF_LEN 0"]
      packet_wfD(1,5) [OF wf] tot
    by (simp add: packet_consts packet_bytes_def)
  have pl: "of_nat (total_len (headers p)) = packet_length p"
    by (simp add: packet_length_total [OF wf, symmetric])
  have "unat (packet_length p) = total_len (headers p)" by (rule packet_length_total [OF wf])
  thus ?thesis
    using tot length_packet_bytes [OF wf] unfolding serialize_packet_def loop pl
    by (simp add: packet_wf_def packet_consts)
qed

theorem serialize_packet_bytes_witness:
  "\<exists>q s'. serialize_packet sample_packet \<lparr>packet_count = 1, next_packet_id = 5, dummybuf = []\<rparr> = Some (q, s')
     \<and> pkt_id q = 5 \<and> packet_wf q \<and> plen q = 100"
proof -
  have len: "packet_length sample_packet = 100"
    by (simp add: packet_length_def sample_packet_def zeroed_packet_def)
  have "unat (packet_length sample_packet) \<le> 8976" by (simp add: len)
  from serialize_packet_bytes [OF sample_packet_wf(1) this] len show ?thesis by fastforce
qed

text \<open>
  The bound is needed: a packet that fills the receive space and gets one more header on the
  scratch space is well-formed, but its serialization writes behind the end of the new buffer.
\<close>

definition full_packet :: Packet where
  "full_packet = (zeroed_packet None 0)\<lparr>buf := replicate PACKET_BUF_LEN 7, plen := 8976,
     headers := [\<lparr>htype = PROTO_ID_PAYLOAD, hstart = 1024, hlen = 8976\<rparr>]\<rparr>"

lemma serialize_packet_overflow:
  "packet_wf full_packet"
  "packet_add_header full_packet 0 PROTO_ID_ETH 14 = (True, p) \<Longrightarrow> packet_wf p \<and> serialize_packet p s = None"
proof -
  show wf: "packet_wf full_packet"
    by (simp add: packet_wf_def full_packet_def zeroed_packet_def packet_consts header_ok_def)
  assume a: "packet_add_header full_packet 0 PROTO_ID_ETH 14 = (True, p)"
  have nowrap: "unat (scratch_len full_packet) + unat (14 :: u32) < 2 ^ 32"
    by (simp add: full_packet_def zeroed_packet_def)
  have "packet_wf p" using packet_wf_add [OF wf nowrap, of 0 PROTO_ID_ETH] a by simp
  moreover have "serialize_packet p s = None"
    using a
    by (auto simp: packet_add_header_def scratch_alloc_def full_packet_def zeroed_packet_def
        packet_consts serialize_packet_def mem_read_def mem_write_def)
  ultimately show "packet_wf p \<and> serialize_packet p s = None" by simp
qed

section \<open>Copies\<close>

text \<open>A copy shows the same bytes in every header, and is well-formed again.\<close>

lemma copy_packet_same:
  assumes wf: "packet_wf p" and mem: "length mem = PACKET_BUF_LEN"
  shows "\<exists>q s'. copy_packet mem p s = Some (q, s') \<and> packet_wf q \<and> headers q = headers p
           \<and> packet_bytes q = packet_bytes p \<and> pkt_id q = next_packet_id s
           \<and> original_id q = original_id p \<and> packet_count s' = packet_count s + 1"
proof -
  have un: "unat (pstart p + plen p) = unat (pstart p) + unat (plen p)"
    using packet_wfD(2) [OF wf] by (intro unat_plus_le) simp
  let ?n = "unat (pstart p) + unat (plen p)"
  let ?b = "take ?n (buf p) @ drop ?n mem"
  have cp: "copy_packet mem p s =
     Some (p\<lparr>pkt_id := next_packet_id s, buf := ?b, dummy := False\<rparr>,
           s\<lparr>next_packet_id := next_packet_id s + 1, packet_count := packet_count s + 1\<rparr>)"
    using packet_wfD(1,2) [OF wf] mem
    by (simp add: copy_packet_def mem_read_def mem_write_def un packet_consts)
  have hb: "header_bytes ?b h = header_bytes (buf p) h" if "h \<in> set (headers p)" for h
  proof (cases "hlen h = 0")
    case False
    with packet_wfD(6) [OF wf that] packet_wfD(3) [OF wf]
    have "unat (hstart h) + unat (hlen h) \<le> ?n" by (auto simp: header_ok_def)
    with packet_wfD(1,2) [OF wf] show ?thesis
      by (simp add: header_bytes_def) (simp add: drop_take min_def)
  qed (simp add: header_bytes_def)
  have pb: "concat (map (header_bytes ?b) (headers p)) = packet_bytes p"
    unfolding packet_bytes_def by (intro arg_cong [of _ _ concat] map_cong refl hb)
  have len: "length ?b = PACKET_BUF_LEN"
    using packet_wfD(1,2) [OF wf] mem by (simp add: packet_consts)
  let ?q = "p\<lparr>pkt_id := next_packet_id s, buf := ?b, dummy := False\<rparr>"
  have "header_ok ?q = header_ok p" by (simp add: fun_eq_iff header_ok_def)
  hence "packet_wf ?q" using wf len by (simp add: packet_wf_def)
  moreover have "packet_bytes ?q = packet_bytes p" using pb by (simp add: packet_bytes_def [of ?q])
  ultimately show ?thesis by (simp add: cp)
qed

section \<open>Linear packets\<close>

text \<open>
  The check compares neighbours from the second header on, so it says nothing about the gap
  between the first two headers, and it needs at least one header.
\<close>

lemma linear_loop_correct:
  assumes "bound < length hs"
  shows "linear_loop hs bound i =
           Some (\<forall>k. i \<le> k \<and> k < bound \<longrightarrow> hstart (hs ! (k + 1)) = hstart (hs ! k) + hlen (hs ! k))"
  using assms
proof (induction hs bound i rule: linear_loop.induct)
  case (1 hs bound i)
  show ?case
  proof (cases "i < bound")
    case True
    have split: "(\<forall>k. i \<le> k \<and> k < bound \<longrightarrow> P k) \<longleftrightarrow> P i \<and> (\<forall>k. i + 1 \<le> k \<and> k < bound \<longrightarrow> P k)" for P
    proof -
      have "(i \<le> k) = (k = i \<or> i + 1 \<le> k)" for k by arith
      thus ?thesis using True by metis
    qed
    show ?thesis
      using 1 True by (subst linear_loop.simps) (auto simp: split)
  next
    case False
    thus ?thesis by (subst linear_loop.simps) auto
  qed
qed

lemma packet_is_linear_correct:
  assumes "headers p \<noteq> []" and "header_count p \<le> PACKET_MAX_HEADER_NUM"
  shows "packet_is_linear p = Some (\<forall>k. 1 \<le> k \<and> k < header_count p - 1 \<longrightarrow>
           hstart (headers p ! (k + 1)) = hstart (headers p ! k) + hlen (headers p ! k))"
proof -
  obtain n where n: "header_count p = Suc n" "n < 20"
    using assms by (cases "header_count p") (auto simp: packet_consts)
  have "unat (of_nat n :: u32) = n" using n(2) by (simp add: unat_of_nat)
  hence "unat (of_nat (header_count p) - 1 :: u32) = header_count p - 1" by (simp add: n(1))
  thus ?thesis
    using linear_loop_correct [of "header_count p - 1" "headers p" 1] assms(1)
    by (simp add: packet_is_linear_def)
qed

lemma packet_is_linear_no_headers: "headers p = [] \<Longrightarrow> packet_is_linear p = None"
  by (simp add: packet_is_linear_def linear_loop.simps aget_def unsigned_minus_1_eq_mask mask_eq_exp_minus_1)

definition gap_packet :: Packet where
  "gap_packet = (zeroed_packet None 0)\<lparr>buf := replicate PACKET_BUF_LEN 7, plen := 100,
     headers := [\<lparr>htype = PROTO_ID_ETH, hstart = 0, hlen = 14\<rparr>,
                 \<lparr>htype = PROTO_ID_PAYLOAD, hstart = 1038, hlen = 86\<rparr>]\<rparr>"

lemma packet_is_linear_ignores_first_gap:
  "packet_is_linear gap_packet = Some True"
  "hstart (headers gap_packet ! 1) \<noteq> hstart (headers gap_packet ! 0) + hlen (headers gap_packet ! 0)"
  by (simp_all add: packet_is_linear_def linear_loop.simps gap_packet_def)

section \<open>The packet log stays a string\<close>

definition log_wf :: "string \<Rightarrow> bool" where
  "log_wf s \<longleftrightarrow> length s = PACKET_LOG_BUF_SIZE \<and> s ! (PACKET_LOG_BUF_SIZE - 1) = CHR 0x00"

text \<open>Appending with an ellipsis when the text does not fit.\<close>

definition log_append :: "string \<Rightarrow> string \<Rightarrow> string" where
  "log_append s t = (if length (s @ t) < 255 then s @ t else take 252 (s @ t) @ ''...'')"

lemma cstr_append:
  "CHR 0x00 \<notin> set s \<Longrightarrow> cstr (s @ CHR 0x00 # r) = s"
  by (induction s) (auto simp: cstr_def)

lemma cstr_no_nul: "CHR 0x00 \<notin> set (cstr s)"
  by (auto simp: cstr_def dest: set_takeWhileD)

lemma length_cstr_le: "i < length s \<Longrightarrow> s ! i = CHR 0x00 \<Longrightarrow> length (cstr s) \<le> i"
  unfolding cstr_def by (metis (mono_tags, lifting) linorder_not_less nth_mem set_takeWhileD takeWhile_nth)

lemma take_cstr: "take (length (cstr s)) s = cstr s"
  unfolding cstr_def by (metis takeWhile_eq_take)

lemma strncpy_tail:
  assumes "log_wf b" and "n \<le> 254"
  shows "strncpy b n src (255 - n) =
           Some (take n b @ take (255 - n) (src @ replicate (255 - n) (CHR 0x00)) @ [CHR 0x00])"
proof -
  have len: "length b = 256" and nul: "b ! 255 = CHR 0x00"
    using assms(1) by (simp_all add: log_wf_def PACKET_LOG_BUF_SIZE_def)
  have "drop 255 b = [CHR 0x00]"
    using Cons_nth_drop_Suc [of 255 b] len nul by simp
  moreover have "length (take (255 - n) (src @ replicate (255 - n) (CHR 0x00))) = 255 - n"
    unfolding length_take length_append length_replicate by (rule min_absorb2) simp
  ultimately show ?thesis using len assms(2) unfolding strncpy_def mem_write_def by simp
qed

lemma overwrite_tail:
  "length b = 255 \<Longrightarrow> mem_write (b @ [c]) 252 (''...'' @ [CHR 0x00]) =
     Some (take 252 (b @ [c]) @ ''...'' @ [CHR 0x00])"
  by (simp add: mem_write_def)

text \<open>The buffer after a call that does not return early.\<close>

lemma packet_logcat_result:
  assumes wf: "log_wf (logbuf p)" and free: "logbuf p ! 254 = CHR 0x00"
  defines "s \<equiv> cstr (logbuf p)"
  shows "packet_logcat p msg = Some (p\<lparr>logbuf :=
           (if length (s @ msg) < 255 then s @ msg @ replicate (256 - length (s @ msg)) (CHR 0x00)
            else take 252 (s @ msg) @ ''...'' @ [CHR 0x00])\<rparr>)"
proof -
  let ?m = "take (255 - length s) (take 254 msg @ replicate (255 - length s) (CHR 0x00))"
  have L: "length (logbuf p) = 256" using wf by (simp add: log_wf_def PACKET_LOG_BUF_SIZE_def)
  have sl: "length s \<le> 254" using length_cstr_le [of 254 "logbuf p"] free L by (simp add: s_def)
  have wr: "strncpy (logbuf p) (length s) (take 254 msg) (255 - length s) = Some (s @ ?m @ [CHR 0x00])"
    using strncpy_tail [OF wf sl] take_cstr [of "logbuf p"] by (simp add: s_def)
  show ?thesis
  proof (cases "length (s @ msg) < 255")
    case True
    have "?m @ [CHR 0x00] = msg @ replicate (256 - length (s @ msg)) (CHR 0x00)"
    proof -
      have "256 - length (s @ msg) = Suc (255 - length (s @ msg))" using True by simp
      moreover have "?m = msg @ replicate (255 - length (s @ msg)) (CHR 0x00)" using True by simp
      ultimately show ?thesis by (simp add: replicate_append_same)
    qed
    with True L free wr show ?thesis
      by (simp add: packet_logcat_def PACKET_LOG_BUF_SIZE_def Let_def add.commute flip: s_def)
  next
    case False
    have sm: "take 252 (s @ ?m) = take 252 (s @ msg)"
      using False sl unfolding take_append take_take by (auto simp: min_def)
    have "mem_write (s @ ?m @ [CHR 0x00]) 252 (''...'' @ [CHR 0x00]) =
            Some (take 252 (s @ msg) @ ''...'' @ [CHR 0x00])"
    proof -
      have "length ?m = 255 - length s"
        unfolding length_take length_append length_replicate by (rule min_absorb2) simp
      hence len: "length (s @ ?m) = 255" using sl by (simp del: length_take)
      hence "take 252 ((s @ ?m) @ [CHR 0x00]) = take 252 (s @ ?m)" by (subst take_append) simp
      with sm overwrite_tail [OF len, of "CHR 0x00"] show ?thesis by (simp del: take_append)
    qed
    with False L free wr show ?thesis
      by (simp add: packet_logcat_def PACKET_LOG_BUF_SIZE_def Let_def add.commute flip: s_def)
  qed
qed

text \<open>
  C30: The packet log is memory safe and stays a terminated string: on a well-formed log buffer
  \<open>_packet_logcat\<close> writes inside the buffer; when the log is not yet full it leaves the old text
  followed by the message, cut to 252 characters and an ellipsis when it does not fit, and a log
  that is full is left alone.
\<close>

theorem packet_logcat_appends:
  assumes wf: "log_wf (logbuf p)" and nonul: "CHR 0x00 \<notin> set msg"
  shows "\<exists>p'. packet_logcat p msg = Some p' \<and> log_wf (logbuf p') \<and>
           cstr (logbuf p') = (if logbuf p ! 254 = CHR 0x00 then log_append (cstr (logbuf p)) msg
                               else cstr (logbuf p))"
proof (cases "logbuf p ! 254 = CHR 0x00")
  case True
  let ?t = "cstr (logbuf p) @ msg"
  have nt: "CHR 0x00 \<notin> set ?t" using nonul by (simp add: cstr_no_nul)
  show ?thesis
  proof (cases "length ?t < 255")
    case small: True
    let ?z = "replicate (256 - length ?t) (CHR 0x00)"
    have "?z = CHR 0x00 # replicate (255 - length ?t) (CHR 0x00)"
      using small by (simp flip: replicate_Suc)
    hence c: "cstr (?t @ ?z) = ?t" using cstr_append [OF nt] by simp
    have "(?t @ ?z) ! 255 = CHR 0x00" using small by (subst nth_append) auto
    moreover have "length (?t @ ?z) = 256" using small by simp
    ultimately have "log_wf (?t @ ?z)" unfolding log_wf_def PACKET_LOG_BUF_SIZE_def by simp
    with c packet_logcat_result [OF wf True, of msg] small True show ?thesis
      by (simp add: log_append_def)
  next
    case big: False
    have "CHR 0x00 \<notin> set (take 252 ?t @ ''...'')" using nt by (auto dest: in_set_takeD)
    from cstr_append [OF this, of "[]"]
    have c: "cstr (take 252 ?t @ ''...'' @ [CHR 0x00]) = take 252 ?t @ ''...''" by simp
    have "length (take 252 ?t) = 252" using big unfolding length_take by simp
    hence "log_wf (take 252 ?t @ ''...'' @ [CHR 0x00])"
      unfolding log_wf_def PACKET_LOG_BUF_SIZE_def by (simp add: nth_append del: take_append)
    with c packet_logcat_result [OF wf True, of msg] big True show ?thesis
      by (simp add: log_append_def del: take_append)
  qed
next
  case False
  with wf show ?thesis by (auto simp: packet_logcat_def log_wf_def PACKET_LOG_BUF_SIZE_def)
qed

theorem packet_logcat_appends_witness:
  "\<exists>p'. packet_logcat sample_packet ''seqgen'' = Some p' \<and> cstr (logbuf p') = ''seqgen''"
proof -
  have z: "logbuf sample_packet = replicate 256 (CHR 0x00)"
    by (simp add: sample_packet_def zeroed_packet_def PACKET_LOG_BUF_SIZE_def)
  have c: "cstr (logbuf sample_packet) = []" unfolding z by (simp add: cstr_def)
  have "log_wf (logbuf sample_packet)" unfolding z by (simp add: log_wf_def PACKET_LOG_BUF_SIZE_def)
  from packet_logcat_appends [OF this, of "''seqgen''"] c show ?thesis
    by (auto simp: z log_append_def)
qed

end
