(* ===== verification/Frer.thy ===== *)
theory Frer
  imports Prelude
begin

text \<open>
  The constants of the frame replication and elimination code (\<^verbatim>\<open>src/seq_recov.h\<close>,
  \<^verbatim>\<open>src/seq_gen.h\<close>) and the circular distance of two 16-bit sequence numbers
  (\<open>calc_delta\<close> of \<^verbatim>\<open>src/seq_recov.c\<close>), with the fact the window arguments rest on:
  on sequence numbers that are at most half the space apart it is the exact difference.
\<close>

definition FRER_RCVY_SEQ_SPACE :: int where "FRER_RCVY_SEQ_SPACE = 65536"
definition FRER_TICKS_PER_SEC :: u32 where "FRER_TICKS_PER_SEC = 1000"
definition FRER_TTAG_FLAG :: u32 where "FRER_TTAG_FLAG = 0x08000000"
definition FRER_RESET_FLAG :: u32 where "FRER_RESET_FLAG = 0x04000000"
definition FRER_INIT_FLAG :: u32 where "FRER_INIT_FLAG = 0x02000000"
definition FRER_SEQ_GEN_RESET_FLAG_COUNT :: u32 where "FRER_SEQ_GEN_RESET_FLAG_COUNT = 3"

lemmas frer_consts = FRER_RCVY_SEQ_SPACE_def FRER_TICKS_PER_SEC_def FRER_TTAG_FLAG_def
  FRER_RESET_FLAG_def FRER_INIT_FLAG_def FRER_SEQ_GEN_RESET_FLAG_COUNT_def

definition calc_delta :: "int \<Rightarrow> int \<Rightarrow> int" where
  "calc_delta seq1 seq2 =
     (let delta = (seq1 - seq2) AND (FRER_RCVY_SEQ_SPACE - 1)
      in if delta AND (FRER_RCVY_SEQ_SPACE div 2) \<noteq> 0 then delta - FRER_RCVY_SEQ_SPACE else delta)"

lemma and_32768:
  assumes "0 \<le> x" "x < 65536"
  shows "((x :: int) AND 32768 = 0) = (x < 32768)"
proof -
  have "(x AND 32768 = 0) = (\<not> bit x 15)"
    using and_exp_eq_0_iff_not_bit [of x 15] by simp
  also have "\<dots> = even (x div 2 ^ 15)" by (simp add: bit_iff_odd)
  also have "\<dots> = (x < 32768)"
  proof (cases "x < 32768")
    case True
    with assms show ?thesis by (simp add: div_pos_pos_trivial)
  next
    case False
    have "x div 32768 = 1" using False assms by (intro int_div_pos_eq [where r = "x - 32768"]) simp_all
    with False show ?thesis by simp
  qed
  finally show ?thesis .
qed

lemma calc_delta_eq:
  "calc_delta a b =
     (if (a - b) mod 65536 < 32768 then (a - b) mod 65536 else (a - b) mod 65536 - 65536)"
  using and_32768 [of "(a - b) mod 65536"]
  by (simp add: calc_delta_def FRER_RCVY_SEQ_SPACE_def and_65535)

lemma calc_delta_range: "- 32768 \<le> calc_delta a b" "calc_delta a b < 32768"
  using pos_mod_bound [of 65536 "a - b"] pos_mod_sign [of 65536 "a - b"]
  by (auto simp: calc_delta_eq)

lemma calc_delta_exact:
  assumes "- 32768 \<le> a - b" "a - b < 32768"
  shows "calc_delta (a mod 65536) (b mod 65536) = a - b"
proof -
  have m: "(a mod 65536 - b mod 65536) mod 65536 = (a - b) mod 65536" by (simp add: mod_diff_eq)
  show ?thesis
  proof (cases "0 \<le> a - b")
    case True
    with assms show ?thesis unfolding calc_delta_eq m by simp
  next
    case False
    have "(a - b) mod 65536 = a - b + 65536"
      using False assms mod_pos_pos_trivial [of "a - b + 65536" 65536] by simp
    with False assms show ?thesis unfolding calc_delta_eq m by simp
  qed
qed

text \<open>The 16-bit sequence number that stands for the \<open>n\<close>-th packet of a stream.\<close>

definition seq_of :: "int \<Rightarrow> u32" where
  "seq_of n = word_of_int (n mod 65536)"

lemma uint_seq_of: "uint (seq_of n) = n mod 65536"
proof -
  have "0 \<le> n mod 65536" "n mod 65536 < 65536" by simp_all
  thus ?thesis by (simp add: seq_of_def uint_word_of_int)
qed

lemma and_0xffff_less: "uint ((x :: u32) AND 0xffff) < 65536"
proof -
  have "uint (x AND 0xffff) = uint x AND 65535" by (simp add: uint_and)
  also have "\<dots> < 65536" by (simp add: and_65535)
  finally show ?thesis .
qed

lemma seq_of_and: "seq_of n AND 0xffff = seq_of n"
proof -
  have "uint (seq_of n AND 0xffff) = uint (seq_of n)"
    by (simp add: uint_and and_65535 uint_seq_of)
  thus ?thesis by (simp only: word_uint_eq_iff)
qed

text \<open>A number below half the word reads the same as signed and as unsigned.\<close>

lemma sint_eq_uint_small:
  assumes "uint (x :: u32) < 2147483648"
  shows "sint x = uint x"
  using assms by (simp add: signed_take_bit_eq_if_positive sint_uint not_less bit_iff_odd take_bit_eq_mod)

lemma sint_seq_of: "sint (seq_of n) = n mod 65536"
  using sint_eq_uint_small [of "seq_of n"] pos_mod_bound [of 65536 n] by (simp add: uint_seq_of)

lemma calc_delta_seq_of:
  assumes "- 32768 \<le> a - b" "a - b < 32768"
  shows "calc_delta (sint (seq_of a)) (sint (seq_of b)) = a - b"
  using calc_delta_exact [OF assms] by (simp add: sint_seq_of)

end
