(* ===== verification/Seq_Gen.thy ===== *)
theory Seq_Gen
  imports Frer Packet
begin

text \<open>
  The sequence generator (\<^verbatim>\<open>src/seq_gen.c\<close>): it numbers the packets of a stream modulo
  \<open>2\<^sup>1\<^sup>6\<close>, marks the first packets after a reset with the reset flag, and can start in a separate
  initial sequence space marked with the init flag.  The mutex makes each operation atomic; the
  theorems describe the packets of a run of calls after creation or reset.
\<close>

section \<open>State and operations\<close>

record SequenceGenerator =
  gen_use_reset_flag :: bool
  gen_use_init_flag :: bool
  init_seq_start :: u32
  gen_seq_num :: u32
  init_gen_seq_num :: u32
  gen_reset_flag :: bool
  use_init_seq_space :: bool
  resets :: u32

definition new_seq_gen :: "bool \<Rightarrow> bool \<Rightarrow> u32 \<Rightarrow> SequenceGenerator" where
  "new_seq_gen use_reset use_init start =
     \<lparr>gen_use_reset_flag = use_reset, gen_use_init_flag = use_init, init_seq_start = start,
      gen_seq_num = 0, init_gen_seq_num = start, gen_reset_flag = use_reset,
      use_init_seq_space = use_init, resets = 0\<rparr>"

definition sequence_generation_reset :: "SequenceGenerator \<Rightarrow> SequenceGenerator" where
  "sequence_generation_reset gen =
     gen\<lparr>gen_reset_flag := gen_use_reset_flag gen, use_init_seq_space := gen_use_init_flag gen,
         gen_seq_num := 0, init_gen_seq_num := init_seq_start gen, resets := resets gen + 1\<rparr>"

definition flag_bits :: "SequenceGenerator \<Rightarrow> u32" where
  "flag_bits gen = (FRER_RESET_FLAG * of_bool (gen_reset_flag gen))
                     OR (FRER_INIT_FLAG * of_bool (use_init_seq_space gen))"

definition sequence_generation :: "SequenceGenerator \<Rightarrow> u32 \<times> SequenceGenerator" where
  "sequence_generation gen =
     (if use_init_seq_space gen then
        let seq = init_gen_seq_num gen AND 0xffff;
            gen = (if init_gen_seq_num gen > 0x10000 - 1
                   then gen\<lparr>gen_seq_num := 1, use_init_seq_space := False,
                            init_gen_seq_num := init_seq_start gen\<rparr>
                   else let gen = gen\<lparr>init_gen_seq_num := init_gen_seq_num gen + 1\<rparr>
                        in if init_gen_seq_num gen > init_seq_start gen + FRER_SEQ_GEN_RESET_FLAG_COUNT
                           then gen\<lparr>gen_reset_flag := False\<rparr> else gen)
        in (seq OR flag_bits gen, gen)
      else
        let seq = gen_seq_num gen AND 0xffff;
            gen = (if gen_seq_num gen \<ge> 0x10000 - 1
                   then gen\<lparr>gen_seq_num := 0\<rparr>
                   else let gen = gen\<lparr>gen_seq_num := gen_seq_num gen + 1\<rparr>
                        in if gen_seq_num gen > FRER_SEQ_GEN_RESET_FLAG_COUNT
                           then gen\<lparr>gen_reset_flag := False\<rparr> else gen)
        in (seq OR flag_bits gen, gen))"

definition seq_generator :: "SequenceGenerator \<Rightarrow> Packet \<Rightarrow> ActionResult \<times> SequenceGenerator \<times> Packet" where
  "seq_generator gen p =
     (let (new_seq, gen') = sequence_generation gen
      in (ACR_CONTINUE, gen', p\<lparr>sequence := htonl new_seq\<rparr>))"

section \<open>Runs\<close>

text \<open>The generator after \<open>n\<close> packets, and the number put on the packet that follows.\<close>

primrec gen_after :: "nat \<Rightarrow> SequenceGenerator \<Rightarrow> SequenceGenerator" where
  "gen_after 0 gen = gen"
| "gen_after (Suc n) gen = snd (sequence_generation (gen_after n gen))"

definition gen_packet :: "nat \<Rightarrow> SequenceGenerator \<Rightarrow> u32" where
  "gen_packet n gen = fst (sequence_generation (gen_after n gen))"

text \<open>A generator that was just created or reset.\<close>

definition gen_fresh :: "SequenceGenerator \<Rightarrow> bool" where
  "gen_fresh gen \<longleftrightarrow> gen_seq_num gen = 0 \<and> init_gen_seq_num gen = init_seq_start gen
     \<and> gen_reset_flag gen = gen_use_reset_flag gen \<and> use_init_seq_space gen = gen_use_init_flag gen"

lemma gen_fresh_new: "gen_fresh (new_seq_gen r i s)"
  by (simp add: gen_fresh_def new_seq_gen_def)

lemma gen_fresh_reset: "gen_fresh (sequence_generation_reset gen)"
  by (simp add: gen_fresh_def sequence_generation_reset_def)

text \<open>The first number of the stream.\<close>

definition gen_start :: "SequenceGenerator \<Rightarrow> nat" where
  "gen_start gen = (if gen_use_init_flag gen then unat (init_seq_start gen) else 0)"

lemma of_nat_and_0xffff: "(of_nat x :: u32) AND 0xffff = of_nat (x mod 65536)"
proof -
  have "(of_nat x :: u32) AND mask 16 = take_bit 16 (of_nat x)" by (simp add: take_bit_eq_mask)
  also have "\<dots> = of_nat (x mod 2 ^ 16)"
    unfolding take_bit_of_nat by (simp only: take_bit_eq_mod [of 16 x])
  finally show ?thesis by (simp add: mask_eq_exp_minus_1)
qed

lemma seq_of_nat: "seq_of (int x) = of_nat (x mod 65536)"
proof -
  have "int x mod 65536 = int (x mod 65536)" by (simp add: zmod_int)
  thus ?thesis unfolding seq_of_def by simp
qed

lemma of_nat_u32_less: "x < 2 ^ 32 \<Longrightarrow> y < 2 ^ 32 \<Longrightarrow> ((of_nat x :: u32) < of_nat y) = (x < y)"
  by (simp add: word_less_nat_alt unat_of_nat)

text \<open>
  The state after \<open>n\<close> packets: the current number is that of packet \<open>n\<close>, the reset flag lives for
  three packets, and the initial space ends with number 65535.
\<close>

definition gen_state :: "nat \<Rightarrow> SequenceGenerator \<Rightarrow> SequenceGenerator \<Rightarrow> bool" where
  "gen_state n gen0 gen \<longleftrightarrow>
     gen_use_reset_flag gen = gen_use_reset_flag gen0 \<and> gen_use_init_flag gen = gen_use_init_flag gen0
     \<and> init_seq_start gen = init_seq_start gen0
     \<and> gen_reset_flag gen = (gen_use_reset_flag gen0 \<and> n \<le> 3)
     \<and> use_init_seq_space gen = (gen_use_init_flag gen0 \<and> gen_start gen0 + n \<le> 65536)
     \<and> (if use_init_seq_space gen then init_gen_seq_num gen = of_nat (gen_start gen0 + n)
        else gen_seq_num gen = of_nat ((gen_start gen0 + n) mod 65536))"

definition gen_flags :: "nat \<Rightarrow> SequenceGenerator \<Rightarrow> u32" where
  "gen_flags n gen = (if gen_use_reset_flag gen \<and> n < 3 then FRER_RESET_FLAG else 0)
     OR (if gen_use_init_flag gen \<and> gen_start gen + n < 65536 then FRER_INIT_FLAG else 0)"

lemma gen_step_init:
  assumes st: "gen_state n gen0 gen" and init: "use_init_seq_space gen" and small: "gen_start gen0 \<le> 65532"
  shows "gen_state (Suc n) gen0 (snd (sequence_generation gen)) \<and>
         fst (sequence_generation gen) = seq_of (int (gen_start gen0 + n)) OR gen_flags n gen0"
proof -
  let ?x = "gen_start gen0 + n"
  have i0: "gen_use_init_flag gen0" and x: "?x \<le> 65536" and ig: "init_gen_seq_num gen = of_nat ?x"
    using st init by (auto simp: gen_state_def)
  have start: "init_seq_start gen = of_nat (gen_start gen0)"
    using st i0 by (simp add: gen_state_def gen_start_def)
  have sq: "init_gen_seq_num gen AND 0xffff = seq_of (int ?x)"
    unfolding ig of_nat_and_0xffff seq_of_nat ..
  have full: "(init_gen_seq_num gen > 0x10000 - 1) = (?x = 65536)"
    using of_nat_u32_less [of 65535 ?x] x by (auto simp: ig)
  have cnt: "(init_gen_seq_num gen + 1 > init_seq_start gen + FRER_SEQ_GEN_RESET_FLAG_COUNT) = (n > 2)"
    using of_nat_u32_less [of "gen_start gen0 + 3" "?x + 1"] x small
    by (auto simp: ig start frer_consts ac_simps)
  show ?thesis
  proof (cases "?x = 65536")
    case True
    with st init i0 full sq small show ?thesis
      by (auto simp: sequence_generation_def gen_state_def Let_def gen_flags_def flag_bits_def)
  next
    case False
    with x have "?x < 65536" by simp
    with st init i0 full sq cnt ig show ?thesis
      by (auto simp: sequence_generation_def gen_state_def Let_def gen_flags_def flag_bits_def ac_simps)
  qed
qed

lemma gen_step_regular:
  assumes st: "gen_state n gen0 gen" and reg: "\<not> use_init_seq_space gen" and small: "gen_start gen0 \<le> 65532"
  shows "gen_state (Suc n) gen0 (snd (sequence_generation gen)) \<and>
         fst (sequence_generation gen) = seq_of (int (gen_start gen0 + n)) OR gen_flags n gen0"
proof -
  let ?x = "gen_start gen0 + n"
  let ?m = "?x mod 65536"
  have g: "gen_seq_num gen = of_nat ?m" and past: "\<not> (gen_use_init_flag gen0 \<and> ?x \<le> 65536)"
    using st reg by (auto simp: gen_state_def)
  have m: "?m < 65536" by simp
  have sq: "gen_seq_num gen AND 0xffff = seq_of (int ?x)"
    unfolding g of_nat_and_0xffff seq_of_nat by simp
  have full: "(gen_seq_num gen \<ge> 0x10000 - 1) = (?m = 65535)"
    using of_nat_u32_less [of ?m 65535] m by (auto simp: g simp flip: not_less)
  have cnt: "(gen_seq_num gen + 1 > FRER_SEQ_GEN_RESET_FLAG_COUNT) = (?m + 1 > 3)"
    using of_nat_u32_less [of 3 "?m + 1"] m by (auto simp: g frer_consts ac_simps)
  have rf: "(if ?m \<noteq> 65535 \<and> ?m + 1 > 3 then False else gen_reset_flag gen)
              = (gen_use_reset_flag gen0 \<and> n < 3)"
  proof (cases "n < 65536 \<and> \<not> gen_use_init_flag gen0")
    case True
    hence "?m = n" by (simp add: gen_start_def)
    with st show ?thesis by (auto simp: gen_state_def)
  next
    case False
    with past small have "n > 3" by auto
    with st show ?thesis by (simp add: gen_state_def)
  qed
  have nx: "(?x + 1) mod 65536 = (if ?m = 65535 then 0 else ?m + 1)" by (simp add: mod_Suc)
  let ?g = "snd (sequence_generation gen)"
  have "gen_seq_num ?g = of_nat ((?x + 1) mod 65536)"
    using reg full g unfolding nx by (auto simp: sequence_generation_def Let_def)
  moreover have "gen_reset_flag ?g = (gen_use_reset_flag gen0 \<and> n < 3)"
    using reg full cnt unfolding rf [symmetric] by (auto simp: sequence_generation_def Let_def)
  moreover have "use_init_seq_space ?g = False" "gen_use_reset_flag ?g = gen_use_reset_flag gen"
    "gen_use_init_flag ?g = gen_use_init_flag gen" "init_seq_start ?g = init_seq_start gen"
    using reg by (auto simp: sequence_generation_def Let_def)
  moreover have "fst (sequence_generation gen) = seq_of (int ?x) OR flag_bits ?g"
    using reg unfolding sq [symmetric] by (auto simp: sequence_generation_def Let_def)
  ultimately show ?thesis
    using st past by (auto simp: gen_state_def gen_flags_def flag_bits_def)
qed

lemma gen_after_state:
  assumes "gen_fresh gen" and "gen_start gen \<le> 65532"
  shows "gen_state n gen (gen_after n gen)"
proof (induction n)
  case 0
  with assms show ?case by (auto simp: gen_state_def gen_fresh_def gen_start_def)
next
  case (Suc n)
  with assms(2) show ?case
    by (cases "use_init_seq_space (gen_after n gen)") (simp_all add: gen_step_init gen_step_regular)
qed

text \<open>
  C24: The numbers of a stream: the \<open>n\<close>-th packet after the creation or a reset of a generator
  carries the sequence number \<open>(start + n) mod 2\<^sup>1\<^sup>6\<close>, the reset flag exactly on the first
  three packets (if enabled), and the init flag exactly while the initial sequence space lasts.
\<close>

theorem gen_packet_number:
  assumes "gen_fresh gen" and "gen_start gen \<le> 65532"
  shows "gen_packet n gen = seq_of (int (gen_start gen + n)) OR gen_flags n gen"
  using gen_after_state [OF assms, of n] assms(2)
  by (cases "use_init_seq_space (gen_after n gen)")
    (simp_all add: gen_packet_def gen_step_init gen_step_regular)

theorem gen_packet_number_witness:
  "gen_packet 20 (new_seq_gen True True 65520) = seq_of 65540 OR gen_flags 20 (new_seq_gen True True 65520)
   \<and> gen_flags 20 (new_seq_gen True True 65520) = 0 \<and> gen_flags 2 (new_seq_gen True True 65520) = 0x06000000"
proof -
  have s: "gen_start (new_seq_gen True True 65520) = 65520"
    by (simp add: gen_start_def new_seq_gen_def)
  have "gen_packet 20 (new_seq_gen True True 65520)
          = seq_of (int (65520 + 20)) OR gen_flags 20 (new_seq_gen True True 65520)"
    using gen_packet_number [OF gen_fresh_new, of True True 65520 20] unfolding s by simp
  thus ?thesis by (simp add: gen_flags_def gen_start_def frer_consts new_seq_gen_def)
qed

text \<open>
  The bound on the start is sharp: an initial space of at most three numbers ends before the flag
  is cleared there, and the regular space counts three more packets, so that six packets carry the
  reset flag.
\<close>

lemma reset_flag_overrun:
  "list_all (\<lambda>n. gen_packet n (new_seq_gen True True 65533) AND FRER_RESET_FLAG \<noteq> 0) [0, 1, 2, 3, 4, 5]"
  "gen_packet 6 (new_seq_gen True True 65533) AND FRER_RESET_FLAG = 0"
  by code_simp+

text \<open>The packet leaves with the number in network byte order, and the generator always continues.\<close>

lemma seq_generator_packet:
  "seq_generator gen p = (ACR_CONTINUE, snd (sequence_generation gen),
     p\<lparr>sequence := htonl (fst (sequence_generation gen))\<rparr>)"
  by (simp add: seq_generator_def split: prod.split)

text \<open>Splitting a number into its flags and its 16-bit part.\<close>

lemma gen_flags_and_0xffff: "(seq_of k OR gen_flags n gen) AND 0xffff = seq_of k"
proof -
  have "gen_flags n gen AND 0xffff = 0"
    by (simp add: gen_flags_def frer_consts)
  thus ?thesis by (simp add: bit.conj_disj_distrib2 seq_of_and)
qed

text \<open>The 16-bit part of a generated number, whatever its flags.\<close>

lemma gen_packet_masked:
  assumes "gen_fresh gen" and "gen_start gen \<le> 65532"
  shows "gen_packet n gen AND 0xffff = seq_of (int (gen_start gen + n))"
  using gen_after_state [OF assms, of n] assms(2)
  by (cases "use_init_seq_space (gen_after n gen)")
    (simp_all add: gen_packet_def gen_step_init gen_step_regular gen_flags_and_0xffff)

end
