(* ===== verification/Seq_Recov.thy ===== *)
theory Seq_Recov
  imports Frer Packet Hashmap "HOL-Library.Signed_Division"
begin

text \<open>
  Sequence recovery (\<^verbatim>\<open>src/seq_recov.c\<close>): the elimination of duplicates by the vector,
  seamless vector and match algorithms, the reset timer, latent error detection and diagnostics,
  the mask state of the recovered paths, and the per-session recoveries of OAM packets.

  The mutex makes each operation atomic, and the reset thread is one operation per wake-up.
  The signed counters are mathematical integers (their overflow is undefined in C); accesses to
  the history arrays are checked.  Log output is left out; notifications, alerts and calls into
  the OAM module are the returned events.
\<close>

section \<open>State\<close>

datatype SequenceRecoveryAlgorithm = RCVY_Match | RCVY_Vector | RCVY_SeamlessVector

record RecoveryDiagnosticConf =
  admin_latent_error_paths :: int
  latent_error_period :: int
  latent_reset_period :: int
  latent_error_difference :: int
  outage_threshold :: int

record SequenceRecovery =
  algorithm :: SequenceRecoveryAlgorithm
  diag :: RecoveryDiagnosticConf
  use_reset_flag :: bool
  use_init_flag :: bool
  individual_recovery :: bool
  history_length :: int
  reset_msec :: u32
  recv_seq :: u32
  init_recv_seq :: u32
  cur_base_difference :: int
  history :: "u8 list"
  init_history :: "u8 list"
  take_any :: bool
  init_take_any :: bool
  lost_packets :: int
  out_of_order_packets :: int
  passed_packets :: int
  passed_packets_last :: int
  rogue_packets :: int
  rogue_packets_last :: int
  discarded_packets :: int
  discarded_packets_last :: int
  remaining_ticks :: int
  seq_recovery_resets :: int
  latent_error_paths :: int
  latent_errors :: int
  latent_reset_counter :: int
  latent_error_counter :: int
  latent_error_resets :: int
  consecutive_loss :: int
  consecutive_loss_max :: int
  skip_loss_after_reset_guard :: int
  oam_session_id :: "string option"
  preAutoMIP :: "bool hashmap option"
  postAutoMIP :: "string option"

datatype rcvy_event =
    EV_RECOVERY_RESET
  | EV_MORE_PACKETS int
  | EV_PACKET_ABSENT
  | EV_DISFUNCTIONING int
  | EV_DISFUNCTIONING_ABSENT int
  | EV_OUTOFWINDOW int
  | EV_PACKET_LOSS int int
  | EV_MASKED string
  | EV_UNMASKED string
  | EV_START_MASK_SESSION "string option"
  | EV_STOP_MASK_SESSION "string option"

section \<open>The history vector\<close>

definition reset_ticks :: "SequenceRecovery \<Rightarrow> SequenceRecovery" where
  "reset_ticks rec = rec\<lparr>remaining_ticks := sint ((reset_msec rec * FRER_TICKS_PER_SEC + 999) div 1000)\<rparr>"

text \<open>The copy loop runs from the last index down to 1.\<close>

fun shift_copy :: "u8 list \<Rightarrow> nat \<Rightarrow> u8 list option" where
  "shift_copy hist 0 = Some hist"
| "shift_copy hist (Suc i) = do { v \<leftarrow> aget hist i; hist' \<leftarrow> aset hist (Suc i) v; shift_copy hist' i }"

definition shift_seq_history ::
  "SequenceRecovery \<Rightarrow> u8 list \<Rightarrow> u8 \<Rightarrow> (SequenceRecovery \<times> u8 list) option" where
  "shift_seq_history rec hist new_zero =
     do { oldest \<leftarrow> iget hist (history_length rec - 1);
          let rec' = (if oldest = 0 then
                        (if skip_loss_after_reset_guard rec = 0 then
                           (let c = consecutive_loss rec + 1 in
                            rec\<lparr>lost_packets := lost_packets rec + 1, consecutive_loss := c,
                                consecutive_loss_max := (if c > consecutive_loss_max rec then c
                                                         else consecutive_loss_max rec)\<rparr>)
                         else rec\<lparr>skip_loss_after_reset_guard := skip_loss_after_reset_guard rec - 1\<rparr>)
                      else rec\<lparr>consecutive_loss := 0\<rparr>);
          hist' \<leftarrow> shift_copy hist (nat (history_length rec - 1));
          hist'' \<leftarrow> iset hist' 0 new_zero;
          Some (rec', hist'') }"

text \<open>\<^verbatim>\<open>while ((delta -= 1) != 0) shift_seq_history(rec, history, 0);\<close> for a positive \<open>delta\<close>.\<close>

fun shift_zeros :: "nat \<Rightarrow> SequenceRecovery \<Rightarrow> u8 list \<Rightarrow> (SequenceRecovery \<times> u8 list) option" where
  "shift_zeros 0 rec hist = Some (rec, hist)"
| "shift_zeros (Suc n) rec hist =
     do { (rec', hist') \<leftarrow> shift_seq_history rec hist 0; shift_zeros n rec' hist' }"

text \<open>The pointers \<open>recovery_seq\<close>, \<open>take_any\<close> and \<open>history\<close> select one of the two windows.\<close>

definition window :: "SequenceRecovery \<Rightarrow> bool \<Rightarrow> u32 \<times> bool \<times> u8 list" where
  "window rec init = (if init then (init_recv_seq rec, init_take_any rec, init_history rec)
                      else (recv_seq rec, take_any rec, history rec))"

definition set_window :: "bool \<Rightarrow> u32 \<Rightarrow> bool \<Rightarrow> u8 list \<Rightarrow> SequenceRecovery \<Rightarrow> SequenceRecovery" where
  "set_window init seq any hist rec =
     (if init then rec\<lparr>init_recv_seq := seq, init_take_any := any, init_history := hist\<rparr>
      else rec\<lparr>recv_seq := seq, take_any := any, history := hist\<rparr>)"

definition recover :: "SequenceRecovery \<Rightarrow> u32 \<Rightarrow> bool \<Rightarrow> (bool \<times> SequenceRecovery) option" where
  "recover rec packet_seq init =
     (let (recovery_seq, any, hist) = window rec init;
          delta = calc_delta (sint packet_seq) (sint recovery_seq)
      in if any then
           do { hist' \<leftarrow> iset hist 0 1;
                Some (True, reset_ticks (set_window init packet_seq False hist'
                              (rec\<lparr>passed_packets := passed_packets rec + 1\<rparr>))) }
         else if delta > history_length rec \<or> delta \<le> - history_length rec then
           (let rec' = rec\<lparr>rogue_packets := rogue_packets rec + 1,
                           discarded_packets := discarded_packets rec + 1\<rparr>
            in Some (False, if individual_recovery rec then reset_ticks rec' else rec'))
         else if delta \<le> 0 then
           do { v \<leftarrow> iget hist (- delta);
                if v = 0 then
                  do { hist' \<leftarrow> iset hist (- delta) 1;
                       Some (True, reset_ticks (set_window init recovery_seq any hist'
                               (rec\<lparr>out_of_order_packets := out_of_order_packets rec + 1,
                                    passed_packets := passed_packets rec + 1\<rparr>))) }
                else (let rec' = rec\<lparr>discarded_packets := discarded_packets rec + 1\<rparr>
                      in Some (False, if individual_recovery rec then reset_ticks rec' else rec')) }
         else
           do { let rec1 = (if delta \<noteq> 1
                            then rec\<lparr>out_of_order_packets := out_of_order_packets rec + 1\<rparr> else rec);
                (rec2, hist2) \<leftarrow> shift_zeros (nat (delta - 1)) rec1 hist;
                (rec3, hist3) \<leftarrow> shift_seq_history rec2 hist2 1;
                Some (True, reset_ticks (set_window init packet_seq any hist3
                              (rec3\<lparr>passed_packets := passed_packets rec3 + 1\<rparr>))) })"

section \<open>The three algorithms\<close>

definition match_seq_recovery :: "SequenceRecovery \<Rightarrow> u32 \<Rightarrow> bool \<times> SequenceRecovery" where
  "match_seq_recovery rec seq0 =
     (let seq = seq0 AND 0xffff in
      if take_any rec then
        (True, reset_ticks (rec\<lparr>take_any := False, recv_seq := seq,
                                passed_packets := passed_packets rec + 1\<rparr>))
      else
        let delta = (seq - recv_seq rec) AND 0xffff in
        if delta = 0 then
          (let rec' = rec\<lparr>discarded_packets := discarded_packets rec + 1\<rparr>
           in (False, if individual_recovery rec then reset_ticks rec' else rec'))
        else
          (let rec1 = (if delta \<noteq> 1
                       then rec\<lparr>out_of_order_packets := out_of_order_packets rec + 1\<rparr> else rec)
           in (True, reset_ticks (rec1\<lparr>recv_seq := seq, passed_packets := passed_packets rec1 + 1\<rparr>))))"

definition vector_seq_recovery :: "SequenceRecovery \<Rightarrow> u32 \<Rightarrow> (bool \<times> SequenceRecovery) option" where
  "vector_seq_recovery rec seq = recover rec (seq AND 0xffff) False"

definition outside_reset_window :: "SequenceRecovery \<Rightarrow> int \<Rightarrow> bool" where
  "outside_reset_window rec delta \<longleftrightarrow>
     delta > history_length rec \<or> delta \<le> - history_length rec * 2"

definition seamless_seq_recovery :: "SequenceRecovery \<Rightarrow> u32 \<Rightarrow> (bool \<times> SequenceRecovery) option" where
  "seamless_seq_recovery rec seq0 =
     (let flags = seq0 AND 0xffff0000;
          seq = seq0 AND 0xffff
      in if use_reset_flag rec \<and> use_init_flag rec \<and> flags AND FRER_INIT_FLAG \<noteq> 0 then
           (let delta = calc_delta (sint seq) (sint (init_recv_seq rec));
                rec1 = (if flags AND FRER_RESET_FLAG \<noteq> 0 \<and> outside_reset_window rec delta
                        then rec\<lparr>init_take_any := True\<rparr> else rec);
                high = FRER_RCVY_SEQ_SPACE - 3 * history_length rec;
                low = FRER_RCVY_SEQ_SPACE - history_length rec;
                rec2 = (if sint seq \<ge> high \<and> sint seq < low then rec1\<lparr>take_any := True\<rparr> else rec1)
            in recover rec2 seq True)
         else
           (let rec1 = (if use_reset_flag rec \<and> flags AND FRER_RESET_FLAG \<noteq> 0
                           \<and> outside_reset_window rec (calc_delta (sint seq) (sint (recv_seq rec)))
                        then rec\<lparr>take_any := True\<rparr> else rec)
            in recover rec1 seq False))"

definition seq_recovery :: "SequenceRecovery \<Rightarrow> Packet \<Rightarrow> (ActionResult \<times> SequenceRecovery) option" where
  "seq_recovery rec p =
     (let seq = ntohl (sequence p) in
      do { (accept, rec') \<leftarrow>
             (case algorithm rec of
                RCVY_Vector \<Rightarrow> vector_seq_recovery rec seq
              | RCVY_SeamlessVector \<Rightarrow> seamless_seq_recovery rec seq
              | RCVY_Match \<Rightarrow> Some (match_seq_recovery rec seq));
           Some (if accept then ACR_CONTINUE else ACR_DONE, rec') })"

section \<open>Reset\<close>

text \<open>\<open>memset\<close> of \<open>history_length\<close> bytes from the start of a history.\<close>

definition clear_history :: "SequenceRecovery \<Rightarrow> u8 list \<Rightarrow> u8 list option" where
  "clear_history rec hist = mem_write hist 0 (replicate (nat (history_length rec)) 0)"

definition vector_seq_recovery_reset :: "SequenceRecovery \<Rightarrow> SequenceRecovery option" where
  "vector_seq_recovery_reset rec =
     do { h \<leftarrow> clear_history rec (history rec);
          Some (rec\<lparr>recv_seq := 0x10000 - 1, history := h\<rparr>) }"

definition seamless_seq_recovery_reset :: "SequenceRecovery \<Rightarrow> SequenceRecovery option" where
  "seamless_seq_recovery_reset rec =
     do { rec' \<leftarrow> vector_seq_recovery_reset rec;
          h \<leftarrow> clear_history rec' (init_history rec');
          Some (rec'\<lparr>init_history := h, init_recv_seq := 0x10000 - 1, init_take_any := True\<rparr>) }"

definition seq_recovery_reset :: "SequenceRecovery \<Rightarrow> (rcvy_event list \<times> SequenceRecovery) option" where
  "seq_recovery_reset rec =
     (let rec1 = rec\<lparr>seq_recovery_resets := seq_recovery_resets rec + 1, take_any := True\<rparr>
      in do { rec2 \<leftarrow> (case algorithm rec of
                RCVY_Match \<Rightarrow> Some rec1
              | RCVY_Vector \<Rightarrow> vector_seq_recovery_reset rec1
              | RCVY_SeamlessVector \<Rightarrow> seamless_seq_recovery_reset rec1);
              Some ([EV_RECOVERY_RESET], rec2) })"

section \<open>Latent errors and diagnostics\<close>

text \<open>Integer division of C: truncating, and undefined (\<open>None\<close>) for a zero divisor.\<close>

definition cdiv :: "int \<Rightarrow> int \<Rightarrow> int option" where
  "cdiv a b = (if b = 0 then None else Some (a sdiv b))"

definition update_last :: "SequenceRecovery \<Rightarrow> SequenceRecovery" where
  "update_last rec = rec\<lparr>discarded_packets_last := discarded_packets rec,
                         passed_packets_last := passed_packets rec\<rparr>"

text \<open>
  \<open>working_ceil\<close> and \<open>working_floor\<close> are \<open>unsigned\<close>: a negative quotient wraps.
\<close>

definition disfunction_events :: "SequenceRecovery \<Rightarrow> int \<Rightarrow> u32 \<Rightarrow> u32 \<Rightarrow> rcvy_event" where
  "disfunction_events rec discarded_diff working_ceil working_floor =
     (if discarded_diff < latent_error_difference (diag rec)
      then EV_DISFUNCTIONING (latent_error_paths rec - 1)
      else if working_ceil = working_floor then
        (let paths = sint (word_of_int (latent_error_paths rec - 2) - working_ceil)
         in if paths > 0 then EV_DISFUNCTIONING_ABSENT paths else EV_PACKET_ABSENT)
      else EV_DISFUNCTIONING (sint (word_of_int (latent_error_paths rec - 1) - working_ceil)))"

definition recovery_diagnostic :: "SequenceRecovery \<Rightarrow> (rcvy_event list \<times> SequenceRecovery) option" where
  "recovery_diagnostic rec =
     (let d = latent_error_difference (diag rec);
          discarded_diff = discarded_packets rec - discarded_packets_last rec;
          passed_diff = passed_packets rec - passed_packets_last rec
      in if take_any rec then Some ([], rec)
         else if passed_diff = 0 then Some ([], rec)
         else do {
           let diff = discarded_diff - ((latent_error_paths rec - 1) * passed_diff);
           wc \<leftarrow> cdiv (discarded_diff + d - 1) passed_diff;
           wf \<leftarrow> cdiv (discarded_diff - d) passed_diff;
           if diff > - d \<and> diff < d then Some ([], update_last rec)
           else if diff \<ge> d then
             do { more \<leftarrow> cdiv (discarded_diff * 100) ((latent_error_paths rec - 1) * passed_diff);
                  Some ([EV_MORE_PACKETS more], update_last rec) }
           else
             (let ev1 = [disfunction_events rec discarded_diff (word_of_int wc) (word_of_int wf)];
                  (ev2, rec2) = (if rogue_packets rec \<noteq> rogue_packets_last rec
                                 then ([EV_OUTOFWINDOW (rogue_packets rec)],
                                       rec\<lparr>rogue_packets_last := rogue_packets rec\<rparr>)
                                 else ([], rec));
                  (ev3, rec3) = (if consecutive_loss_max rec2 > outage_threshold (diag rec2)
                                 then ([EV_PACKET_LOSS (consecutive_loss_max rec2) (lost_packets rec2)],
                                       rec2\<lparr>consecutive_loss_max := 0\<rparr>)
                                 else ([], rec2))
              in Some (ev1 @ ev2 @ ev3, update_last rec3)) })"

definition base_difference :: "SequenceRecovery \<Rightarrow> int" where
  "base_difference rec = (passed_packets rec * (latent_error_paths rec - 1)) - discarded_packets rec"

definition latent_error_test :: "SequenceRecovery \<Rightarrow> (rcvy_event list \<times> SequenceRecovery) option" where
  "latent_error_test rec =
     (let diff = cur_base_difference rec - base_difference rec in
      if latent_error_paths rec > 1 \<and> latent_error_period (diag rec) > 0 then
        (let diff' = (if diff < 0 then - diff else diff);
             rec1 = (if diff' > latent_error_difference (diag rec)
                     then rec\<lparr>latent_errors := latent_errors rec + 1\<rparr> else rec)
         in recovery_diagnostic rec1)
      else Some ([], rec))"

definition latent_error_reset :: "SequenceRecovery \<Rightarrow> SequenceRecovery" where
  "latent_error_reset rec =
     rec\<lparr>cur_base_difference := base_difference rec,
         latent_error_resets := latent_error_resets rec + 1,
         skip_loss_after_reset_guard := history_length rec - 1\<rparr>"

section \<open>The reset thread\<close>

definition decrement_ticks :: "SequenceRecovery \<Rightarrow> bool \<times> SequenceRecovery" where
  "decrement_ticks rec =
     (if remaining_ticks rec = 0 then (False, rec)
      else let rec' = rec\<lparr>remaining_ticks := remaining_ticks rec - 1\<rparr>
           in (remaining_ticks rec' = 0, rec'))"

text \<open>The two counters of the latent error tests, advanced by one tick.\<close>

definition latent_counters :: "SequenceRecovery \<Rightarrow> (rcvy_event list \<times> SequenceRecovery) option" where
  "latent_counters rec =
     (let rec1 = rec\<lparr>latent_reset_counter := latent_reset_counter rec + 1\<rparr>;
          rec2 = (if latent_reset_period (diag rec1) \<noteq> 0
                     \<and> latent_reset_counter rec1 \<ge> latent_reset_period (diag rec1)
                  then (latent_error_reset rec1)\<lparr>latent_reset_counter := 0\<rparr> else rec1);
          rec3 = rec2\<lparr>latent_error_counter := latent_error_counter rec2 + 1\<rparr>
      in if latent_error_counter rec3 \<ge> latent_error_period (diag rec3)
         then do { (evs, rec4) \<leftarrow> latent_error_test rec3;
                   Some (evs, rec4\<lparr>latent_error_counter := 0\<rparr>) }
         else Some ([], rec3))"

text \<open>
  One wake-up of the thread.  \<open>THREAD_EXIT\<close> stands for the death of an OAM recovery, which then
  removes itself from its parent's map.
\<close>

datatype thread_result = THREAD_EXIT | THREAD_RUN "rcvy_event list" SequenceRecovery

definition reset_thread_tick :: "SequenceRecovery \<Rightarrow> thread_result option" where
  "reset_thread_tick rec =
     (let (expired, rec1) = decrement_ticks rec in
      if expired \<and> oam_session_id rec1 \<noteq> None then Some THREAD_EXIT
      else do { (ev1, rec2) \<leftarrow> (if expired then seq_recovery_reset rec1 else Some ([], rec1));
                (ev2, rec3) \<leftarrow> latent_counters rec2;
                Some (THREAD_RUN (ev1 @ ev2) rec3) })"

section \<open>Masked paths\<close>

text \<open>
  The mask states are behind pointers in the map; writing through the pointer is an insertion
  under the same key, which overrides the value in place.
\<close>

definition seq_rec_register_preAutoMIP :: "SequenceRecovery \<Rightarrow> string \<Rightarrow> SequenceRecovery" where
  "seq_rec_register_preAutoMIP rec mip_name =
     (let m = (case preAutoMIP rec of None \<Rightarrow> new_hashmap 5 | Some m \<Rightarrow> Some m)
      in rec\<lparr>preAutoMIP := map_option (\<lambda>m. hm_insert m mip_name False) m\<rparr>)"

definition seq_rec_register_postAutoMIP :: "SequenceRecovery \<Rightarrow> string \<Rightarrow> SequenceRecovery" where
  "seq_rec_register_postAutoMIP rec mip_name =
     (case postAutoMIP rec of Some _ \<Rightarrow> rec | None \<Rightarrow> rec\<lparr>postAutoMIP := Some mip_name\<rparr>)"

definition seq_rec_path_masked :: "SequenceRecovery \<Rightarrow> string \<Rightarrow> bool \<times> rcvy_event list \<times> SequenceRecovery" where
  "seq_rec_path_masked rec mip_name =
     (case preAutoMIP rec of None \<Rightarrow> (False, [], rec)
      | Some m \<Rightarrow>
          (case hashmap_find m mip_name of None \<Rightarrow> (False, [], rec)
           | Some masked \<Rightarrow>
               if masked then (False, [], rec)
               else if latent_error_paths rec \<le> 0 then (False, [], rec)
               else let rec' = latent_error_reset (rec\<lparr>preAutoMIP := Some (hm_insert m mip_name True),
                                                     latent_error_paths := latent_error_paths rec - 1\<rparr>)
                    in (True, EV_MASKED mip_name #
                              (if latent_error_paths rec' = 0 then [EV_START_MASK_SESSION (postAutoMIP rec')] else []),
                        rec')))"

definition seq_rec_path_unmasked :: "SequenceRecovery \<Rightarrow> string \<Rightarrow> bool \<times> rcvy_event list \<times> SequenceRecovery" where
  "seq_rec_path_unmasked rec mip_name =
     (case preAutoMIP rec of None \<Rightarrow> (False, [], rec)
      | Some m \<Rightarrow>
          (case hashmap_find m mip_name of None \<Rightarrow> (False, [], rec)
           | Some masked \<Rightarrow>
               if \<not> masked then (False, [], rec)
               else if latent_error_paths rec \<ge> admin_latent_error_paths (diag rec) then (False, [], rec)
               else let rec' = latent_error_reset (rec\<lparr>preAutoMIP := Some (hm_insert m mip_name False),
                                                     latent_error_paths := latent_error_paths rec + 1\<rparr>)
                    in (True, EV_UNMASKED mip_name #
                              (if latent_error_paths rec' = 1 then [EV_STOP_MASK_SESSION (postAutoMIP rec')] else []),
                        rec')))"

section \<open>Creation, and the recoveries of OAM sessions\<close>

definition OAM_RCVY_RESET_MS :: u32 where "OAM_RCVY_RESET_MS = 5000"

text \<open>The first action of the reset thread (\<open>reset_ticks\<close>) is part of the creation.\<close>

definition new_seq_rec ::
  "SequenceRecoveryAlgorithm \<Rightarrow> bool \<Rightarrow> bool \<Rightarrow> u32 \<Rightarrow> u32 \<Rightarrow> RecoveryDiagnosticConf \<Rightarrow> SequenceRecovery" where
  "new_seq_rec algo use_reset use_init hist_len msec d = reset_ticks
     \<lparr>algorithm = algo, diag = d, use_reset_flag = use_reset, use_init_flag = use_init,
      individual_recovery = False, history_length = sint hist_len, reset_msec = msec,
      recv_seq = 0, init_recv_seq = 0, cur_base_difference = 0,
      history = replicate (unat hist_len) 0, init_history = replicate (unat hist_len) 0,
      take_any = True, init_take_any = True,
      lost_packets = 0, out_of_order_packets = 0, passed_packets = 0, passed_packets_last = 0,
      rogue_packets = 0, rogue_packets_last = 0, discarded_packets = 0, discarded_packets_last = 0,
      remaining_ticks = 0, seq_recovery_resets = 0,
      latent_error_paths = admin_latent_error_paths d, latent_errors = 0, latent_reset_counter = 0,
      latent_error_counter = 0, latent_error_resets = 0, consecutive_loss = 0,
      consecutive_loss_max = 0, skip_loss_after_reset_guard = 0, oam_session_id = None,
      preAutoMIP = None, postAutoMIP = None\<rparr>"

definition zero_diag :: RecoveryDiagnosticConf where
  "zero_diag = \<lparr>admin_latent_error_paths = 0, latent_error_period = 0, latent_reset_period = 0,
                latent_error_difference = 0, outage_threshold = 0\<rparr>"

type_synonym oam_recoveries = "SequenceRecovery hashmap option"

text \<open>
  \<open>launched\<close> says whether the reset thread of a new recovery could be started; the result is
  the session's recovery (\<open>None\<close> for \<open>NULL\<close>) and the map of the sessions.
\<close>

definition get_oam_rcvy :: "bool \<Rightarrow> oam_recoveries \<Rightarrow> string \<Rightarrow> SequenceRecovery option \<times> oam_recoveries" where
  "get_oam_rcvy launched recs session_id =
     (let (recs', oamrec) = (case recs of
              None \<Rightarrow> (new_hashmap 5, None)
            | Some m \<Rightarrow> (Some m, hashmap_find m session_id))
      in case oamrec of
           Some r \<Rightarrow> (Some r, recs')
         | None \<Rightarrow>
             if \<not> launched then (None, recs')
             else let r = (new_seq_rec RCVY_Match False False 0 OAM_RCVY_RESET_MS zero_diag)
                            \<lparr>oam_session_id := Some session_id\<rparr>
                  in (Some r, map_option (\<lambda>m. hm_insert m session_id r) recs'))"

definition oam_recovery :: "bool \<Rightarrow> oam_recoveries \<Rightarrow> string \<Rightarrow> u8 \<Rightarrow> ActionResult \<times> oam_recoveries" where
  "oam_recovery launched recs session_id seq =
     (case get_oam_rcvy launched recs session_id of
        (None, recs') \<Rightarrow> (ACR_CONTINUE, recs')
      | (Some r, recs') \<Rightarrow>
          (let (accept, r') = match_seq_recovery r (ucast seq)
           in (if accept then ACR_CONTINUE else ACR_DONE,
               map_option (\<lambda>m. hm_insert m session_id r') recs')))"

text \<open>A tick of the reset thread of a session: on expiry the session is removed.\<close>

definition oam_tick :: "oam_recoveries \<Rightarrow> string \<Rightarrow> oam_recoveries option" where
  "oam_tick recs session_id =
     (case recs of None \<Rightarrow> Some None
      | Some m \<Rightarrow> (case hashmap_find m session_id of None \<Rightarrow> Some (Some m)
           | Some r \<Rightarrow> do { res \<leftarrow> reset_thread_tick r;
                           case res of
                             THREAD_EXIT \<Rightarrow> Some (Some (hm_remove m session_id))
                           | THREAD_RUN _ r' \<Rightarrow> Some (Some (hm_insert m session_id r')) }))"

end
