(* ===== verification/Recovery_Window.thy ===== *)
theory Recovery_Window
  imports Seq_Recov
begin

text \<open>
  What the history vector means.  The section on the arrays shows that every access stays inside
  the histories and computes the effect of \<open>recover\<close> as a step on one window; the next one
  relates the window to a specification over unbounded sequence numbers (the highest number seen
  and the set of numbers passed); the locale \<open>duplicate_filter\<close> is the interface of such a
  filter, with its delivery guarantees proved once and obtained for the vector and the seamless
  algorithm by interpretation.
\<close>

section \<open>The effect on the arrays\<close>

definition rcvy_wf :: "SequenceRecovery \<Rightarrow> bool" where
  "rcvy_wf rec \<longleftrightarrow> 1 \<le> history_length rec \<and> history_length rec < 32768
     \<and> length (history rec) = nat (history_length rec)
     \<and> length (init_history rec) = nat (history_length rec)"

lemma shift_copy_result:
  "n < length h \<Longrightarrow> shift_copy h n = Some (take 1 h @ take n h @ drop (Suc n) h)"
proof (induction n arbitrary: h)
  case 0
  then show ?case by (cases h) auto
next
  case (Suc n)
  let ?h = "h[Suc n := h ! n]"
  have "shift_copy ?h n = Some (take 1 ?h @ take n ?h @ drop (Suc n) ?h)"
    using Suc by simp
  moreover have "drop (Suc n) ?h = h ! n # drop (Suc (Suc n)) h"
    using Suc.prems Cons_nth_drop_Suc [of "Suc n" ?h] by simp
  moreover have "take 1 ?h = take 1 h" by simp
  moreover have "take (Suc n) h = take n h @ [h ! n]" using Suc.prems by (simp add: take_Suc_conv_app_nth)
  ultimately show ?case using Suc.prems by simp
qed

text \<open>Everything but the loss accounting, which is all a shift changes in the record.\<close>

definition no_loss :: "SequenceRecovery \<Rightarrow> SequenceRecovery" where
  "no_loss rec = rec\<lparr>lost_packets := 0, consecutive_loss := 0, consecutive_loss_max := 0,
                     skip_loss_after_reset_guard := 0\<rparr>"

lemma no_lossD:
  assumes "no_loss rec' = no_loss rec"
  shows "history_length rec' = history_length rec" "passed_packets rec' = passed_packets rec"
    "discarded_packets rec' = discarded_packets rec"
    "history rec' = history rec" "init_history rec' = init_history rec"
    "recv_seq rec' = recv_seq rec" "init_recv_seq rec' = init_recv_seq rec"
    "take_any rec' = take_any rec" "init_take_any rec' = init_take_any rec"
    "algorithm rec' = algorithm rec" "diag rec' = diag rec" "use_reset_flag rec' = use_reset_flag rec"
    "use_init_flag rec' = use_init_flag rec" "reset_msec rec' = reset_msec rec"
    "oam_session_id rec' = oam_session_id rec" "latent_error_paths rec' = latent_error_paths rec"
    "preAutoMIP rec' = preAutoMIP rec" "postAutoMIP rec' = postAutoMIP rec"
  using assms by (cases rec, cases rec', simp add: no_loss_def)+

lemma shift_seq_history_result:
  assumes hl: "1 \<le> history_length rec" and len: "length h = nat (history_length rec)"
  shows "\<exists>rec'. shift_seq_history rec h v = Some (rec', v # butlast h) \<and> no_loss rec' = no_loss rec"
proof -
  let ?n = "nat (history_length rec) - 1"
  have n: "nat (history_length rec - 1) = ?n" "?n < length h" using hl len by auto
  have ne: "h \<noteq> []" using n(2) by auto
  obtain h1 where cp: "shift_copy h ?n = Some h1" and st: "iset h1 0 v = Some (v # butlast h)"
  proof
    show "shift_copy h ?n = Some (take 1 h @ take ?n h)"
      using shift_copy_result [OF n(2)] len hl by simp
    show "iset (take 1 h @ take ?n h) 0 v = Some (v # butlast h)"
      using len ne by (cases h) (auto simp: iset_def aset_def butlast_conv_take)
  qed
  have get: "iget h (history_length rec - 1) = Some (h ! ?n)"
    using n hl len by simp
  show ?thesis
    unfolding shift_seq_history_def get n(1) cp
    by (auto simp: st Let_def no_loss_def)
qed

lemma butlast_Cons_take: "h \<noteq> [] \<Longrightarrow> v # butlast h = take (length h) (v # h)"
  by (simp add: butlast_conv_take take_Cons')

lemma take_append_take: "take k (xs @ take k ys) = take k (xs @ ys)"
  by (simp add: min_def)

lemma shift_zeros_result:
  assumes "1 \<le> history_length rec" and "length h = nat (history_length rec)"
  shows "\<exists>rec'. shift_zeros n rec h = Some (rec', take (length h) (replicate n 0 @ h))
           \<and> no_loss rec' = no_loss rec"
  using assms
proof (induction n arbitrary: rec h)
  case (Suc n)
  obtain r1 where r1: "shift_seq_history rec h 0 = Some (r1, 0 # butlast h)" "no_loss r1 = no_loss rec"
    using shift_seq_history_result [OF Suc.prems] by blast
  have ne: "h \<noteq> []" using Suc.prems by auto
  have hl: "history_length r1 = history_length rec" by (rule no_lossD(1) [OF r1(2)])
  obtain r2 where r2: "shift_zeros n r1 (0 # butlast h) =
        Some (r2, take (length h) (replicate n 0 @ 0 # butlast h))" "no_loss r2 = no_loss r1"
    using Suc.IH [of r1 "0 # butlast h"] Suc.prems hl ne by auto
  have "take (length h) (replicate n 0 @ 0 # butlast h) = take (length h) (replicate (Suc n) 0 @ h)"
    unfolding butlast_Cons_take [OF ne] take_append_take by (simp only: replicate_app_Cons_same replicate_Suc append_Cons)
  with r1 r2 show ?case by simp
qed simp

text \<open>One window as a state of its own: the effect of \<open>recover\<close> on it.\<close>

definition wstep :: "int \<Rightarrow> u32 \<times> bool \<times> u8 list \<Rightarrow> u32 \<Rightarrow> bool \<times> u32 \<times> bool \<times> u8 list" where
  "wstep hl w s = (case w of (base, any, hist) \<Rightarrow>
     let delta = calc_delta (sint s) (sint base) in
     if any then (True, s, False, hist[0 := 1])
     else if delta > hl \<or> delta \<le> - hl then (False, w)
     else if delta \<le> 0 then
       (if hist ! nat (- delta) = 0 then (True, base, False, hist[nat (- delta) := 1]) else (False, w))
     else (True, s, False, take (length hist) (1 # replicate (nat (delta - 1)) 0 @ hist)))"

text \<open>The parts of the record that no packet changes.\<close>

definition config :: "SequenceRecovery \<Rightarrow> SequenceRecovery" where
  "config rec = rec\<lparr>recv_seq := 0, init_recv_seq := 0, history := [], init_history := [],
     take_any := False, init_take_any := False, lost_packets := 0, out_of_order_packets := 0,
     passed_packets := 0, rogue_packets := 0, discarded_packets := 0, remaining_ticks := 0,
     consecutive_loss := 0, consecutive_loss_max := 0, skip_loss_after_reset_guard := 0\<rparr>"

lemma configD:
  assumes "config rec' = config rec"
  shows "history_length rec' = history_length rec" "algorithm rec' = algorithm rec"
    "diag rec' = diag rec" "use_reset_flag rec' = use_reset_flag rec"
    "use_init_flag rec' = use_init_flag rec" "reset_msec rec' = reset_msec rec"
    "oam_session_id rec' = oam_session_id rec" "latent_error_paths rec' = latent_error_paths rec"
    "preAutoMIP rec' = preAutoMIP rec" "postAutoMIP rec' = postAutoMIP rec"
    "passed_packets_last rec' = passed_packets_last rec"
  using assms by (cases rec, cases rec', simp add: config_def)+

lemma no_loss_config: "no_loss rec' = no_loss rec \<Longrightarrow> config rec' = config rec"
  by (cases rec, cases rec', simp add: config_def no_loss_def)

lemma rcvy_wf_window:
  "rcvy_wf rec \<longleftrightarrow> 1 \<le> history_length rec \<and> history_length rec < 32768
     \<and> (\<forall>init. length (snd (snd (window rec init))) = nat (history_length rec))"
  by (auto simp: rcvy_wf_def window_def all_bool_eq)

lemma window_set_window [simp]:
  "window (set_window init a b c rec) i = (if i = init then (a, b, c) else window rec i)"
  by (cases i) (auto simp: window_def set_window_def)

lemma window_reset_ticks [simp]: "window (reset_ticks rec) i = window rec i"
  by (simp add: window_def reset_ticks_def)

lemma window_counters [simp]:
  "window (rec\<lparr>passed_packets := x\<rparr>) i = window rec i"
  "window (rec\<lparr>discarded_packets := x\<rparr>) i = window rec i"
  "window (rec\<lparr>rogue_packets := x\<rparr>) i = window rec i"
  "window (rec\<lparr>out_of_order_packets := x\<rparr>) i = window rec i"
  by (simp_all add: window_def)

lemma config_updates [simp]:
  "config (reset_ticks rec) = config rec"
  "config (set_window init a b c rec) = config rec"
  "config (rec\<lparr>passed_packets := x\<rparr>) = config rec"
  "config (rec\<lparr>discarded_packets := x\<rparr>) = config rec"
  "config (rec\<lparr>rogue_packets := x\<rparr>) = config rec"
  "config (rec\<lparr>out_of_order_packets := x\<rparr>) = config rec"
  by (simp_all add: config_def reset_ticks_def set_window_def)

lemma counters_updates [simp]:
  "passed_packets (reset_ticks rec) = passed_packets rec"
  "discarded_packets (reset_ticks rec) = discarded_packets rec"
  "passed_packets (set_window init a b c rec) = passed_packets rec"
  "discarded_packets (set_window init a b c rec) = discarded_packets rec"
  by (simp_all add: reset_ticks_def set_window_def)

lemma no_loss_window: "no_loss rec' = no_loss rec \<Longrightarrow> window rec' i = window rec i"
  by (simp add: window_def no_lossD [of rec' rec])

text \<open>
  What a packet does to a recovery: it never leaves the arrays, acts on the selected window like
  \<open>wstep\<close>, leaves the other window and the configuration alone, and counts the packet once.
\<close>

definition recover_post :: "SequenceRecovery \<Rightarrow> u32 \<Rightarrow> bool \<Rightarrow> bool \<times> SequenceRecovery \<Rightarrow> bool" where
  "recover_post rec s init res \<longleftrightarrow>
     (let r = wstep (history_length rec) (window rec init) s; rec' = snd res in
      fst res = fst r \<and> window rec' init = snd r \<and> window rec' (\<not> init) = window rec (\<not> init)
      \<and> config rec' = config rec
      \<and> passed_packets rec' = passed_packets rec + of_bool (fst res)
      \<and> discarded_packets rec' = discarded_packets rec + of_bool (\<not> fst res))"

lemma recover_advance:
  assumes wf: "rcvy_wf rec" and w: "window rec init = (base, False, hist)"
    and delta: "delta = calc_delta (sint s) (sint base)" "0 < delta" "delta \<le> history_length rec"
  shows "\<exists>res. recover rec s init = Some res \<and> recover_post rec s init res"
proof -
  have len: "length hist = nat (history_length rec)" and hl: "1 \<le> history_length rec"
    using wf w by (auto simp: rcvy_wf_window dest: spec [of _ init])
  define r1 where "r1 = (if delta \<noteq> 1 then rec\<lparr>out_of_order_packets := out_of_order_packets rec + 1\<rparr> else rec)"
  have hl1: "history_length r1 = history_length rec" by (simp add: r1_def)
  have pos: "\<not> delta \<le> 0" "\<not> history_length rec < delta" "\<not> delta \<le> - history_length rec"
    using delta(2,3) hl by auto
  let ?z = "replicate (nat (delta - 1)) 0"
  obtain r2 where r2: "shift_zeros (nat (delta - 1)) r1 hist = Some (r2, take (length hist) (?z @ hist))"
      "no_loss r2 = no_loss r1"
    using shift_zeros_result [of r1 hist "nat (delta - 1)"] len hl hl1 by auto
  have l2: "length (take (length hist) (?z @ hist)) = nat (history_length r2)"
    using no_lossD(1) [OF r2(2)] len hl1 by simp
  obtain r3 where r3: "shift_seq_history r2 (take (length hist) (?z @ hist)) 1 =
        Some (r3, 1 # butlast (take (length hist) (?z @ hist)))" "no_loss r3 = no_loss r2"
    using shift_seq_history_result [OF _ l2, of 1] no_lossD(1) [OF r2(2)] hl hl1 by auto
  have ne: "take (length hist) (?z @ hist) \<noteq> []" using len hl by auto
  have h3: "1 # butlast (take (length hist) (?z @ hist)) = take (length hist) (1 # ?z @ hist)"
  proof -
    have "length (take (length hist) (?z @ hist)) = length hist" by simp
    thus ?thesis unfolding butlast_Cons_take [OF ne]
      using take_append_take [of "length hist" "[1]" "?z @ hist"] by (simp only: append_Cons append_Nil)
  qed
  let ?rec' = "reset_ticks (set_window init s False (take (length hist) (1 # ?z @ hist))
                 (r3\<lparr>passed_packets := passed_packets r3 + 1\<rparr>))"
  have "recover rec s init = Some (True, ?rec')"
    using r2(1) r3(1) pos unfolding h3
    by (simp add: recover_def w delta(1) [symmetric] Let_def r1_def [symmetric] del: take_append)
  moreover have "no_loss r3 = no_loss r1" using r2(2) r3(2) by simp
  hence "config r3 = config rec" "window r3 i = window rec i" "passed_packets r3 = passed_packets rec"
      "discarded_packets r3 = discarded_packets rec" for i
    using no_loss_config [of r3 r1] no_loss_window [of r3 r1] no_lossD [of r3 r1] by (simp_all add: r1_def)
  hence "recover_post rec s init (True, ?rec')"
    using pos w by (simp add: recover_post_def wstep_def Let_def delta(1) [symmetric] del: take_append)
  ultimately show ?thesis by blast
qed

lemma recover_result:
  assumes wf: "rcvy_wf rec"
  shows "\<exists>res. recover rec s init = Some res \<and> recover_post rec s init res"
proof -
  obtain base any hist where w: "window rec init = (base, any, hist)" by (metis prod_cases3)
  have len: "length hist = nat (history_length rec)" and hl: "1 \<le> history_length rec"
    using wf w by (auto simp: rcvy_wf_window dest: spec [of _ init])
  define delta where "delta = calc_delta (sint s) (sint base)"
  consider "any" | "\<not> any" "delta > history_length rec \<or> delta \<le> - history_length rec"
    | "\<not> any" "- history_length rec < delta" "delta \<le> 0"
    | "\<not> any" "0 < delta" "delta \<le> history_length rec"
    by linarith
  thus ?thesis
  proof cases
    case 1
    have "iset hist 0 1 = Some (hist[0 := 1])" using len hl by simp
    with 1 w show ?thesis by (auto simp: recover_def recover_post_def wstep_def Let_def)
  next
    case 2
    with w show ?thesis
      by (auto simp: recover_def recover_post_def wstep_def Let_def delta_def [symmetric])
  next
    case 3
    have "iget hist (- delta) = Some (hist ! nat (- delta))"
      "iset hist (- delta) 1 = Some (hist[nat (- delta) := 1])"
      using 3 len by simp_all
    with 3 w show ?thesis
      by (auto simp: recover_def recover_post_def wstep_def Let_def delta_def [symmetric])
  next
    case 4
    with recover_advance [OF wf _ delta_def] w show ?thesis by simp
  qed
qed

lemma length_wstep [simp]: "length (snd (snd (snd (wstep hl w s)))) = length (snd (snd w))"
  by (cases w) (auto simp: wstep_def Let_def)

lemma recover_postD:
  assumes "recover_post rec s init res"
  shows "fst res = fst (wstep (history_length rec) (window rec init) s)"
    "window (snd res) init = snd (wstep (history_length rec) (window rec init) s)"
    "window (snd res) (\<not> init) = window rec (\<not> init)" "config (snd res) = config rec"
    "passed_packets (snd res) = passed_packets rec + of_bool (fst res)"
    "discarded_packets (snd res) = discarded_packets rec + of_bool (\<not> fst res)"
  using assms unfolding recover_post_def Let_def by simp_all

lemma recover_post_wf:
  assumes wf: "rcvy_wf rec" and post: "recover_post rec s init res"
  shows "rcvy_wf (snd res)"
proof -
  have l: "length (snd (snd (window (snd res) i))) = length (snd (snd (window rec i)))" for i
  proof (cases "i = init")
    case True
    show ?thesis unfolding True recover_postD(2) [OF post] by simp
  next
    case False
    hence "i = (\<not> init)" by auto
    thus ?thesis using recover_postD(3) [OF post] by simp
  qed
  have "history_length (snd res) = history_length rec"
    by (rule configD(1) [OF recover_postD(4) [OF post]])
  with wf l show ?thesis unfolding rcvy_wf_window by simp
qed

section \<open>The specification over unbounded sequence numbers\<close>

text \<open>
  The state of the specification is the highest number passed and the set of numbers passed.  A
  packet is passed iff it is less than \<open>hl\<close> behind and at most \<open>hl\<close> ahead of the highest
  number, and was not passed before.
\<close>

definition window_spec :: "int \<Rightarrow> int \<times> int set \<Rightarrow> int \<Rightarrow> bool \<times> int \<times> int set" where
  "window_spec hl st s = (case st of (base, seen) \<Rightarrow>
     if s \<le> base - hl \<or> s > base + hl \<or> s \<in> seen then (False, base, seen)
     else (True, max base s, insert s seen))"

text \<open>The window represents the specification state.\<close>

definition win_rel :: "int \<Rightarrow> u32 \<times> bool \<times> u8 list \<Rightarrow> int \<times> int set \<Rightarrow> bool" where
  "win_rel hl w st \<longleftrightarrow> (case w of (seq, any, hist) \<Rightarrow> case st of (base, seen) \<Rightarrow>
     \<not> any \<and> seq = seq_of base \<and> length hist = nat hl
     \<and> (\<forall>i < nat hl. hist ! i = of_bool (base - int i \<in> seen)) \<and> (\<forall>t \<in> seen. t \<le> base))"

lemma win_rel_behind:
  assumes hl: "1 \<le> hl" and h: "length hist = nat hl" "\<forall>i < nat hl. hist ! i = of_bool (base - int i \<in> seen)"
    and s: "base - hl < s" "s \<le> base"
  shows "(hist ! nat (base - s) = (0 :: u8)) = (s \<notin> seen)"
    and "\<forall>i < nat hl. hist[nat (base - s) := 1] ! i = (of_bool (base - int i \<in> insert s seen) :: u8)"
proof -
  have k: "nat (base - s) < nat hl" "base - int (nat (base - s)) = s" using s by auto
  have "hist ! nat (base - s) = of_bool (base - int (nat (base - s)) \<in> seen)" using h(2) k(1) by blast
  thus "(hist ! nat (base - s) = (0 :: u8)) = (s \<notin> seen)" unfolding k(2) by simp
  show "\<forall>i < nat hl. hist[nat (base - s) := 1] ! i = (of_bool (base - int i \<in> insert s seen) :: u8)"
  proof (intro allI impI)
    fix i assume i: "i < nat hl"
    show "hist[nat (base - s) := 1] ! i = (of_bool (base - int i \<in> insert s seen) :: u8)"
    proof (cases "i = nat (base - s)")
      case True
      have "base - int i = s" unfolding True by (rule k(2))
      with True h(1) k(1) show ?thesis by simp
    next
      case False
      hence "base - int i \<noteq> s" using s(2) by auto
      with False h(2) i show ?thesis by simp
    qed
  qed
qed

lemma win_rel_ahead:
  assumes h: "length hist = nat hl" "\<forall>i < nat hl. hist ! i = (of_bool (base - int i \<in> seen) :: u8)"
    and seen: "\<forall>t \<in> seen. t \<le> base" and s: "base < s"
  shows "\<forall>i < nat hl. take (length hist) (1 # replicate (nat (s - base - 1)) 0 @ hist) ! i
           = (of_bool (s - int i \<in> insert s seen) :: u8)"
proof (intro allI impI)
  fix i assume i: "i < nat hl"
  let ?d = "nat (s - base)"
  have d: "nat (s - base - 1) = ?d - 1" "1 \<le> ?d" "int ?d = s - base" using s by auto
  have "take (length hist) (1 # replicate (?d - 1) 0 @ hist) ! i = (1 # replicate (?d - 1) 0 @ hist) ! i"
    using i h(1) by simp
  also have "\<dots> = (of_bool (s - int i \<in> insert s seen) :: u8)"
  proof (cases "i < ?d")
    case True
    have "s - int i \<notin> seen" using True d(3) seen by force
    with True show ?thesis by (cases i) (auto simp: nth_append)
  next
    case False
    then obtain j where j: "i = ?d + j" using le_Suc_ex not_less by blast
    obtain e where e: "?d = Suc e" using d(2) by (cases ?d) auto
    have "(1 # replicate (?d - 1) 0 @ hist) ! i = hist ! j"
      unfolding j e by (simp add: nth_append)
    moreover have "base - int j = s - int i" using j d(3) by simp
    moreover have "1 \<le> i" using j d(2) by linarith
    hence "s - int i \<noteq> s" by simp
    moreover have "j < nat hl" using i j by simp
    moreover have "hist ! j = of_bool (base - int j \<in> seen)" using h(2) \<open>j < nat hl\<close> by blast
    ultimately show ?thesis by (simp only: insert_iff simp_thms)
  qed
  finally show "take (length hist) (1 # replicate (nat (s - base - 1)) 0 @ hist) ! i
      = (of_bool (s - int i \<in> insert s seen) :: u8)" unfolding d(1) .
qed

text \<open>One step of a window refines one step of the specification.\<close>

lemma wstep_refines:
  assumes hl: "1 \<le> hl" "hl < 32768" and rel: "win_rel hl w (base, seen)"
    and near: "- 32768 \<le> s - base" "s - base < 32768"
  shows "fst (wstep hl w (seq_of s)) = fst (window_spec hl (base, seen) s)"
    and "win_rel hl (snd (wstep hl w (seq_of s))) (snd (window_spec hl (base, seen) s))"
proof -
  obtain hist where w: "w = (seq_of base, False, hist)" and h: "length hist = nat hl"
      "\<forall>i < nat hl. hist ! i = of_bool (base - int i \<in> seen)" and seen: "\<forall>t \<in> seen. t \<le> base"
    using rel by (auto simp: win_rel_def)
  have delta: "calc_delta (sint (seq_of s)) (sint (seq_of base)) = s - base"
    by (rule calc_delta_seq_of [OF near])
  have goal: "fst (wstep hl w (seq_of s)) = fst (window_spec hl (base, seen) s)
      \<and> win_rel hl (snd (wstep hl w (seq_of s))) (snd (window_spec hl (base, seen) s))"
  proof -
    consider "s \<le> base - hl \<or> s > base + hl" | "base - hl < s" "s \<le> base" | "base < s" "s \<le> base + hl"
      by linarith
    thus ?thesis
    proof cases
      case 1
      with rel w delta show ?thesis by (auto simp: wstep_def window_spec_def Let_def)
    next
      case 2
      note b = win_rel_behind [OF hl(1) h 2]
      have c: "\<not> (s - base > hl \<or> s - base \<le> - hl)" "s - base \<le> 0" "nat (- (s - base)) = nat (base - s)"
          "\<not> (s \<le> base - hl \<or> base + hl < s)" "max base s = base"
        using 2 hl(1) by auto
      show ?thesis
      proof (cases "s \<in> seen")
        case True
        with b(1) c rel show ?thesis
          unfolding w wstep_def window_spec_def by (simp only: delta Let_def prod.case) simp
      next
        case False
        have "\<forall>t \<in> insert s seen. t \<le> base" using seen 2(2) by simp
        hence "win_rel hl (seq_of base, False, hist[nat (base - s) := 1]) (base, insert s seen)"
          using b(2) h(1) by (simp only: win_rel_def prod.case length_list_update simp_thms)
        with False b(1) c show ?thesis
          unfolding w wstep_def window_spec_def by (simp only: delta Let_def prod.case) simp
      qed
    next
      case 3
      have c: "\<not> (s - base > hl \<or> s - base \<le> - hl)" "\<not> s - base \<le> 0"
          "\<not> (s \<le> base - hl \<or> base + hl < s)" "max base s = s"
        using 3 hl(1) by auto
      have "s \<notin> seen" using seen 3(1) by force
      moreover have "\<forall>t \<in> insert s seen. t \<le> s" using seen 3(1) by force
      moreover have "length (take (length hist) (1 # replicate (nat (s - base - 1)) 0 @ hist)) = nat hl"
        using h(1) by simp
      moreover note win_rel_ahead [OF h seen 3(1)]
      ultimately have "s \<notin> seen" and "win_rel hl (seq_of s, False,
          take (length hist) (1 # replicate (nat (s - base - 1)) 0 @ hist)) (s, insert s seen)"
        by (simp_all only: win_rel_def prod.case simp_thms)
      with c show ?thesis
        unfolding w wstep_def window_spec_def by (simp only: delta Let_def prod.case) simp
    qed
  qed
  show "fst (wstep hl w (seq_of s)) = fst (window_spec hl (base, seen) s)" using goal by simp
  show "win_rel hl (snd (wstep hl w (seq_of s))) (snd (window_spec hl (base, seen) s))" using goal by simp
qed

section \<open>Runs of a duplicate filter\<close>

text \<open>
  A filter fed with the packets of a stream, given by their unbounded numbers; \<open>enc n\<close> is the
  tag on packet \<open>n\<close>.  The result lists the numbers of the packets passed on.
\<close>

fun filter_run :: "('st \<Rightarrow> u32 \<Rightarrow> (bool \<times> 'st) option) \<Rightarrow> (int \<Rightarrow> u32) \<Rightarrow> 'st \<Rightarrow> int list
    \<Rightarrow> (int list \<times> 'st) option" where
  "filter_run step enc st [] = Some ([], st)"
| "filter_run step enc st (s # ss) =
     do { (ok, st') \<leftarrow> step st (enc s);
          (acc, st'') \<leftarrow> filter_run step enc st' ss;
          Some (if ok then s # acc else acc, st'') }"

fun spec_run :: "int \<Rightarrow> int \<times> int set \<Rightarrow> int list \<Rightarrow> int list" where
  "spec_run hl a [] = []"
| "spec_run hl a (s # ss) =
     (if fst (window_spec hl a s) then s # spec_run hl (snd (window_spec hl a s)) ss
      else spec_run hl (snd (window_spec hl a s)) ss)"

text \<open>Every packet is within half of the sequence space of the highest number passed so far.\<close>

fun near_run :: "int \<Rightarrow> int \<times> int set \<Rightarrow> int list \<Rightarrow> bool" where
  "near_run hl a [] = True"
| "near_run hl a (s # ss) \<longleftrightarrow> - 32768 \<le> s - fst a \<and> s - fst a < 32768
     \<and> near_run hl (snd (window_spec hl a s)) ss"

text \<open>Every packet is less than \<open>hl\<close> behind and at most \<open>hl\<close> ahead of the highest so far.\<close>

fun bounded_skew :: "int \<Rightarrow> int \<Rightarrow> int list \<Rightarrow> bool" where
  "bounded_skew hl base [] = True"
| "bounded_skew hl base (s # ss) \<longleftrightarrow> base - hl < s \<and> s \<le> base + hl \<and> bounded_skew hl (max base s) ss"

lemma spec_run_distinct: "distinct (spec_run hl a ss) \<and> set (spec_run hl a ss) \<inter> snd a = {}"
proof (induction ss arbitrary: a)
  case (Cons s ss)
  have "snd a \<subseteq> snd (snd (window_spec hl a s))"
      "fst (window_spec hl a s) \<Longrightarrow> s \<in> snd (snd (window_spec hl a s)) \<and> s \<notin> snd a"
    by (auto simp: window_spec_def split: prod.splits if_splits)
  with Cons.IH [of "snd (window_spec hl a s)"] show ?case by auto
qed simp

lemma spec_run_subset: "set (spec_run hl a ss) \<subseteq> set ss"
proof (induction ss arbitrary: a)
  case (Cons s ss)
  from Cons.IH [of "snd (window_spec hl a s)"] show ?case by auto
qed simp

lemma bounded_skew_step:
  assumes "base - hl < s" "s \<le> base + hl" "\<forall>t \<in> seen. t \<le> base"
  shows "window_spec hl (base, seen) s = (s \<notin> seen, max base s, insert s seen)"
    "\<forall>t \<in> insert s seen. t \<le> max base s"
  using assms by (auto simp: window_spec_def max_def insert_absorb)

lemma bounded_skew_spec:
  assumes "bounded_skew hl base ss" "\<forall>t \<in> seen. t \<le> base" "hl < 32768"
  shows "near_run hl (base, seen) ss" "seen \<union> set (spec_run hl (base, seen) ss) = seen \<union> set ss"
proof -
  have "near_run hl (base, seen) ss \<and> seen \<union> set (spec_run hl (base, seen) ss) = seen \<union> set ss"
    using assms
  proof (induction ss arbitrary: base seen)
    case (Cons s ss)
    have b: "base - hl < s" "s \<le> base + hl" "bounded_skew hl (max base s) ss"
      using Cons.prems by auto
    note w = bounded_skew_step [OF b(1,2) Cons.prems(2)]
    have ih: "near_run hl (max base s, insert s seen) ss"
        "insert s seen \<union> set (spec_run hl (max base s, insert s seen) ss) = insert s seen \<union> set ss"
      using Cons.IH [OF b(3) w(2) Cons.prems(3)] by auto
    have "near_run hl (base, seen) (s # ss)" using b ih(1) w(1) Cons.prems(3) by simp
    moreover have "seen \<union> set (spec_run hl (base, seen) (s # ss)) = seen \<union> set (s # ss)"
      using ih(2) w(1) by (cases "s \<in> seen") (auto simp: insert_absorb)
    ultimately show ?case by blast
  qed simp
  thus "near_run hl (base, seen) ss" "seen \<union> set (spec_run hl (base, seen) ss) = seen \<union> set ss" by auto
qed

section \<open>The interface of a duplicate filter\<close>

text \<open>
  A provider promises that a filter which represents a specification state handles a packet
  within half the sequence space as the specification does (\<open>filter_step\<close>), and that a filter
  that is ready (after creation or a reset) passes any first packet (\<open>filter_first\<close>).
\<close>

locale duplicate_filter =
  fixes step :: "'st \<Rightarrow> u32 \<Rightarrow> (bool \<times> 'st) option"
    and rel :: "'st \<Rightarrow> int \<times> int set \<Rightarrow> bool"
    and hl :: "'st \<Rightarrow> int"
    and ready :: "'st \<Rightarrow> bool"
  assumes filter_step: "rel st a \<Longrightarrow> - 32768 \<le> s - fst a \<Longrightarrow> s - fst a < 32768 \<Longrightarrow> q AND 0xffff = seq_of s \<Longrightarrow>
      \<exists>st'. step st q = Some (fst (window_spec (hl st) a s), st')
          \<and> rel st' (snd (window_spec (hl st) a s)) \<and> hl st' = hl st"
    and filter_first: "ready st \<Longrightarrow> q AND 0xffff = seq_of s \<Longrightarrow>
      \<exists>st'. step st q = Some (True, st') \<and> rel st' (s, {s}) \<and> hl st' = hl st"
    and filter_len: "rel st a \<Longrightarrow> hl st < 32768"
begin

lemma run_refines:
  assumes "rel st a" "near_run (hl st) a ss" "\<forall>n \<in> set ss. enc n AND 0xffff = seq_of n"
  shows "\<exists>st'. filter_run step enc st ss = Some (spec_run (hl st) a ss, st')"
  using assms
proof (induction ss arbitrary: st a)
  case (Cons s ss)
  obtain st' where st': "step st (enc s) = Some (fst (window_spec (hl st) a s), st')"
      "rel st' (snd (window_spec (hl st) a s))" "hl st' = hl st"
    using filter_step [OF Cons.prems(1), of s "enc s"] Cons.prems(2,3) by auto
  obtain st'' where "filter_run step enc st' ss = Some (spec_run (hl st) (snd (window_spec (hl st) a s)) ss, st'')"
    using Cons.IH [OF st'(2)] Cons.prems(2,3) st'(3) by auto
  with st' show ?case by simp
qed simp

lemma run_first:
  assumes "ready st" "near_run (hl st) (s0, {s0}) ss" "\<forall>n \<in> set (s0 # ss). enc n AND 0xffff = seq_of n"
  shows "\<exists>st'. filter_run step enc st (s0 # ss) = Some (s0 # spec_run (hl st) (s0, {s0}) ss, st')"
proof -
  obtain st' where st': "step st (enc s0) = Some (True, st')" "rel st' (s0, {s0})" "hl st' = hl st"
    using filter_first [OF assms(1), of "enc s0" s0] assms(3) by auto
  with run_refines [OF st'(2), of ss enc] assms(2,3) show ?thesis by auto
qed

lemma never_twice:
  assumes "ready st" "near_run (hl st) (s0, {s0}) ss" "\<forall>n \<in> set (s0 # ss). enc n AND 0xffff = seq_of n"
  shows "\<exists>acc st'. filter_run step enc st (s0 # ss) = Some (acc, st') \<and> distinct acc \<and> set acc \<subseteq> set (s0 # ss)"
proof -
  obtain st' where st': "filter_run step enc st (s0 # ss) = Some (s0 # spec_run (hl st) (s0, {s0}) ss, st')"
    using run_first [OF assms] by blast
  moreover have "distinct (s0 # spec_run (hl st) (s0, {s0}) ss)"
    using spec_run_distinct [of "hl st" "(s0, {s0})" ss] by auto
  moreover have "set (s0 # spec_run (hl st) (s0, {s0}) ss) \<subseteq> set (s0 # ss)"
    using spec_run_subset [of "hl st" "(s0, {s0})" ss] by auto
  ultimately show ?thesis by blast
qed

lemma exactly_once:
  assumes "ready st" "bounded_skew (hl st) s0 ss" "\<forall>n \<in> set (s0 # ss). enc n AND 0xffff = seq_of n"
  shows "\<exists>acc st'. filter_run step enc st (s0 # ss) = Some (acc, st') \<and> distinct acc \<and> set acc = set (s0 # ss)"
proof -
  have len: "hl st < 32768"
    using filter_first [OF assms(1), of "enc s0" s0] assms(3) filter_len by (metis list.set_intros(1))
  note b = bounded_skew_spec [OF assms(2) _ len, of "{s0}"]
  obtain st' where st': "filter_run step enc st (s0 # ss) = Some (s0 # spec_run (hl st) (s0, {s0}) ss, st')"
    using run_first [OF assms(1) b(1) assms(3)] by auto
  moreover have "distinct (s0 # spec_run (hl st) (s0, {s0}) ss)"
    using spec_run_distinct [of "hl st" "(s0, {s0})" ss] by auto
  moreover have "set (s0 # spec_run (hl st) (s0, {s0}) ss) = set (s0 # ss)"
    using b(2) by simp
  ultimately show ?thesis by blast
qed

end

section \<open>The vector and seamless algorithms are duplicate filters\<close>

definition rcvy_rel :: "SequenceRecovery \<Rightarrow> int \<times> int set \<Rightarrow> bool" where
  "rcvy_rel rec a \<longleftrightarrow> rcvy_wf rec \<and> win_rel (history_length rec) (window rec False) a"

definition rcvy_ready :: "SequenceRecovery \<Rightarrow> bool" where
  "rcvy_ready rec \<longleftrightarrow> rcvy_wf rec \<and> take_any rec \<and> history rec = replicate (nat (history_length rec)) 0"

lemma recover_refines:
  assumes "rcvy_rel rec a" and "- 32768 \<le> s - fst a" "s - fst a < 32768"
  shows "\<exists>rec'. recover rec (seq_of s) False = Some (fst (window_spec (history_length rec) a s), rec')
           \<and> rcvy_rel rec' (snd (window_spec (history_length rec) a s)) \<and> config rec' = config rec"
proof -
  have wf: "rcvy_wf rec" and rel: "win_rel (history_length rec) (window rec False) (fst a, snd a)"
    using assms(1) by (auto simp: rcvy_rel_def)
  have hl: "1 \<le> history_length rec" "history_length rec < 32768" using wf by (auto simp: rcvy_wf_def)
  obtain res where res: "recover rec (seq_of s) False = Some res" "recover_post rec (seq_of s) False res"
    using recover_result [OF wf] by blast
  note d = recover_postD [OF res(2)]
  note r = wstep_refines [OF hl rel assms(2,3)]
  have "history_length (snd res) = history_length rec" by (rule configD(1) [OF d(4)])
  hence "rcvy_rel (snd res) (snd (window_spec (history_length rec) a s))"
    using recover_post_wf [OF wf res(2)] r(2) d(2) by (simp add: rcvy_rel_def)
  with res(1) d(1,4) r(1) show ?thesis by (intro exI [of _ "snd res"]) (simp add: prod_eq_iff)
qed

lemma recover_first:
  assumes "rcvy_ready rec"
  shows "\<exists>rec'. recover rec (seq_of s) False = Some (True, rec') \<and> rcvy_rel rec' (s, {s}) \<and> config rec' = config rec"
proof -
  have wf: "rcvy_wf rec" and any: "take_any rec"
    and h: "history rec = replicate (nat (history_length rec)) 0" using assms by (auto simp: rcvy_ready_def)
  have hl: "1 \<le> history_length rec" using wf by (simp add: rcvy_wf_def)
  obtain res where res: "recover rec (seq_of s) False = Some res" "recover_post rec (seq_of s) False res"
    using recover_result [OF wf] by blast
  note d = recover_postD [OF res(2)]
  have ws: "wstep (history_length rec) (window rec False) (seq_of s)
      = (True, seq_of s, False, (replicate (nat (history_length rec)) 0)[0 := 1])"
    using any h by (simp add: wstep_def window_def)
  have "history_length (snd res) = history_length rec" by (rule configD(1) [OF d(4)])
  moreover have "win_rel (history_length rec)
      (seq_of s, False, (replicate (nat (history_length rec)) 0)[0 := 1]) (s, {s})"
    using hl by (auto simp: win_rel_def nth_list_update)
  ultimately have "rcvy_rel (snd res) (s, {s})"
    using recover_post_wf [OF wf res(2)] d(2) ws by (simp add: rcvy_rel_def)
  with res(1) d(1,4) ws show ?thesis by (intro exI [of _ "snd res"]) (simp add: prod_eq_iff)
qed

interpretation vec: duplicate_filter vector_seq_recovery rcvy_rel history_length rcvy_ready
proof
  fix st :: SequenceRecovery and a s q
  show "rcvy_rel st a \<Longrightarrow> history_length st < 32768" by (simp add: rcvy_rel_def rcvy_wf_def)
  assume q: "q AND 0xffff = seq_of s"
  show "\<exists>st'. vector_seq_recovery st q = Some (fst (window_spec (history_length st) a s), st')
      \<and> rcvy_rel st' (snd (window_spec (history_length st) a s)) \<and> history_length st' = history_length st"
    if "rcvy_rel st a" "- 32768 \<le> s - fst a" "s - fst a < 32768"
    unfolding vector_seq_recovery_def q using recover_refines [OF that] configD(1) by blast
  show "\<exists>st'. vector_seq_recovery st q = Some (True, st') \<and> rcvy_rel st' (s, {s})
      \<and> history_length st' = history_length st" if "rcvy_ready st"
    unfolding vector_seq_recovery_def q using recover_first [OF that, of s] configD(1) by blast
qed

text \<open>With the reset flag switched off the seamless algorithm is the plain vector one.\<close>

lemma seamless_plain:
  "\<not> use_reset_flag rec \<Longrightarrow> seamless_seq_recovery rec q = recover rec (q AND 0xffff) False"
  by (simp add: seamless_seq_recovery_def Let_def)

interpretation seam: duplicate_filter seamless_seq_recovery
  "\<lambda>rec a. rcvy_rel rec a \<and> \<not> use_reset_flag rec" history_length "\<lambda>rec. rcvy_ready rec \<and> \<not> use_reset_flag rec"
proof
  fix st :: SequenceRecovery and a s q
  show "rcvy_rel st a \<and> \<not> use_reset_flag st \<Longrightarrow> history_length st < 32768"
    by (simp add: rcvy_rel_def rcvy_wf_def)
  assume q: "q AND 0xffff = seq_of s"
  show "\<exists>st'. seamless_seq_recovery st q = Some (fst (window_spec (history_length st) a s), st')
      \<and> (rcvy_rel st' (snd (window_spec (history_length st) a s)) \<and> \<not> use_reset_flag st')
      \<and> history_length st' = history_length st"
    if r: "rcvy_rel st a \<and> \<not> use_reset_flag st" "- 32768 \<le> s - fst a" "s - fst a < 32768"
    unfolding seamless_plain [OF conjunct2 [OF r(1)]] q
    using recover_refines [OF conjunct1 [OF r(1)] r(2,3)] configD(1,4) r(1) by blast
  show "\<exists>st'. seamless_seq_recovery st q = Some (True, st') \<and> (rcvy_rel st' (s, {s}) \<and> \<not> use_reset_flag st')
      \<and> history_length st' = history_length st" if r: "rcvy_ready st \<and> \<not> use_reset_flag st"
    unfolding seamless_plain [OF conjunct2 [OF r]] q
    using recover_first [OF conjunct1 [OF r], of s] configD(1,4) r by blast
qed

lemma new_seq_rec_ready:
  assumes "1 \<le> uint n" "uint n < 32768"
  shows "rcvy_ready (new_seq_rec algo r i n msec d)"
proof -
  have "sint n = uint n" using assms by (intro sint_eq_uint_small) simp
  thus ?thesis using assms
    by (simp add: rcvy_ready_def rcvy_wf_def new_seq_rec_def reset_ticks_def)
qed

lemma vector_reset_ready:
  assumes "rcvy_wf rec" "algorithm rec = RCVY_Vector"
  shows "\<exists>ev rec'. seq_recovery_reset rec = Some (ev, rec') \<and> rcvy_ready rec'"
  using assms by (auto simp: seq_recovery_reset_def vector_seq_recovery_reset_def clear_history_def
      mem_write_def rcvy_wf_def rcvy_ready_def Let_def)

text \<open>
  C2: Vector recovery never lets a packet through twice: fed from a fresh or reset state with any
  sequence of packets that stay within half the sequence space of the highest number passed, it
  always returns, and the packets it passes are pairwise different.
\<close>

theorem vector_recovery_never_twice:
  assumes "rcvy_ready rec" and "near_run (history_length rec) (s0, {s0}) ss"
    and "\<forall>n \<in> set (s0 # ss). enc n AND 0xffff = seq_of n"
  shows "\<exists>acc rec'. filter_run vector_seq_recovery enc rec (s0 # ss) = Some (acc, rec')
           \<and> distinct acc \<and> set acc \<subseteq> set (s0 # ss)"
  using assms by (rule vec.never_twice)

definition sample_rcvy :: "SequenceRecoveryAlgorithm \<Rightarrow> bool \<Rightarrow> SequenceRecovery" where
  "sample_rcvy algo reset = new_seq_rec algo reset False 4 10 zero_diag"

lemma sample_rcvy_ready: "rcvy_ready (sample_rcvy algo reset)"
  unfolding sample_rcvy_def by (rule new_seq_rec_ready) simp_all

lemma sample_rcvy_length: "history_length (sample_rcvy algo reset) = 4"
  by (simp add: sample_rcvy_def new_seq_rec_def reset_ticks_def)

theorem vector_recovery_never_twice_witness:
  "\<exists>acc rec'. filter_run vector_seq_recovery seq_of (sample_rcvy RCVY_Vector False)
      [65534, 65536, 65535, 65534, 65536, 70000, 65537] = Some (acc, rec') \<and> distinct acc"
proof -
  have "near_run 4 (65534, {65534}) [65536, 65535, 65534, 65536, 70000, 65537]"
    by (simp add: window_spec_def)
  with vector_recovery_never_twice [OF sample_rcvy_ready, of RCVY_Vector False 65534
      "[65536, 65535, 65534, 65536, 70000, 65537]" seq_of]
  show ?thesis unfolding sample_rcvy_length by (auto simp: seq_of_and)
qed

section \<open>Match recovery\<close>

abbreviation match_step :: "SequenceRecovery \<Rightarrow> u32 \<Rightarrow> (bool \<times> SequenceRecovery) option" where
  "match_step rec q \<equiv> Some (match_seq_recovery rec q)"

lemma seq_of_eq_iff: "seq_of a = seq_of b \<longleftrightarrow> a mod 65536 = b mod 65536"
  by (metis uint_seq_of word_uint_eq_iff)

lemma seq_of_diff_zero: "((seq_of a - seq_of b) AND 0xffff = 0) = (seq_of a = seq_of b)"
proof -
  have "uint ((seq_of a - seq_of b) AND 0xffff) = (a mod 65536 - b mod 65536) mod 65536"
    by (simp add: uint_and and_65535 uint_word_ariths uint_seq_of mod_mod_cancel)
  hence "((seq_of a - seq_of b) AND 0xffff = 0) = ((a mod 65536 - b mod 65536) mod 65536 = 0)"
    by (simp only: word_uint_eq_iff [of _ 0] unsigned_0)
  also have "\<dots> = (a mod 65536 = b mod 65536)"
    unfolding mod_diff_eq mod_eq_0_iff_dvd mod_eq_dvd_iff ..
  finally show ?thesis by (simp add: seq_of_eq_iff)
qed

lemma match_step_result:
  assumes "q AND 0xffff = seq_of s" and "\<not> take_any rec" and "recv_seq rec = seq_of b"
  shows "\<exists>rec'. match_seq_recovery rec q = (s mod 65536 \<noteq> b mod 65536, rec') \<and> \<not> take_any rec'
           \<and> recv_seq rec' = seq_of (if s mod 65536 = b mod 65536 then b else s)"
  using assms seq_of_diff_zero [of s b]
  by (auto simp: match_seq_recovery_def Let_def reset_ticks_def seq_of_eq_iff)

lemma match_run_from:
  assumes "\<not> take_any rec" "recv_seq rec = seq_of b" "\<forall>n \<in> set ss. enc n AND 0xffff = seq_of n"
  shows "\<exists>acc rec'. filter_run match_step enc rec ss = Some (acc, rec')
           \<and> (b mod 65536) # map (\<lambda>s. s mod 65536) acc = remdups_adj (map (\<lambda>s. s mod 65536) (b # ss))"
  using assms
proof (induction ss arbitrary: rec b)
  case (Cons s ss)
  obtain r1 where r1: "match_seq_recovery rec (enc s) = (s mod 65536 \<noteq> b mod 65536, r1)" "\<not> take_any r1"
      "recv_seq r1 = seq_of (if s mod 65536 = b mod 65536 then b else s)"
    using match_step_result [of "enc s" s rec b] Cons.prems by auto
  let ?b = "if s mod 65536 = b mod 65536 then b else s"
  obtain acc rec' where run: "filter_run match_step enc r1 ss = Some (acc, rec')"
      "(?b mod 65536) # map (\<lambda>s. s mod 65536) acc = remdups_adj (map (\<lambda>s. s mod 65536) (?b # ss))"
    using Cons.IH [OF r1(2,3)] Cons.prems(3) by (meson list.set_intros(2))
  have f: "filter_run match_step enc rec (s # ss)
      = Some (if s mod 65536 \<noteq> b mod 65536 then s # acc else acc, rec')"
    by (simp only: filter_run.simps r1(1) run(1) bind.bind_lunit prod.case option.simps Option.bind_lunit)
  show ?case
  proof (cases "s mod 65536 = b mod 65536")
    case True
    have "filter_run match_step enc rec (s # ss) = Some (acc, rec')"
      unfolding f using True by (simp only: simp_thms if_False)
    moreover have "(b mod 65536) # map (\<lambda>s. s mod 65536) acc
        = remdups_adj (map (\<lambda>s. s mod 65536) (b # s # ss))"
      using run(2) unfolding if_P [OF True] list.map True by (simp only: remdups_adj.simps(3) if_True simp_thms)
    ultimately show ?thesis by blast
  next
    case False
    have "filter_run match_step enc rec (s # ss) = Some (s # acc, rec')"
      unfolding f using False by (simp only: simp_thms if_True not_False_eq_True)
    moreover have "(b mod 65536) # map (\<lambda>s. s mod 65536) (s # acc)
        = remdups_adj (map (\<lambda>s. s mod 65536) (b # s # ss))"
      using run(2) False [symmetric] unfolding if_not_P [OF False] list.map
      by (simp only: remdups_adj.simps(3) if_False simp_thms)
    ultimately show ?thesis by blast
  qed
qed simp

text \<open>
  C26: Match recovery removes exactly the repetitions that follow each other: from a fresh or reset
  state, the 16-bit numbers of the packets it passes are those of the arrivals with adjacent
  duplicates removed.
\<close>

theorem match_recovery_adjacent:
  assumes "take_any rec" and "\<forall>n \<in> set (s0 # ss). enc n AND 0xffff = seq_of n"
  shows "\<exists>acc rec'. filter_run match_step enc rec (s0 # ss) = Some (acc, rec')
           \<and> map (\<lambda>s. s mod 65536) acc = remdups_adj (map (\<lambda>s. s mod 65536) (s0 # ss))"
proof -
  obtain r1 where r1: "match_seq_recovery rec (enc s0) = (True, r1)" "\<not> take_any r1" "recv_seq r1 = seq_of s0"
    using assms by (auto simp: match_seq_recovery_def reset_ticks_def)
  obtain acc rec' where "filter_run match_step enc r1 ss = Some (acc, rec')"
      "(s0 mod 65536) # map (\<lambda>s. s mod 65536) acc = remdups_adj (map (\<lambda>s. s mod 65536) (s0 # ss))"
    using match_run_from [OF r1(2,3), of ss enc] assms(2) by auto
  with r1(1) show ?thesis by auto
qed

theorem match_recovery_adjacent_witness:
  "\<exists>acc rec'. filter_run match_step seq_of (sample_rcvy RCVY_Match False) [7, 7, 8, 7, 7] = Some (acc, rec')
     \<and> map (\<lambda>s. s mod 65536) acc = [7, 8, 7]"
proof -
  have "take_any (sample_rcvy RCVY_Match False)"
    by (simp add: sample_rcvy_def new_seq_rec_def reset_ticks_def)
  from match_recovery_adjacent [OF this, of 7 "[7, 8, 7, 7]" seq_of] show ?thesis
    by (simp add: seq_of_and)
qed

end
