(* ===== verification/Recovery_Life.thy ===== *)
theory Recovery_Life
  imports Recovery_Window
begin

text \<open>
  The recovery object over its life: every packet is counted exactly once, no sequence of packets,
  timer ticks and mask signals leads to an access outside the histories or to a division by zero,
  the reset timer fires exactly after the configured number of ticks, the mask signals keep the
  number of expected paths in step with the masked inputs, and what a seamless reset does.
\<close>

section \<open>Every packet is counted once\<close>

text \<open>
  The interface of a filter that keeps statistics: on states that satisfy its invariant a step
  returns and counts the packet as passed or as discarded.
\<close>

locale counting_filter =
  fixes step :: "'st \<Rightarrow> u32 \<Rightarrow> (bool \<times> 'st) option"
    and inv :: "'st \<Rightarrow> bool"
    and passed :: "'st \<Rightarrow> int"
    and discarded :: "'st \<Rightarrow> int"
  assumes count_step: "inv st \<Longrightarrow> \<exists>ok st'. step st q = Some (ok, st') \<and> inv st'
      \<and> passed st' = passed st + of_bool ok \<and> discarded st' = discarded st + of_bool (\<not> ok)"
begin

lemma run_counts:
  assumes "inv st"
  shows "\<exists>acc st'. filter_run step enc st ss = Some (acc, st') \<and> inv st'
           \<and> passed st' = passed st + int (length acc)
           \<and> discarded st' = discarded st + int (length ss - length acc) \<and> length acc \<le> length ss"
  using assms
proof (induction ss arbitrary: st)
  case (Cons s ss)
  obtain ok st1 where st1: "step st (enc s) = Some (ok, st1)" "inv st1"
      "passed st1 = passed st + of_bool ok" "discarded st1 = discarded st + of_bool (\<not> ok)"
    using count_step [OF Cons.prems] by blast
  obtain acc st2 where st2: "filter_run step enc st1 ss = Some (acc, st2)" "inv st2"
      "passed st2 = passed st1 + int (length acc)"
      "discarded st2 = discarded st1 + int (length ss - length acc)" "length acc \<le> length ss"
    using Cons.IH [OF st1(2)] by blast
  have "filter_run step enc st (s # ss) = Some (if ok then s # acc else acc, st2)"
    by (simp add: st1(1) st2(1))
  with st1 st2 show ?case by (cases ok) (auto simp: Suc_diff_le)
qed simp

end

text \<open>A recovery whose arrays are in order; match recovery does not use them.\<close>

definition rcvy_inv :: "SequenceRecovery \<Rightarrow> bool" where
  "rcvy_inv rec \<longleftrightarrow> algorithm rec = RCVY_Match \<or> rcvy_wf rec"

lemma recover_counts:
  assumes "rcvy_wf rec"
  shows "\<exists>ok rec'. recover rec s init = Some (ok, rec') \<and> rcvy_wf rec' \<and> config rec' = config rec
           \<and> passed_packets rec' = passed_packets rec + of_bool ok
           \<and> discarded_packets rec' = discarded_packets rec + of_bool (\<not> ok)"
proof -
  obtain res where res: "recover rec s init = Some res" "recover_post rec s init res"
    using recover_result [OF assms] by blast
  with recover_postD [OF res(2)] recover_post_wf [OF assms res(2)] show ?thesis
    by (metis prod.collapse)
qed

lemma rcvy_wf_take_any [simp]:
  "rcvy_wf (rec\<lparr>take_any := b\<rparr>) = rcvy_wf rec" "rcvy_wf (rec\<lparr>init_take_any := b\<rparr>) = rcvy_wf rec"
  by (simp_all add: rcvy_wf_def)

lemma config_take_any [simp]:
  "config (rec\<lparr>take_any := b\<rparr>) = config rec" "config (rec\<lparr>init_take_any := b\<rparr>) = config rec"
  by (simp_all add: config_def)

text \<open>The seamless algorithm runs \<open>recover\<close> on the recovery with take-any flags set.\<close>

lemma seamless_recover:
  "\<exists>rec1 init. seamless_seq_recovery rec q = recover rec1 (q AND 0xffff) init
     \<and> rcvy_wf rec1 = rcvy_wf rec \<and> config rec1 = config rec
     \<and> passed_packets rec1 = passed_packets rec \<and> discarded_packets rec1 = discarded_packets rec"
proof (cases "use_reset_flag rec \<and> use_init_flag rec \<and> (q AND 0xffff0000) AND FRER_INIT_FLAG \<noteq> 0")
  case True
  have "\<exists>rec1. seamless_seq_recovery rec q = recover rec1 (q AND 0xffff) True
     \<and> rec1 \<in> {rec, rec\<lparr>init_take_any := True\<rparr>, rec\<lparr>take_any := True\<rparr>, rec\<lparr>init_take_any := True, take_any := True\<rparr>}"
    unfolding seamless_seq_recovery_def Let_def if_P [OF True] by (rule exI, rule conjI, rule refl) simp
  thus ?thesis by (elim exE conjE insertE) auto
next
  case False
  have "\<exists>rec1. seamless_seq_recovery rec q = recover rec1 (q AND 0xffff) False
     \<and> rec1 \<in> {rec, rec\<lparr>take_any := True\<rparr>}"
    unfolding seamless_seq_recovery_def Let_def if_not_P [OF False] by (rule exI, rule conjI, rule refl) simp
  thus ?thesis by (elim exE conjE insertE) auto
qed

lemma seamless_counts:
  assumes "rcvy_wf rec"
  shows "\<exists>ok rec'. seamless_seq_recovery rec q = Some (ok, rec') \<and> rcvy_wf rec' \<and> config rec' = config rec
           \<and> passed_packets rec' = passed_packets rec + of_bool ok
           \<and> discarded_packets rec' = discarded_packets rec + of_bool (\<not> ok)"
proof -
  obtain rec1 init where r: "seamless_seq_recovery rec q = recover rec1 (q AND 0xffff) init"
      "rcvy_wf rec1" "config rec1 = config rec" "passed_packets rec1 = passed_packets rec"
      "discarded_packets rec1 = discarded_packets rec"
    using seamless_recover [of rec q] assms by blast
  show ?thesis using recover_counts [OF r(2), of "q AND 0xffff" init] unfolding r(1,3,4,5) .
qed

lemma match_counts:
  "\<exists>ok rec'. match_seq_recovery rec q = (ok, rec') \<and> config rec' = config rec
     \<and> passed_packets rec' = passed_packets rec + of_bool ok
     \<and> discarded_packets rec' = discarded_packets rec + of_bool (\<not> ok)"
  by (auto simp: match_seq_recovery_def Let_def config_def reset_ticks_def)

text \<open>A step of the object: the packet handler with the tag of the packet as its input.\<close>

definition recovery_step :: "Packet \<Rightarrow> SequenceRecovery \<Rightarrow> u32 \<Rightarrow> (bool \<times> SequenceRecovery) option" where
  "recovery_step p rec q =
     map_option (\<lambda>(r, rec'). (r = ACR_CONTINUE, rec')) (seq_recovery rec (p\<lparr>sequence := htonl q\<rparr>))"

lemma recovery_step_cases:
  "recovery_step p rec q = (case algorithm rec of
      RCVY_Vector \<Rightarrow> vector_seq_recovery rec q
    | RCVY_SeamlessVector \<Rightarrow> seamless_seq_recovery rec q
    | RCVY_Match \<Rightarrow> Some (match_seq_recovery rec q))"
proof -
  have "ntohl (htonl q) = q" by (simp add: byte_order)
  thus ?thesis
    by (auto simp: recovery_step_def seq_recovery_def Let_def map_option_case
        split: SequenceRecoveryAlgorithm.splits option.splits prod.splits Option.bind_splits)
qed

lemma recovery_step_counts:
  assumes "rcvy_inv rec"
  shows "\<exists>ok rec'. recovery_step p rec q = Some (ok, rec') \<and> rcvy_inv rec' \<and> config rec' = config rec
           \<and> passed_packets rec' = passed_packets rec + of_bool ok
           \<and> discarded_packets rec' = discarded_packets rec + of_bool (\<not> ok)"
proof (cases "algorithm rec")
  case RCVY_Match
  obtain ok rec' where m: "match_seq_recovery rec q = (ok, rec')" "config rec' = config rec"
      "passed_packets rec' = passed_packets rec + of_bool ok"
      "discarded_packets rec' = discarded_packets rec + of_bool (\<not> ok)"
    using match_counts [of rec q] by blast
  have "rcvy_inv rec'" using configD(2) [OF m(2)] RCVY_Match by (simp add: rcvy_inv_def)
  with m RCVY_Match show ?thesis by (simp add: recovery_step_cases)
next
  case RCVY_Vector
  hence wf: "rcvy_wf rec" using assms by (simp add: rcvy_inv_def)
  from recover_counts [OF wf, of "q AND 0xffff" False] RCVY_Vector show ?thesis
    by (auto simp: recovery_step_cases vector_seq_recovery_def rcvy_inv_def)
next
  case RCVY_SeamlessVector
  hence wf: "rcvy_wf rec" using assms by (simp add: rcvy_inv_def)
  from seamless_counts [OF wf, of q] RCVY_SeamlessVector show ?thesis
    by (auto simp: recovery_step_cases rcvy_inv_def)
qed

interpretation rcount: counting_filter "recovery_step p" rcvy_inv passed_packets discarded_packets
  for p
  using recovery_step_counts by unfold_locales blast



section \<open>No operation leaves the defined behaviour\<close>

lemma recovery_diagnostic_defined:
  assumes "1 < latent_error_paths rec"
  shows "\<exists>ev rec'. recovery_diagnostic rec = Some (ev, rec')
     \<and> algorithm rec' = algorithm rec \<and> rcvy_wf rec' = rcvy_wf rec \<and> remaining_ticks rec' = remaining_ticks rec
     \<and> oam_session_id rec' = oam_session_id rec \<and> reset_msec rec' = reset_msec rec
     \<and> take_any rec' = take_any rec \<and> EV_RECOVERY_RESET \<notin> set ev"
proof -
  have nz: "(latent_error_paths rec - 1) * (passed_packets rec - passed_packets_last rec) \<noteq> 0"
    if "passed_packets rec - passed_packets_last rec \<noteq> 0" using that assms by simp
  have ev: "disfunction_events rec x y z \<noteq> EV_RECOVERY_RESET" for x y z
    by (simp add: disfunction_events_def Let_def)
  show ?thesis
    using nz ev [symmetric]
    by (simp add: recovery_diagnostic_def cdiv_def Let_def update_last_def rcvy_wf_def split: if_splits)
qed

text \<open>What the periodic part of the reset thread leaves alone.\<close>

definition tick_frame :: "SequenceRecovery \<Rightarrow> SequenceRecovery \<Rightarrow> bool" where
  "tick_frame rec rec' \<longleftrightarrow> algorithm rec' = algorithm rec \<and> rcvy_wf rec' = rcvy_wf rec
     \<and> remaining_ticks rec' = remaining_ticks rec \<and> oam_session_id rec' = oam_session_id rec
     \<and> reset_msec rec' = reset_msec rec \<and> take_any rec' = take_any rec"

lemma latent_error_test_defined:
  "\<exists>ev rec'. latent_error_test rec = Some (ev, rec') \<and> tick_frame rec rec' \<and> EV_RECOVERY_RESET \<notin> set ev"
proof (cases "latent_error_paths rec > 1 \<and> latent_error_period (diag rec) > 0")
  case True
  define rec1 where "rec1 = (let diff = cur_base_difference rec - base_difference rec;
      diff' = (if diff < 0 then - diff else diff)
    in if diff' > latent_error_difference (diag rec) then rec\<lparr>latent_errors := latent_errors rec + 1\<rparr> else rec)"
  have r1: "latent_error_paths rec1 = latent_error_paths rec" "tick_frame rec rec1"
    by (auto simp: rec1_def tick_frame_def rcvy_wf_def Let_def)
  have "latent_error_test rec = recovery_diagnostic rec1"
    using True by (simp add: latent_error_test_def rec1_def Let_def)
  with recovery_diagnostic_defined [of rec1] r1 True show ?thesis by (auto simp: tick_frame_def)
next
  case False
  hence "latent_error_test rec = Some ([], rec)" by (auto simp: latent_error_test_def Let_def)
  thus ?thesis by (simp add: tick_frame_def)
qed

lemma latent_counters_defined:
  "\<exists>ev rec'. latent_counters rec = Some (ev, rec') \<and> tick_frame rec rec' \<and> EV_RECOVERY_RESET \<notin> set ev"
proof -
  define rec1 where "rec1 = rec\<lparr>latent_reset_counter := latent_reset_counter rec + 1\<rparr>"
  define rec2 where "rec2 = (if latent_reset_period (diag rec1) \<noteq> 0
      \<and> latent_reset_counter rec1 \<ge> latent_reset_period (diag rec1)
    then (latent_error_reset rec1)\<lparr>latent_reset_counter := 0\<rparr> else rec1)"
  define rec3 where "rec3 = rec2\<lparr>latent_error_counter := latent_error_counter rec2 + 1\<rparr>"
  have f3: "tick_frame rec rec3"
    by (simp add: rec3_def rec2_def rec1_def tick_frame_def latent_error_reset_def rcvy_wf_def)
  have eq: "latent_counters rec = (if latent_error_counter rec3 \<ge> latent_error_period (diag rec3)
         then do { (evs, rec4) \<leftarrow> latent_error_test rec3; Some (evs, rec4\<lparr>latent_error_counter := 0\<rparr>) }
         else Some ([], rec3))"
    unfolding latent_counters_def Let_def rec3_def rec2_def rec1_def ..
  obtain ev rec4 where t: "latent_error_test rec3 = Some (ev, rec4)" "tick_frame rec3 rec4" "EV_RECOVERY_RESET \<notin> set ev"
    using latent_error_test_defined by blast
  have "tick_frame rec (rec4\<lparr>latent_error_counter := 0\<rparr>)"
    using f3 t(2) by (simp add: tick_frame_def rcvy_wf_def)
  with eq t f3 show ?thesis by simp
qed

lemma seq_recovery_reset_defined:
  assumes "rcvy_inv rec"
  shows "\<exists>rec'. seq_recovery_reset rec = Some ([EV_RECOVERY_RESET], rec') \<and> rcvy_inv rec'
           \<and> take_any rec' \<and> remaining_ticks rec' = remaining_ticks rec \<and> reset_msec rec' = reset_msec rec
           \<and> oam_session_id rec' = oam_session_id rec"
  using assms
  by (cases "algorithm rec") (auto simp: seq_recovery_reset_def vector_seq_recovery_reset_def
      seamless_seq_recovery_reset_def clear_history_def mem_write_def rcvy_wf_def rcvy_inv_def Let_def)

text \<open>One tick: what it returns, and when it resets the recovery.\<close>

lemma reset_thread_tick_result:
  assumes "rcvy_inv rec"
  shows "remaining_ticks rec = 1 \<and> oam_session_id rec \<noteq> None \<and> reset_thread_tick rec = Some THREAD_EXIT \<or>
         (\<exists>ev rec'. reset_thread_tick rec = Some (THREAD_RUN ev rec') \<and> rcvy_inv rec'
            \<and> remaining_ticks rec' = (if remaining_ticks rec = 0 then 0 else remaining_ticks rec - 1)
            \<and> reset_msec rec' = reset_msec rec \<and> oam_session_id rec' = oam_session_id rec
            \<and> (EV_RECOVERY_RESET \<in> set ev) = (remaining_ticks rec = 1)
            \<and> (if remaining_ticks rec = 1 then take_any rec' else take_any rec' = take_any rec))"
proof -
  define rec1 where "rec1 = snd (decrement_ticks rec)"
  have d: "decrement_ticks rec = (remaining_ticks rec = 1, rec1)"
      "remaining_ticks rec1 = (if remaining_ticks rec = 0 then 0 else remaining_ticks rec - 1)"
      "rcvy_inv rec1" "reset_msec rec1 = reset_msec rec" "oam_session_id rec1 = oam_session_id rec"
      "take_any rec1 = take_any rec"
    using assms by (auto simp: rec1_def decrement_ticks_def rcvy_inv_def rcvy_wf_def Let_def)
  show ?thesis
  proof (cases "remaining_ticks rec = 1")
    case True
    obtain rec2 where r2: "seq_recovery_reset rec1 = Some ([EV_RECOVERY_RESET], rec2)" "rcvy_inv rec2"
        "take_any rec2" "remaining_ticks rec2 = remaining_ticks rec1" "reset_msec rec2 = reset_msec rec1"
        "oam_session_id rec2 = oam_session_id rec1"
      using seq_recovery_reset_defined [OF d(3)] by blast
    obtain ev rec3 where r3: "latent_counters rec2 = Some (ev, rec3)" "tick_frame rec2 rec3"
      using latent_counters_defined by blast
    show ?thesis
      using True d r2 r3 by (cases "oam_session_id rec") (auto simp: reset_thread_tick_def tick_frame_def rcvy_inv_def)
  next
    case False
    obtain ev rec3 where r3: "latent_counters rec1 = Some (ev, rec3)" "tick_frame rec1 rec3" "EV_RECOVERY_RESET \<notin> set ev"
      using latent_counters_defined by blast
    show ?thesis
      using False d r3 by (auto simp: reset_thread_tick_def tick_frame_def rcvy_inv_def)
  qed
qed

text \<open>
  The life of a recovery object: packets, ticks of its reset thread, mask and unmask signals and the
  registration of its automatic maintenance points, in any order.
\<close>

inductive rcvy_life :: "SequenceRecovery \<Rightarrow> SequenceRecovery \<Rightarrow> bool" where
  life_packet: "seq_recovery rec p = Some (r, rec') \<Longrightarrow> rcvy_life rec rec'"
| life_tick: "reset_thread_tick rec = Some (THREAD_RUN ev rec') \<Longrightarrow> rcvy_life rec rec'"
| life_mask: "seq_rec_path_masked rec mip = (b, ev, rec') \<Longrightarrow> rcvy_life rec rec'"
| life_unmask: "seq_rec_path_unmasked rec mip = (b, ev, rec') \<Longrightarrow> rcvy_life rec rec'"
| life_pre: "rcvy_life rec (seq_rec_register_preAutoMIP rec mip)"
| life_post: "rcvy_life rec (seq_rec_register_postAutoMIP rec mip)"

lemma seq_recovery_step:
  "map_option (\<lambda>(r, rec'). (r = ACR_CONTINUE, rec')) (seq_recovery rec p)
     = recovery_step p rec (ntohl (sequence p))"
  by (simp add: recovery_step_def)

lemma seq_recovery_defined:
  assumes "rcvy_inv rec"
  shows "\<exists>r rec'. seq_recovery rec p = Some (r, rec') \<and> rcvy_inv rec'"
proof -
  obtain ok rec' where "recovery_step p rec (ntohl (sequence p)) = Some (ok, rec')" "rcvy_inv rec'"
    using recovery_step_counts [OF assms] by blast
  thus ?thesis
    unfolding seq_recovery_step [symmetric] by (auto simp: map_option_case split: option.splits)
qed

lemma rcvy_inv_mask:
  "seq_rec_path_masked rec mip = (b, ev, rec') \<Longrightarrow> rcvy_inv rec \<Longrightarrow> rcvy_inv rec'"
  "seq_rec_path_unmasked rec mip = (b, ev, rec') \<Longrightarrow> rcvy_inv rec \<Longrightarrow> rcvy_inv rec'"
  "rcvy_inv rec \<Longrightarrow> rcvy_inv (seq_rec_register_preAutoMIP rec mip)"
  "rcvy_inv rec \<Longrightarrow> rcvy_inv (seq_rec_register_postAutoMIP rec mip)"
  by (auto simp: seq_rec_path_masked_def seq_rec_path_unmasked_def latent_error_reset_def rcvy_inv_def
      rcvy_wf_def Let_def seq_rec_register_preAutoMIP_def seq_rec_register_postAutoMIP_def
      split: option.splits if_splits)

lemma rcvy_life_inv: "rcvy_life rec rec' \<Longrightarrow> rcvy_inv rec \<Longrightarrow> rcvy_inv rec'"
proof (induction rule: rcvy_life.induct)
  case (life_packet rec p r rec')
  thus ?case using seq_recovery_defined [of rec p] by auto
next
  case (life_tick rec ev rec')
  thus ?case using reset_thread_tick_result [of rec] by auto
qed (auto intro: rcvy_inv_mask)

lemma rcvy_lives_inv: "rcvy_life\<^sup>*\<^sup>* rec rec' \<Longrightarrow> rcvy_inv rec \<Longrightarrow> rcvy_inv rec'"
  by (induction rule: rtranclp_induct) (auto intro: rcvy_life_inv)

text \<open>
  C5: A recovery object with a history length from 1 to 32767 never leaves the defined behaviour:
  after any sequence of packets, timer ticks, mask signals and registrations, the handler of the next
  packet returns (no access outside the history arrays) and the next tick of the reset thread returns
  (no division by zero in the diagnostics, no access outside the histories on a reset).
\<close>

theorem recovery_memory_safe:
  assumes "1 \<le> uint n" "uint n < 32768" and "rcvy_life\<^sup>*\<^sup>* (new_seq_rec algo r i n msec d) rec"
  shows "(\<exists>res rec'. seq_recovery rec p = Some (res, rec')) \<and> (\<exists>t. reset_thread_tick rec = Some t)"
proof -
  have "rcvy_inv (new_seq_rec algo r i n msec d)"
    using new_seq_rec_ready [OF assms(1,2)] by (simp add: rcvy_inv_def rcvy_ready_def)
  hence "rcvy_inv rec" using rcvy_lives_inv [OF assms(3)] by blast
  thus ?thesis using seq_recovery_defined [of rec p] reset_thread_tick_result [of rec] by blast
qed

theorem recovery_memory_safe_witness:
  "(\<exists>res rec'. seq_recovery (seq_rec_register_preAutoMIP (sample_rcvy RCVY_Vector False) ''a'') sample_packet
      = Some (res, rec')) \<and>
   (\<exists>t. reset_thread_tick (seq_rec_register_preAutoMIP (sample_rcvy RCVY_Vector False) ''a'') = Some t)"
proof -
  have "rcvy_life\<^sup>*\<^sup>* (new_seq_rec RCVY_Vector False False 4 10 zero_diag)
          (seq_rec_register_preAutoMIP (sample_rcvy RCVY_Vector False) ''a'')"
    unfolding sample_rcvy_def by (rule r_into_rtranclp, rule life_pre)
  from recovery_memory_safe [OF _ _ this] show ?thesis by simp
qed

text \<open>The bound is needed: with an empty history the first packet is written outside of it.\<close>

lemma empty_history_unsafe: "seq_recovery (new_seq_rec RCVY_Vector r i 0 msec d) p = None"
  by (simp add: seq_recovery_def new_seq_rec_def reset_ticks_def vector_seq_recovery_def recover_def
      window_def iset_def aset_def)

section \<open>The reset timer\<close>

text \<open>The timer value in milliseconds is taken over unless its product with 1000 wraps.\<close>

lemma reset_ticks_value:
  assumes "uint (reset_msec rec) \<le> 4294966"
  shows "remaining_ticks (reset_ticks rec) = uint (reset_msec rec)"
proof -
  let ?m = "uint (reset_msec rec)"
  have "uint (reset_msec rec * FRER_TICKS_PER_SEC + 999) = ?m * 1000 + 999"
    using assms uint_ge_0 [of "reset_msec rec"] by (simp add: uint_word_ariths frer_consts)
  hence u: "uint ((reset_msec rec * FRER_TICKS_PER_SEC + 999) div 1000) = (?m * 1000 + 999) div 1000"
    by (simp add: uint_div)
  have v: "(?m * 1000 + 999) div 1000 = ?m" by simp
  have "sint ((reset_msec rec * FRER_TICKS_PER_SEC + 999) div 1000)
          = uint ((reset_msec rec * FRER_TICKS_PER_SEC + 999) div 1000)"
    using u v assms by (intro sint_eq_uint_small) simp
  thus ?thesis using u v by (simp add: reset_ticks_def)
qed

lemma reset_ticks_wraps: "reset_msec rec = 4294968 \<Longrightarrow> remaining_ticks (reset_ticks rec) = 1"
  by (simp add: reset_ticks_def frer_consts)

text \<open>\<open>k\<close> ticks without a packet in between, with the events of each.\<close>

fun ticks :: "nat \<Rightarrow> SequenceRecovery \<Rightarrow> (rcvy_event list list \<times> SequenceRecovery) option" where
  "ticks 0 rec = Some ([], rec)"
| "ticks (Suc k) rec = (case reset_thread_tick rec of
      Some (THREAD_RUN ev rec') \<Rightarrow> map_option (\<lambda>(evs, rec''). (ev # evs, rec'')) (ticks k rec')
    | _ \<Rightarrow> None)"

definition reset_positions :: "rcvy_event list list \<Rightarrow> nat list" where
  "reset_positions evs = filter (\<lambda>i. EV_RECOVERY_RESET \<in> set (evs ! i)) [0..<length evs]"

lemma reset_positions_Cons:
  "reset_positions (ev # evs) =
     (if EV_RECOVERY_RESET \<in> set ev then [0] else []) @ map Suc (reset_positions evs)"
proof -
  have "[0..<length (ev # evs)] = 0 # map Suc [0..<length evs]"
    by (simp add: map_Suc_upt upt_conv_Cons del: upt_Suc)
  thus ?thesis by (simp add: reset_positions_def filter_map o_def del: upt_Suc)
qed

lemma ticks_result:
  assumes "rcvy_inv rec" "oam_session_id rec = None" "0 \<le> remaining_ticks rec"
  shows "\<exists>evs rec'. ticks k rec = Some (evs, rec') \<and> rcvy_inv rec' \<and> length evs = k
           \<and> remaining_ticks rec' = max 0 (remaining_ticks rec - int k)
           \<and> reset_positions evs = (if 0 < remaining_ticks rec \<and> remaining_ticks rec \<le> int k
                                      then [nat (remaining_ticks rec) - 1] else [])
           \<and> (0 < remaining_ticks rec \<and> remaining_ticks rec \<le> int k \<or> take_any rec \<longrightarrow> take_any rec')"
  using assms
proof (induction k arbitrary: rec)
  case 0
  thus ?case by (auto simp: reset_positions_def)
next
  case (Suc k)
  obtain ev r1 where r1: "reset_thread_tick rec = Some (THREAD_RUN ev r1)" "rcvy_inv r1"
      "remaining_ticks r1 = (if remaining_ticks rec = 0 then 0 else remaining_ticks rec - 1)"
      "oam_session_id r1 = None"
      "(EV_RECOVERY_RESET \<in> set ev) = (remaining_ticks rec = 1)"
      "if remaining_ticks rec = 1 then take_any r1 else take_any r1 = take_any rec"
    using reset_thread_tick_result [OF Suc.prems(1)] Suc.prems(2) by auto
  have ge: "0 \<le> remaining_ticks r1" using r1(3) Suc.prems(3) by simp
  obtain evs r2 where r2: "ticks k r1 = Some (evs, r2)" "rcvy_inv r2" "length evs = k"
      "remaining_ticks r2 = max 0 (remaining_ticks r1 - int k)"
      "reset_positions evs = (if 0 < remaining_ticks r1 \<and> remaining_ticks r1 \<le> int k
                                then [nat (remaining_ticks r1) - 1] else [])"
      "0 < remaining_ticks r1 \<and> remaining_ticks r1 \<le> int k \<or> take_any r1 \<longrightarrow> take_any r2"
    using Suc.IH [OF r1(2,4) ge] by blast
  have "ticks (Suc k) rec = Some (ev # evs, r2)" using r1(1) r2(1) by simp
  moreover have "reset_positions (ev # evs) = (if 0 < remaining_ticks rec \<and> remaining_ticks rec \<le> int (Suc k)
      then [nat (remaining_ticks rec) - 1] else [])"
    unfolding reset_positions_Cons r1(5) r2(5) using r1(3) Suc.prems(3) by (auto split: if_splits)
  moreover have "remaining_ticks r2 = max 0 (remaining_ticks rec - int (Suc k))"
    using r2(4) r1(3) Suc.prems(3) by (auto split: if_splits)
  moreover have "0 < remaining_ticks rec \<and> remaining_ticks rec \<le> int (Suc k) \<or> take_any rec \<longrightarrow> take_any r2"
    using r2(6) r1(3,6) by (auto split: if_splits)
  ultimately show ?case using r2(2,3) by auto
qed

text \<open>
  C27: The reset timer: when no packet is accepted after \<open>reset_ticks\<close>, the recovery resets exactly
  once, at tick number \<open>reset_msec\<close> (ticks are milliseconds), and then takes any packet; before that
  tick it does not reset, and afterwards it stays quiet until the timer is armed again.
\<close>

theorem reset_timer_fires_once:
  assumes "rcvy_inv rec" "oam_session_id rec = None"
    and "0 < uint (reset_msec rec)" "uint (reset_msec rec) \<le> 4294966"
  shows "\<exists>evs rec'. ticks k (reset_ticks rec) = Some (evs, rec') \<and> length evs = k
           \<and> reset_positions evs = (if uint (reset_msec rec) \<le> int k then [nat (uint (reset_msec rec)) - 1] else [])
           \<and> (uint (reset_msec rec) \<le> int k \<longrightarrow> take_any rec' \<and> remaining_ticks rec' = 0)"
proof -
  have "rcvy_inv (reset_ticks rec)" "oam_session_id (reset_ticks rec) = None"
    using assms(1,2) by (simp_all add: rcvy_inv_def rcvy_wf_def reset_ticks_def)
  moreover note v = reset_ticks_value [OF assms(4)]
  ultimately obtain evs rec' where t: "ticks k (reset_ticks rec) = Some (evs, rec')" "length evs = k"
      "remaining_ticks rec' = max 0 (uint (reset_msec rec) - int k)"
      "reset_positions evs = (if 0 < uint (reset_msec rec) \<and> uint (reset_msec rec) \<le> int k
                                then [nat (uint (reset_msec rec)) - 1] else [])"
      "0 < uint (reset_msec rec) \<and> uint (reset_msec rec) \<le> int k \<or> take_any (reset_ticks rec) \<longrightarrow> take_any rec'"
    using ticks_result [of "reset_ticks rec" k] assms(3) by auto
  with assms(3) show ?thesis by (intro exI [of _ evs] exI [of _ rec']) simp
qed

theorem reset_timer_fires_once_witness:
  "\<exists>evs rec'. ticks 25 (reset_ticks (sample_rcvy RCVY_Vector False)) = Some (evs, rec')
     \<and> reset_positions evs = [9] \<and> take_any rec'"
proof -
  have "rcvy_inv (sample_rcvy RCVY_Vector False)"
    using sample_rcvy_ready by (simp add: rcvy_inv_def rcvy_ready_def)
  moreover have "oam_session_id (sample_rcvy RCVY_Vector False) = None"
    and m: "reset_msec (sample_rcvy RCVY_Vector False) = 10"
    by (simp_all add: sample_rcvy_def new_seq_rec_def reset_ticks_def)
  ultimately show ?thesis
    using reset_timer_fires_once [of "sample_rcvy RCVY_Vector False" 25] unfolding m by auto
qed

section \<open>Masked paths\<close>

text \<open>The inputs that are masked at the moment.\<close>

definition masked_mips :: "SequenceRecovery \<Rightarrow> string set" where
  "masked_mips rec = (case preAutoMIP rec of None \<Rightarrow> {} | Some h \<Rightarrow> {m. hashmap_find h m = Some True})"

definition registered_mip :: "SequenceRecovery \<Rightarrow> string \<Rightarrow> bool" where
  "registered_mip rec m \<longleftrightarrow> (case preAutoMIP rec of None \<Rightarrow> False | Some h \<Rightarrow> hashmap_find h m \<noteq> None)"

definition mask_inv :: "SequenceRecovery \<Rightarrow> bool" where
  "mask_inv rec \<longleftrightarrow> (\<forall>h. preAutoMIP rec = Some h \<longrightarrow> hashmap_wf h) \<and> finite (masked_mips rec)
     \<and> latent_error_paths rec = admin_latent_error_paths (diag rec) - int (card (masked_mips rec))
     \<and> 0 \<le> latent_error_paths rec"

lemma mask_inv_new: "0 \<le> admin_latent_error_paths d \<Longrightarrow> mask_inv (new_seq_rec algo r i n msec d)"
  by (simp add: mask_inv_def masked_mips_def new_seq_rec_def reset_ticks_def)

lemma mask_inv_register:
  assumes inv: "mask_inv rec" and new: "\<not> registered_mip rec mip"
  shows "mask_inv (seq_rec_register_preAutoMIP rec mip) \<and> registered_mip (seq_rec_register_preAutoMIP rec mip) mip"
proof -
  obtain h where h: "hashmap_wf h" "(case preAutoMIP rec of None \<Rightarrow> new_hashmap 5 | Some m \<Rightarrow> Some m) = Some h"
      "masked_mips rec = {m. hashmap_find h m = Some True}" "hashmap_find h mip = None"
  proof (cases "preAutoMIP rec")
    case None
    obtain h0 :: "bool hashmap" where h0: "new_hashmap 5 = Some h0" by (simp add: new_hashmap_def)
    hence "\<exists>n. new_hashmap n = Some h0" by blast
    from hm.fresh_invar [OF this] hm.fresh_look [OF this] None h0 that [of h0] show thesis
      by (auto simp: masked_mips_def)
  next
    case (Some h0)
    with that [of h0] inv new show thesis by (auto simp: masked_mips_def mask_inv_def registered_mip_def)
  qed
  let ?rec = "seq_rec_register_preAutoMIP rec mip"
  have r: "?rec = rec\<lparr>preAutoMIP := Some (hm_insert h mip False)\<rparr>"
    by (simp add: seq_rec_register_preAutoMIP_def h(2))
  have look: "hashmap_find (hm_insert h mip False) = (hashmap_find h)(mip \<mapsto> False)"
    by (rule hm.ins_look [OF h(1)])
  have m: "masked_mips ?rec = masked_mips rec"
    unfolding r h(3) using h(4) by (auto simp: masked_mips_def look)
  show ?thesis
    using inv hm.ins_invar [OF h(1), of mip False] unfolding mask_inv_def m
    by (simp add: r registered_mip_def look)
qed

lemma masked_result:
  assumes inv: "mask_inv rec"
  shows "\<exists>ok ev rec'. seq_rec_path_masked rec mip = (ok, ev, rec') \<and> mask_inv rec'
     \<and> ok = (registered_mip rec mip \<and> mip \<notin> masked_mips rec \<and> 0 < latent_error_paths rec)
     \<and> masked_mips rec' = (if ok then insert mip (masked_mips rec) else masked_mips rec)
     \<and> (EV_START_MASK_SESSION (postAutoMIP rec) \<in> set ev) = (ok \<and> latent_error_paths rec' = 0)"
proof (cases "registered_mip rec mip \<and> mip \<notin> masked_mips rec \<and> 0 < latent_error_paths rec")
  case True
  then obtain h where h: "preAutoMIP rec = Some h" "hashmap_find h mip = Some False"
    by (auto simp: registered_mip_def masked_mips_def split: option.splits)
  have wf: "hashmap_wf h" using inv h(1) by (simp add: mask_inv_def)
  let ?rec = "latent_error_reset (rec\<lparr>preAutoMIP := Some (hm_insert h mip True),
                latent_error_paths := latent_error_paths rec - 1\<rparr>)"
  have look: "hashmap_find (hm_insert h mip True) = (hashmap_find h)(mip \<mapsto> True)" by (rule hm.ins_look [OF wf])
  have m: "masked_mips ?rec = insert mip (masked_mips rec)"
    by (auto simp: masked_mips_def latent_error_reset_def look h(1))
  have "mask_inv ?rec"
    using inv True hm.ins_invar [OF wf, of mip True] unfolding mask_inv_def m
    by (simp add: latent_error_reset_def)
  moreover let ?ev = "EV_MASKED mip #
      (if latent_error_paths ?rec = 0 then [EV_START_MASK_SESSION (postAutoMIP ?rec)] else [])"
  have "seq_rec_path_masked rec mip = (True, ?ev, ?rec)"
    using True by (simp add: seq_rec_path_masked_def h Let_def)
  moreover have "postAutoMIP ?rec = postAutoMIP rec" by (simp add: latent_error_reset_def)
  ultimately show ?thesis using True m by (intro exI [of _ True] exI [of _ ?ev] exI [of _ ?rec]) simp
next
  case False
  hence "seq_rec_path_masked rec mip = (False, [], rec)"
    by (auto simp: seq_rec_path_masked_def registered_mip_def masked_mips_def split: option.splits)
  with False inv show ?thesis by auto
qed

lemma unmasked_result:
  assumes inv: "mask_inv rec"
  shows "\<exists>ok ev rec'. seq_rec_path_unmasked rec mip = (ok, ev, rec') \<and> mask_inv rec'
     \<and> ok = (mip \<in> masked_mips rec)
     \<and> masked_mips rec' = (if ok then masked_mips rec - {mip} else masked_mips rec)
     \<and> (EV_STOP_MASK_SESSION (postAutoMIP rec) \<in> set ev) = (ok \<and> latent_error_paths rec' = 1)"
proof (cases "mip \<in> masked_mips rec")
  case True
  then obtain h where h: "preAutoMIP rec = Some h" "hashmap_find h mip = Some True"
    by (auto simp: masked_mips_def split: option.splits)
  have wf: "hashmap_wf h" using inv h(1) by (simp add: mask_inv_def)
  have pos: "0 < card (masked_mips rec)" using inv True by (auto simp: mask_inv_def card_gt_0_iff)
  hence less: "latent_error_paths rec < admin_latent_error_paths (diag rec)"
    using inv by (simp add: mask_inv_def)
  let ?rec = "latent_error_reset (rec\<lparr>preAutoMIP := Some (hm_insert h mip False),
                latent_error_paths := latent_error_paths rec + 1\<rparr>)"
  have look: "hashmap_find (hm_insert h mip False) = (hashmap_find h)(mip \<mapsto> False)" by (rule hm.ins_look [OF wf])
  have m: "masked_mips ?rec = masked_mips rec - {mip}"
    by (auto simp: masked_mips_def latent_error_reset_def look h(1))
  have "mask_inv ?rec"
    using inv True pos hm.ins_invar [OF wf, of mip False] unfolding mask_inv_def m
    by (auto simp: latent_error_reset_def of_nat_diff)
  moreover let ?ev = "EV_UNMASKED mip #
      (if latent_error_paths ?rec = 1 then [EV_STOP_MASK_SESSION (postAutoMIP ?rec)] else [])"
  have "seq_rec_path_unmasked rec mip = (True, ?ev, ?rec)"
    using less by (simp add: seq_rec_path_unmasked_def h Let_def)
  moreover have "postAutoMIP ?rec = postAutoMIP rec" by (simp add: latent_error_reset_def)
  ultimately show ?thesis using True m by (intro exI [of _ True] exI [of _ ?ev] exI [of _ ?rec]) simp
next
  case False
  hence "seq_rec_path_unmasked rec mip = (False, [], rec)"
    by (auto simp: seq_rec_path_unmasked_def masked_mips_def split: option.splits)
  with False inv show ?thesis by auto
qed

datatype mask_signal = Mask string | Unmask string

fun signal :: "mask_signal \<Rightarrow> SequenceRecovery \<Rightarrow> bool \<times> rcvy_event list \<times> SequenceRecovery" where
  "signal (Mask mip) rec = seq_rec_path_masked rec mip"
| "signal (Unmask mip) rec = seq_rec_path_unmasked rec mip"

fun signals :: "mask_signal list \<Rightarrow> SequenceRecovery \<Rightarrow> SequenceRecovery" where
  "signals [] rec = rec"
| "signals (g # gs) rec = signals gs (snd (snd (signal g rec)))"

text \<open>The set of masked inputs as the signals describe it, among the registered ones.\<close>

fun masked_after :: "mask_signal list \<Rightarrow> string set \<Rightarrow> string set" where
  "masked_after [] M = M"
| "masked_after (Mask m # gs) M = masked_after gs (insert m M)"
| "masked_after (Unmask m # gs) M = masked_after gs (M - {m})"

fun signal_mip :: "mask_signal \<Rightarrow> string" where
  "signal_mip (Mask m) = m"
| "signal_mip (Unmask m) = m"

lemma signal_result:
  assumes inv: "mask_inv rec" and reg: "registered_mip rec (signal_mip g)"
    and room: "card (insert (signal_mip g) (masked_mips rec)) \<le> nat (admin_latent_error_paths (diag rec))"
  shows "mask_inv (snd (snd (signal g rec)))"
    "masked_mips (snd (snd (signal g rec))) = masked_after [g] (masked_mips rec)"
proof -
  have "mask_inv (snd (snd (signal g rec))) \<and>
        masked_mips (snd (snd (signal g rec))) = masked_after [g] (masked_mips rec)"
  proof (cases g)
    case (Mask m)
    have "0 < latent_error_paths rec" if "m \<notin> masked_mips rec"
      using that inv room Mask by (simp add: mask_inv_def)
    moreover obtain ok ev rec' where r: "seq_rec_path_masked rec m = (ok, ev, rec')" "mask_inv rec'"
        "ok = (registered_mip rec m \<and> m \<notin> masked_mips rec \<and> 0 < latent_error_paths rec)"
        "masked_mips rec' = (if ok then insert m (masked_mips rec) else masked_mips rec)"
      using masked_result [OF inv, of m] by blast
    ultimately have "masked_mips rec' = insert m (masked_mips rec)"
      using reg Mask by (cases "m \<in> masked_mips rec") (auto simp: insert_absorb)
    with r(1,2) Mask show ?thesis by simp
  next
    case (Unmask m)
    moreover obtain ok ev rec' where r: "seq_rec_path_unmasked rec m = (ok, ev, rec')" "mask_inv rec'"
        "ok = (m \<in> masked_mips rec)"
        "masked_mips rec' = (if ok then masked_mips rec - {m} else masked_mips rec)"
      using unmasked_result [OF inv, of m] by blast
    moreover have "masked_mips rec' = masked_mips rec - {m}" using r(3,4) by (cases ok) auto
    ultimately show ?thesis by simp
  qed
  thus "mask_inv (snd (snd (signal g rec)))"
    "masked_mips (snd (snd (signal g rec))) = masked_after [g] (masked_mips rec)" by auto
qed

lemma signal_registered:
  assumes "mask_inv rec" "registered_mip rec m"
  shows "registered_mip (snd (snd (signal g rec))) m \<and> diag (snd (snd (signal g rec))) = diag rec"
proof -
  have wf: "preAutoMIP rec = Some h \<Longrightarrow> hashmap_wf h" for h using assms(1) by (simp add: mask_inv_def)
  show ?thesis
    using assms(2) wf
    by (cases g) (auto simp: seq_rec_path_masked_def seq_rec_path_unmasked_def registered_mip_def
        latent_error_reset_def Let_def hm.ins_look split: option.splits if_splits)
qed

text \<open>
  C28: The mask signals keep the expected number of paths right: on a recovery with its inputs
  registered (at most as many as the configured number of paths), after any sequence of mask and unmask
  signals for registered inputs the set of masked inputs is the one the signals describe, and
  \<open>latent_error_paths\<close> is the configured number of paths minus the number of masked inputs.
\<close>

theorem mask_signals_count_paths:
  assumes "mask_inv rec" and "finite R" "card R \<le> nat (admin_latent_error_paths (diag rec))"
    and "masked_mips rec \<subseteq> R" "\<forall>m \<in> R. registered_mip rec m" "signal_mip ` set gs \<subseteq> R"
  shows "masked_mips (signals gs rec) = masked_after gs (masked_mips rec) \<and>
         latent_error_paths (signals gs rec)
           = admin_latent_error_paths (diag rec) - int (card (masked_after gs (masked_mips rec)))"
  using assms
proof (induction gs arbitrary: rec)
  case Nil
  thus ?case by (simp add: mask_inv_def)
next
  case (Cons g gs)
  let ?rec = "snd (snd (signal g rec))"
  have sub: "insert (signal_mip g) (masked_mips rec) \<subseteq> R" using Cons.prems by auto
  have reg: "registered_mip rec (signal_mip g)" using Cons.prems(5,6) by auto
  have room: "card (insert (signal_mip g) (masked_mips rec)) \<le> nat (admin_latent_error_paths (diag rec))"
    using card_mono [OF Cons.prems(2) sub] Cons.prems(3) by simp
  note r = signal_result [OF Cons.prems(1) reg room]
  have d: "diag ?rec = diag rec" "\<forall>m \<in> R. registered_mip ?rec m"
    using signal_registered [OF Cons.prems(1)] Cons.prems(5) reg by blast+
  have m: "masked_mips ?rec \<subseteq> R" unfolding r(2) using sub by (cases g) auto
  have a: "masked_after gs (masked_after [g] M) = masked_after (g # gs) M" for M by (cases g) simp_all
  have "masked_mips (signals gs ?rec) = masked_after gs (masked_mips ?rec) \<and>
        latent_error_paths (signals gs ?rec)
          = admin_latent_error_paths (diag ?rec) - int (card (masked_after gs (masked_mips ?rec)))"
    using Cons.IH [OF r(1) Cons.prems(2) _ m d(2)] Cons.prems(3,6) d(1) by simp
  thus ?case unfolding r(2) d(1) a by simp
qed

definition two_path_rcvy :: SequenceRecovery where
  "two_path_rcvy = seq_rec_register_preAutoMIP (seq_rec_register_preAutoMIP
     (new_seq_rec RCVY_Vector False False 4 10 (zero_diag\<lparr>admin_latent_error_paths := 2\<rparr>)) ''a'') ''b''"

theorem mask_signals_count_paths_witness:
  "latent_error_paths (signals [Mask ''a'', Mask ''b'', Mask ''a'', Unmask ''b''] two_path_rcvy) = 1"
proof -
  define r0 where "r0 = new_seq_rec RCVY_Vector False False 4 10 (zero_diag\<lparr>admin_latent_error_paths := 2\<rparr>)"
  define r1 where "r1 = seq_rec_register_preAutoMIP r0 ''a''"
  have i0: "mask_inv r0" unfolding r0_def by (rule mask_inv_new) simp
  have n0: "\<not> registered_mip r0 ''a''" by (simp add: r0_def registered_mip_def new_seq_rec_def reset_ticks_def)
  have i1: "mask_inv r1" using mask_inv_register [OF i0 n0] by (simp add: r1_def)
  have two: "two_path_rcvy = seq_rec_register_preAutoMIP r1 ''b''" by (simp add: two_path_rcvy_def r1_def r0_def)
  have n1: "\<not> registered_mip r1 ''b''" unfolding r1_def r0_def by code_simp
  have inv: "mask_inv two_path_rcvy" using mask_inv_register [OF i1 n1] by (simp add: two)
  have reg: "registered_mip two_path_rcvy ''a''" "registered_mip two_path_rcvy ''b''" by code_simp+
  have adm: "admin_latent_error_paths (diag two_path_rcvy) = 2" and "latent_error_paths two_path_rcvy = 2"
    by code_simp+
  hence m: "masked_mips two_path_rcvy = {}" using inv by (auto simp: mask_inv_def)
  have "card {''a'', ''b''} \<le> nat (admin_latent_error_paths (diag two_path_rcvy))" unfolding adm by simp
  from mask_signals_count_paths [OF inv _ this, of "[Mask ''a'', Mask ''b'', Mask ''a'', Unmask ''b'']"] reg
  have "latent_error_paths (signals [Mask ''a'', Mask ''b'', Mask ''a'', Unmask ''b''] two_path_rcvy)
      = 2 - int (card {''a''})"
    unfolding m adm by (simp add: insert_commute insert_Diff_if)
  thus ?thesis by simp
qed

section \<open>Seamless reset\<close>



text \<open>
  The history is not cleared by a seamless reset: after a stream has filled the window, the
  generator restarts at 0; if packet 1 overtakes packet 0, packet 1 is followed as a reset, and packet
  0, which was never received, is then discarded as a duplicate.
\<close>

lemma seamless_reset_stale_history:
  "map_option fst (filter_run seamless_seq_recovery
      (\<lambda>n. if n < 10 then FRER_RESET_FLAG OR seq_of n else seq_of n)
      (sample_rcvy RCVY_SeamlessVector True) [100, 101, 102, 103, 104, 1, 0]) = Some [100, 101, 102, 103, 104, 1]"
  by code_simp

end
