(* ===== verification/Ordered_Queue.thy ===== *)
theory Ordered_Queue
  imports Prelude "HOL-Library.Multiset"
begin

text \<open>
  The interface of the two ordered packet queues of DNT: the conditional delay buffer of the packet
  ordering function, ordered by sequence number, and the delay queue, ordered by deadline.  Both insert
  by walking a linked list and take elements from its head.  The locale states what an insertion
  promises and derives what the users of the queues rely on.
\<close>

locale ordered_queue =
  fixes key :: "'e \<Rightarrow> 'k::linorder"
    and ins :: "'e \<Rightarrow> 'e list \<Rightarrow> 'e list"
  assumes ins_mset: "mset (ins e q) = add_mset e (mset q)"
    and ins_sorted: "sorted (map key q) \<Longrightarrow> sorted (map key (ins e q))"
begin

lemma ins_set: "set (ins e q) = insert e (set q)"
  using arg_cong [OF ins_mset [of e q], of set_mset] by simp

lemma ins_length: "length (ins e q) = Suc (length q)"
  using arg_cong [OF ins_mset [of e q], of size] by simp

lemma ins_not_empty: "ins e q \<noteq> []"
  using ins_length [of e q] by auto

text \<open>Filling a queue element by element keeps it sorted and loses nothing.\<close>

definition fill :: "'e list \<Rightarrow> 'e list \<Rightarrow> 'e list" where
  "fill es q = fold ins es q"

lemma fill_mset: "mset (fill es q) = mset es + mset q"
  unfolding fill_def by (induction es arbitrary: q) (simp_all add: ins_mset)

lemma fill_sorted: "sorted (map key q) \<Longrightarrow> sorted (map key (fill es q))"
  unfolding fill_def by (induction es arbitrary: q) (simp_all add: ins_sorted)

text \<open>The head of a sorted queue has the least key.\<close>

lemma head_least: "sorted (map key (e # q)) \<Longrightarrow> x \<in> set (e # q) \<Longrightarrow> key e \<le> key x"
  by auto

lemma ins_head_least:
  "sorted (map key q) \<Longrightarrow> x \<in> set (ins e q) \<Longrightarrow> key (hd (ins e q)) \<le> key x"
  using head_least [of "hd (ins e q)" "tl (ins e q)" x] ins_sorted [of q e] ins_not_empty [of e q]
  by simp

lemma ins_distinct:
  assumes "distinct (map f q)" "f e \<notin> f ` set q"
  shows "distinct (map f (ins e q))"
proof -
  have "mset (map f (ins e q)) = mset (map f (e # q))" by (simp add: ins_mset)
  moreover have "distinct (map f (e # q))" using assms by simp
  ultimately show ?thesis using mset_eq_imp_distinct_iff by blast
qed

end

end
