(* ===== verification/Pof.thy ===== *)
theory Pof
  imports Ordered_Queue Packet
begin

text \<open>
  The packet ordering function (\<^verbatim>\<open>src/pof.c\<close>, after RFC 9550): packets that arrive ahead of
  their turn wait in a buffer ordered by sequence number until the missing ones arrive or their
  deadline passes.

  A held packet is an element with its own identity (the address of the C structure); the pipeline
  iterator it carries is a parameter of the type.  The lock makes every operation atomic, and one
  wake-up of the worker thread is one operation.  The event descriptor is the counter of the kernel:
  a write adds to it, a read returns and clears it.  The argument \<open>plog\<close> says whether packet logging
  is enabled, because a log line dereferences a pointer.  \<open>None\<close> is a NULL or dangling pointer access.
\<close>

section \<open>State\<close>

definition POF_IN_ORDER_PKT :: int where "POF_IN_ORDER_PKT = 1"
definition POF_OUT_OF_ORDER_PKT :: int where "POF_OUT_OF_ORDER_PKT = 2"
definition POF_TIMEOUT :: int where "POF_TIMEOUT = 4"

lemmas pof_events = POF_IN_ORDER_PKT_def POF_OUT_OF_ORDER_PKT_def POF_TIMEOUT_def

record 'pi PofElem =
  pe_id :: nat
  pe_pi :: 'pi
  pe_seq :: int
  forward_time :: timespec

record 'pi Pof =
  pof_max_delay :: timespec
  pof_take_any_time :: timespec
  queue_max_len :: int
  queue_len :: int
  pof_last_sent :: int
  pof_take_any :: bool
  evfd :: int
  q_head :: "'pi PofElem list"
  next_to_forward :: "nat option"
  pof_last_recv_ts :: timespec
  next_elem :: nat

definition SEQ_IS_OAM :: "u32 \<Rightarrow> bool" where
  "SEQ_IS_OAM seq = (ntohl seq AND 0x10000000 \<noteq> 0)"

definition new_pof :: "u32 \<Rightarrow> u32 \<Rightarrow> u32 \<Rightarrow> 'pi Pof" where
  "new_pof max_delay take_any_time max_len =
     \<lparr>pof_max_delay = timespec_from_msec max_delay, pof_take_any_time = timespec_from_msec take_any_time,
      queue_max_len = sint max_len, queue_len = 0, pof_last_sent = 0, pof_take_any = True, evfd = 0,
      q_head = [], next_to_forward = None, pof_last_recv_ts = Timespec 0 0, next_elem = 0\<rparr>"

section \<open>Inserting a packet\<close>

definition new_pof_elem :: "'pi Pof \<Rightarrow> 'pi \<Rightarrow> u32 \<Rightarrow> timespec \<Rightarrow> 'pi PofElem" where
  "new_pof_elem pof pi seq now =
     \<lparr>pe_id = next_elem pof, pe_pi = pi, pe_seq = uint (ntohl seq AND 0xffff),
      forward_time = timespecadd now (pof_max_delay pof)\<rparr>"

text \<open>The walk stops in front of the first element whose number is not smaller.\<close>

fun pof_place :: "'pi PofElem \<Rightarrow> 'pi PofElem list \<Rightarrow> 'pi PofElem list" where
  "pof_place pe [] = [pe]"
| "pof_place pe (iter # q) = (if pe_seq iter < pe_seq pe then iter # pof_place pe q else pe # iter # q)"

text \<open>\<open>seq\<close> is the sequence field of the packet, \<open>now\<close> the clock of the two calls.\<close>

definition pof_insert :: "'pi Pof \<Rightarrow> 'pi \<Rightarrow> u32 \<Rightarrow> timespec \<Rightarrow> ActionResult \<times> 'pi Pof" where
  "pof_insert pof pi seq now =
     (if SEQ_IS_OAM seq then (ACR_CONTINUE, pof)
      else if queue_len pof \<ge> queue_max_len pof then (ACR_DONE, pof)
      else let pe = new_pof_elem pof pi seq now;
               event = (if pe_seq pe \<le> pof_last_sent pof + 1 \<or> pof_take_any pof
                        then POF_IN_ORDER_PKT else POF_OUT_OF_ORDER_PKT)
           in (ACR_HOLD, pof\<lparr>q_head := pof_place pe (q_head pof), queue_len := queue_len pof + 1,
                             pof_last_recv_ts := now, evfd := evfd pof + event,
                             next_elem := next_elem pof + 1\<rparr>))"

section \<open>Forwarding\<close>

definition find_elem :: "nat \<Rightarrow> 'pi PofElem list \<Rightarrow> 'pi PofElem option" where
  "find_elem i q = find (\<lambda>e. pe_id e = i) q"

fun unlink_elem :: "nat \<Rightarrow> 'pi PofElem list \<Rightarrow> 'pi PofElem list" where
  "unlink_elem i [] = []"
| "unlink_elem i (e # q) = (if pe_id e = i then q else e # unlink_elem i q)"

definition pof_pop_item :: "nat \<Rightarrow> 'pi Pof \<Rightarrow> 'pi Pof" where
  "pof_pop_item i pof =
     (if q_head pof = [] then pof
      else if queue_len pof \<noteq> 0
           then pof\<lparr>q_head := unlink_elem i (q_head pof), queue_len := queue_len pof - 1\<rparr>
           else pof)"

text \<open>
  Emptying the queue from its head.  The loop ends when the list is empty; an element that the
  counter does not account for is never popped and the loop spins (\<open>None\<close>).
\<close>

fun reset_loop :: "'pi PofElem list \<Rightarrow> int \<Rightarrow> int option" where
  "reset_loop [] len = Some len"
| "reset_loop (e # q) len = (if len = 0 then None else reset_loop q (len - 1))"

text \<open>The second component says whether the reset notification is pushed.\<close>

definition pof_reset :: "'pi Pof \<Rightarrow> ('pi Pof \<times> bool) option" where
  "pof_reset pof =
     do { len \<leftarrow> reset_loop (q_head pof) (queue_len pof);
          Some (pof\<lparr>q_head := [], queue_len := len, pof_take_any := True\<rparr>, \<not> pof_take_any pof) }"

fun deadline_loop :: "'pi PofElem list \<Rightarrow> timespec \<Rightarrow> nat option \<Rightarrow> timespec \<times> nat option" where
  "deadline_loop [] ret ntf = (ret, ntf)"
| "deadline_loop (iter # q) ret ntf =
     (if timespeccmp (forward_time iter) ret (\<noteq>) then deadline_loop q (forward_time iter) (Some (pe_id iter))
      else deadline_loop q ret ntf)"

definition get_next_deadline :: "'pi Pof \<Rightarrow> (timespec option \<times> 'pi Pof) option" where
  "get_next_deadline pof =
     (if queue_len pof = 0 then Some (None, pof\<lparr>next_to_forward := None\<rparr>)
      else case q_head pof of
             [] \<Rightarrow> None
           | e # _ \<Rightarrow> (let (ret, ntf) = deadline_loop (q_head pof) (forward_time e) None
                      in Some (Some ret, pof\<lparr>next_to_forward := ntf\<rparr>)))"

text \<open>The forwarded iterator is resumed by the caller of the model: it is the output.\<close>

definition pof_forward :: "'pi PofElem \<Rightarrow> 'pi Pof \<Rightarrow> 'pi Pof" where
  "pof_forward pe pof =
     (if pe_seq pe > pof_last_sent pof then pof\<lparr>pof_last_sent := pe_seq pe\<rparr> else pof)"

definition head_elem :: "'pi Pof \<Rightarrow> nat option" where
  "head_elem pof = (case q_head pof of [] \<Rightarrow> None | e # _ \<Rightarrow> Some (pe_id e))"

text \<open>
  The loop \<^verbatim>\<open>while (pof->queue_len > 0)\<close>: every round that does not leave it pops one element, so
  \<open>queue_len\<close> rounds are enough.
\<close>

fun forward_loop :: "nat \<Rightarrow> nat option \<Rightarrow> int \<Rightarrow> 'pi Pof \<Rightarrow> ('pi PofElem list \<times> 'pi Pof) option" where
  "forward_loop 0 pkt event pof = Some ([], pof)"
| "forward_loop (Suc n) pkt event pof =
     do { i \<leftarrow> pkt;
          pe \<leftarrow> find_elem i (q_head pof);
          let timeout = (event AND POF_TIMEOUT \<noteq> 0);
          if pe_seq pe = pof_last_sent pof + 1 \<or> timeout then
            do { let pof1 = pof_pop_item i (pof_forward pe (pof\<lparr>pof_take_any := False\<rparr>));
                 (out, pof2) \<leftarrow> forward_loop n (head_elem pof1)
                                (if timeout then event AND NOT POF_TIMEOUT else event) pof1;
                 Some (pe # out, pof2) }
          else if pe_seq pe < pof_last_sent pof + 1 then
            do { let pof1 = pof_pop_item i (pof_forward pe pof);
                 (out, pof2) \<leftarrow> forward_loop n (head_elem pof1) event pof1;
                 Some (pe # out, pof2) }
          else Some ([], pof) }"

definition pof_try_forward :: "bool \<Rightarrow> int \<Rightarrow> 'pi Pof \<Rightarrow> ('pi PofElem list \<times> 'pi Pof) option" where
  "pof_try_forward plog event pof =
     do { pkt \<leftarrow> (if event AND POF_TIMEOUT \<noteq> 0 \<and> \<not> pof_take_any pof
                  then (if plog \<and> next_to_forward pof = None then None
                        else Some (if next_to_forward pof \<noteq> None then next_to_forward pof else head_elem pof))
                  else Some (head_elem pof));
          if plog \<and> pkt = None then None
          else forward_loop (nat (queue_len pof)) pkt event pof }"

section \<open>The worker thread\<close>

datatype pof_wake = WAKE_EVENT | WAKE_TIMEOUT

definition next_timeout :: "timespec \<Rightarrow> 'pi Pof \<Rightarrow> (timespec \<times> 'pi Pof) option" where
  "next_timeout now pof =
     do { (deadline, pof') \<leftarrow> get_next_deadline pof;
          Some (case deadline of
                  None \<Rightarrow> (pof_take_any_time pof', pof')
                | Some d \<Rightarrow> (if timespeccmp d now (>) then (timespecsub d now, pof')
                             else (pof_take_any_time pof', pof'))) }"

text \<open>The work of a wake-up: an event, or the expiry of the wait.\<close>

definition pof_wakeup :: "bool \<Rightarrow> pof_wake \<Rightarrow> 'pi Pof \<Rightarrow> ('pi PofElem list \<times> 'pi Pof) option" where
  "pof_wakeup plog wake pof = (case wake of
     WAKE_EVENT \<Rightarrow>
       (let event = evfd pof; pof0 = pof\<lparr>evfd := 0\<rparr>
        in if event AND POF_IN_ORDER_PKT \<noteq> 0 then pof_try_forward plog event pof0
           else Some ([], pof0))
   | WAKE_TIMEOUT \<Rightarrow>
       (if queue_len pof \<noteq> 0 then pof_try_forward plog POF_TIMEOUT pof
        else do { (pof0, _) \<leftarrow> pof_reset pof; Some ([], pof0) }))"

text \<open>One round of the worker: the packets it forwards and the timeout of the next wait.\<close>

definition pof_round :: "bool \<Rightarrow> pof_wake \<Rightarrow> timespec \<Rightarrow> 'pi Pof
    \<Rightarrow> ('pi PofElem list \<times> timespec \<times> 'pi Pof) option" where
  "pof_round plog wake now pof =
     do { (out, pof1) \<leftarrow> pof_wakeup plog wake pof;
          (timeout, pof2) \<leftarrow> next_timeout now pof1;
          Some (out, timeout, pof2) }"

text \<open>
  Deleting the object: the value -10 is written to the event descriptor, a 64 bit counter that
  refuses a write that would exceed $2^{64} - 2$.  The worker ends when it reads a negative number.
  \<open>None\<close>: the stop event was refused and the join of the worker never returns.  What is still held is
  dropped by the reset.
\<close>

definition delete_pof :: "'pi Pof \<Rightarrow> 'pi Pof option" where
  "delete_pof pof =
     (if evfd pof + (2 ^ 64 - 10) \<le> 2 ^ 64 - 2
      then map_option fst (pof_reset (pof\<lparr>evfd := 0, pof_take_any := True\<rparr>))
      else None)"

section \<open>The buffer is an ordered queue\<close>

lemma pof_place_set: "set (pof_place pe q) = insert pe (set q)"
  by (induction q) auto

interpretation pofq: ordered_queue pe_seq pof_place
proof
  fix e :: "'pi PofElem" and q
  show "mset (pof_place e q) = add_mset e (mset q)" by (induction q) auto
  show "sorted (map pe_seq (pof_place e q))" if "sorted (map pe_seq q)"
    using that by (induction q) (auto simp: pof_place_set)
qed

text \<open>Between two rounds: the counter is right, the queue sorted, and no pointer dangles.\<close>

definition pof_queue_ok :: "'pi Pof \<Rightarrow> bool" where
  "pof_queue_ok pof \<longleftrightarrow> queue_len pof = int (length (q_head pof)) \<and> sorted (map pe_seq (q_head pof))
     \<and> distinct (map pe_id (q_head pof)) \<and> (\<forall>e \<in> set (q_head pof). pe_id e < next_elem pof)"

definition pof_inv :: "'pi Pof \<Rightarrow> bool" where
  "pof_inv pof \<longleftrightarrow> pof_queue_ok pof \<and> (\<forall>i. next_to_forward pof = Some i \<longrightarrow> i \<in> pe_id ` set (q_head pof))
     \<and> (queue_len pof \<le> queue_max_len pof \<or> queue_len pof = 0)"

lemma pof_inv_new: "pof_inv (new_pof d t m)"
  by (simp add: pof_inv_def pof_queue_ok_def new_pof_def)

lemma pof_insert_held:
  assumes inv: "pof_inv pof" and ins: "pof_insert pof pi seq now = (ACR_HOLD, pof')"
  shows "pof_inv pof'" "mset (q_head pof') = add_mset (new_pof_elem pof pi seq now) (mset (q_head pof))"
proof -
  let ?pe = "new_pof_elem pof pi seq now"
  have p': "q_head pof' = pof_place ?pe (q_head pof)" "queue_len pof' = queue_len pof + 1"
      "next_elem pof' = next_elem pof + 1" "next_to_forward pof' = next_to_forward pof"
      "queue_max_len pof' = queue_max_len pof" and room: "queue_len pof < queue_max_len pof"
    using ins by (auto simp: pof_insert_def Let_def split: if_splits)
  have id: "pe_id ?pe = next_elem pof" by (simp add: new_pof_elem_def)
  have q: "queue_len pof = int (length (q_head pof))" "sorted (map pe_seq (q_head pof))"
      "distinct (map pe_id (q_head pof))" "\<forall>e \<in> set (q_head pof). pe_id e < next_elem pof"
    using inv by (auto simp: pof_inv_def pof_queue_ok_def)
  have "pe_id ?pe \<notin> pe_id ` set (q_head pof)" using q(4) id by force
  hence d: "distinct (map pe_id (q_head pof'))" unfolding p'(1) by (intro pofq.ins_distinct q(3))
  have "pof_queue_ok pof'"
    using p' q d id pofq.ins_sorted [OF q(2), of ?pe]
    by (auto simp: pof_queue_ok_def pofq.ins_length pof_place_set less_SucI)
  moreover have "i \<in> pe_id ` set (q_head pof')" if "next_to_forward pof' = Some i" for i
    using inv that p' by (auto simp: pof_inv_def pof_place_set)
  ultimately show "pof_inv pof'" using room p'(2,5) by (simp add: pof_inv_def)
  show "mset (q_head pof') = add_mset ?pe (mset (q_head pof))" by (simp add: p'(1) pofq.ins_mset)
qed

lemma pof_insert_not_held:
  "fst (pof_insert pof pi seq now) \<noteq> ACR_HOLD \<Longrightarrow> snd (pof_insert pof pi seq now) = pof"
  by (auto simp: pof_insert_def Let_def split: if_splits)

section \<open>What a forwarding pass releases\<close>

text \<open>A pass without a timeout, on the queue alone: elements leave from the head while they do not
  open a gap after the highest number sent.\<close>

fun release :: "int \<Rightarrow> 'pi PofElem list \<Rightarrow> 'pi PofElem list \<times> 'pi PofElem list \<times> int" where
  "release sent [] = ([], [], sent)"
| "release sent (e # q) =
     (if pe_seq e \<le> sent + 1 then (let (out, rest, s) = release (max sent (pe_seq e)) q in (e # out, rest, s))
      else ([], e # q, sent))"

lemma release_split: "release sent q = (out, rest, s) \<Longrightarrow> q = out @ rest"
  by (induction sent q arbitrary: out rest s rule: release.induct) (auto split: if_splits prod.splits)

lemma release_sent:
  "release sent q = (out, rest, s) \<Longrightarrow> s = foldl max sent (map pe_seq out) \<and> sent \<le> s
     \<and> (\<forall>e \<in> set out. pe_seq e \<le> s)"
proof (induction sent q arbitrary: out rest s rule: release.induct)
  case (2 sent e q)
  show ?case
  proof (cases "pe_seq e \<le> sent + 1")
    case True
    obtain out' where o: "release (max sent (pe_seq e)) q = (out', rest, s)" "out = e # out'"
      using 2(2) True by (auto split: prod.splits)
    from 2(1) [OF True o(1)] show ?thesis by (auto simp: o(2))
  qed (use 2(2) in auto)
qed simp

lemma release_stops:
  "release sent q = (out, rest, s) \<Longrightarrow> rest = [] \<or> s + 1 < pe_seq (hd rest)"
  by (induction sent q arbitrary: out rest s rule: release.induct) (auto split: if_splits prod.splits)

lemma find_elem_head [simp]: "find_elem (pe_id e) (e # q) = Some e"
  by (simp add: find_elem_def)

lemma pof_pop_head:
  "q_head pof = e # q \<Longrightarrow> queue_len pof = int (length (q_head pof)) \<Longrightarrow>
     pof_pop_item (pe_id e) pof = pof\<lparr>q_head := q, queue_len := int (length q)\<rparr>"
  by (simp add: pof_pop_item_def)

lemma forward_loop_release:
  assumes "n = length (q_head pof)" and "queue_len pof = int (length (q_head pof))" and "event AND POF_TIMEOUT = 0"
  shows "\<exists>pof'. forward_loop n (head_elem pof) event pof = Some (fst (release (pof_last_sent pof) (q_head pof)), pof')
     \<and> q_head pof' = fst (snd (release (pof_last_sent pof) (q_head pof)))
     \<and> pof_last_sent pof' = snd (snd (release (pof_last_sent pof) (q_head pof)))
     \<and> queue_len pof' = int (length (q_head pof')) \<and> next_elem pof' = next_elem pof
     \<and> queue_max_len pof' = queue_max_len pof \<and> evfd pof' = evfd pof"
  using assms(1,2)
proof (induction n arbitrary: pof)
  case (Suc n)
  then obtain e q where q: "q_head pof = e # q" by (cases "q_head pof") auto
  have h: "head_elem pof = Some (pe_id e)" by (simp add: head_elem_def q)
  show ?case
  proof (cases "pe_seq e \<le> pof_last_sent pof + 1")
    case True
    define any where "any = (if pe_seq e = pof_last_sent pof + 1 then False else pof_take_any pof)"
    define pof1 where "pof1 = pof\<lparr>pof_take_any := any, pof_last_sent := max (pof_last_sent pof) (pe_seq e),
        q_head := q, queue_len := int (length q)\<rparr>"
    have pop: "pof_pop_item (pe_id e) (pof_forward e (pof\<lparr>pof_take_any := any\<rparr>)) = pof1"
      using Suc.prems(2) by (auto simp: pof_forward_def pof_pop_item_def q pof1_def max_def)
    have same: "pof\<lparr>pof_take_any := pof_take_any pof\<rparr> = pof" by simp
    obtain pof2 where p2: "forward_loop n (head_elem pof1) event pof1
          = Some (fst (release (pof_last_sent pof1) (q_head pof1)), pof2)"
        "q_head pof2 = fst (snd (release (pof_last_sent pof1) (q_head pof1)))"
        "pof_last_sent pof2 = snd (snd (release (pof_last_sent pof1) (q_head pof1)))"
        "queue_len pof2 = int (length (q_head pof2))" "next_elem pof2 = next_elem pof1"
        "queue_max_len pof2 = queue_max_len pof1" "evfd pof2 = evfd pof1"
      using Suc.IH [of pof1] Suc.prems(1) by (auto simp: pof1_def q)
    have "forward_loop (Suc n) (head_elem pof) event pof
        = Some (e # fst (release (max (pof_last_sent pof) (pe_seq e)) q), pof2)"
    proof (cases "pe_seq e = pof_last_sent pof + 1")
      case True
      with pop p2(1) show ?thesis by (simp add: h q assms(3) any_def) (simp add: pof1_def)
    next
      case False
      with \<open>pe_seq e \<le> pof_last_sent pof + 1\<close> pop p2(1) show ?thesis
        by (simp add: h q assms(3) any_def same) (simp add: pof1_def)
    qed
    with True p2(2-) show ?thesis by (simp add: q pof1_def split: prod.splits)
  next
    case False
    with Suc.prems(2) show ?thesis by (simp add: h q assms(3))
  qed
qed simp

lemma find_elem_mem:
  "distinct (map pe_id q) \<Longrightarrow> pe \<in> set q \<Longrightarrow> find_elem (pe_id pe) q = Some pe"
  by (induction q) (auto simp: find_elem_def)

lemma unlink_elem_mset:
  "distinct (map pe_id q) \<Longrightarrow> pe \<in> set q \<Longrightarrow> add_mset pe (mset (unlink_elem (pe_id pe) q)) = mset q"
  by (induction q) (auto simp: add_mset_commute)

lemma unlink_elem_subseq: "set (unlink_elem i q) \<subseteq> set q \<and> (sorted (map pe_seq q) \<longrightarrow> sorted (map pe_seq (unlink_elem i q)))
    \<and> (distinct (map pe_id q) \<longrightarrow> distinct (map pe_id (unlink_elem i q)))"
  by (induction q) auto

lemma timeout_cleared: "(event AND NOT POF_TIMEOUT) AND POF_TIMEOUT = (0 :: int)"
  by (simp add: pof_events and.assoc)

text \<open>What a pass guarantees: the released elements leave the queue, nothing else does, and the
  queue then starts with a gap or is empty.\<close>

definition pass_post :: "'pi Pof \<Rightarrow> 'pi PofElem list \<Rightarrow> 'pi Pof \<Rightarrow> bool" where
  "pass_post pof out pof' \<longleftrightarrow> mset (q_head pof) = mset out + mset (q_head pof') \<and> pof_queue_ok pof'
     \<and> pof_last_sent pof \<le> pof_last_sent pof' \<and> (\<forall>e \<in> set out. pe_seq e \<le> pof_last_sent pof')
     \<and> (q_head pof' = [] \<or> pof_last_sent pof' + 1 < pe_seq (hd (q_head pof')))
     \<and> queue_max_len pof' = queue_max_len pof \<and> evfd pof' = evfd pof"

lemma pass_release:
  assumes ok: "pof_queue_ok pof" and ev: "event AND POF_TIMEOUT = 0"
  shows "\<exists>out pof'. forward_loop (nat (queue_len pof)) (head_elem pof) event pof = Some (out, pof')
     \<and> pass_post pof out pof' \<and> (\<exists>k. out = take k (q_head pof))"
proof -
  have len: "queue_len pof = int (length (q_head pof))" using ok by (simp add: pof_queue_ok_def)
  hence n: "nat (queue_len pof) = length (q_head pof)" by simp
  obtain out rest s where r: "release (pof_last_sent pof) (q_head pof) = (out, rest, s)" by (metis prod_cases3)
  obtain pof' where p: "forward_loop (length (q_head pof)) (head_elem pof) event pof = Some (out, pof')"
      "q_head pof' = rest" "pof_last_sent pof' = s" "queue_len pof' = int (length rest)"
      "next_elem pof' = next_elem pof" "queue_max_len pof' = queue_max_len pof" "evfd pof' = evfd pof"
    using forward_loop_release [OF refl len ev] r by auto
  have q: "q_head pof = out @ rest" by (rule release_split [OF r])
  have "pof_queue_ok pof'"
    using ok p unfolding pof_queue_ok_def q by (auto simp: sorted_append)
  hence "pass_post pof out pof'"
    using p q release_sent [OF r] release_stops [OF r] by (auto simp: pass_post_def)
  moreover have "out = take (length out) (q_head pof)" by (simp add: q)
  ultimately show ?thesis using p(1) unfolding n by blast
qed

lemma pass_timeout:
  assumes ok: "pof_queue_ok pof" and ev: "event AND POF_TIMEOUT \<noteq> 0" and pe: "pe \<in> set (q_head pof)"
  shows "\<exists>out pof'. forward_loop (nat (queue_len pof)) (Some (pe_id pe)) event pof = Some (pe # out, pof')
     \<and> pass_post pof (pe # out) pof'"
proof -
  have len: "queue_len pof = int (length (q_head pof))" and d: "distinct (map pe_id (q_head pof))"
    using ok by (auto simp: pof_queue_ok_def)
  have "nat (queue_len pof) \<noteq> 0" using len pe by auto
  then obtain n where n: "nat (queue_len pof) = Suc n" using not0_implies_Suc by blast
  define pof1 where "pof1 = pof_pop_item (pe_id pe) (pof_forward pe (pof\<lparr>pof_take_any := False\<rparr>))"
  have ne: "q_head pof \<noteq> []" "queue_len pof \<noteq> 0" using pe len by auto
  have p1: "q_head pof1 = unlink_elem (pe_id pe) (q_head pof)" "queue_len pof1 = queue_len pof - 1"
      "pof_last_sent pof1 = max (pof_last_sent pof) (pe_seq pe)" "next_elem pof1 = next_elem pof"
      "queue_max_len pof1 = queue_max_len pof" "evfd pof1 = evfd pof"
    using ne by (auto simp: pof1_def pof_pop_item_def pof_forward_def max_def)
  have ms: "add_mset pe (mset (q_head pof1)) = mset (q_head pof)"
    unfolding p1(1) by (rule unlink_elem_mset [OF d pe])
  have l1: "int (length (q_head pof1)) = queue_len pof - 1"
    using arg_cong [OF ms, of size] len by simp
  have ok1: "pof_queue_ok pof1"
    using ok p1 l1 unlink_elem_subseq [of "pe_id pe" "q_head pof"] unfolding pof_queue_ok_def by auto
  obtain out pof' where l: "forward_loop (nat (queue_len pof1)) (head_elem pof1) (event AND NOT POF_TIMEOUT) pof1
      = Some (out, pof')" "pass_post pof1 out pof'"
    using pass_release [OF ok1 timeout_cleared] by blast
  have "nat (queue_len pof1) = n" using n p1(2) by simp
  hence "forward_loop (nat (queue_len pof)) (Some (pe_id pe)) event pof = Some (pe # out, pof')"
    using l(1) ev by (simp add: n find_elem_mem [OF d pe] pof1_def)
  moreover have "pass_post pof (pe # out) pof'"
    using l(2) p1(3,5,6) ms unfolding pass_post_def by auto
  ultimately show ?thesis by blast
qed

lemma head_elem_mem: "head_elem pof = Some i \<Longrightarrow> \<exists>pe \<in> set (q_head pof). pe_id pe = i"
  by (auto simp: head_elem_def split: list.splits)

lemma try_forward_result:
  assumes inv: "pof_inv pof"
  shows "\<exists>out pof'. pof_try_forward False event pof = Some (out, pof') \<and> pass_post pof out pof'
     \<and> (event AND POF_TIMEOUT = 0 \<longrightarrow> (\<exists>k. out = take k (q_head pof)))"
proof (cases "event AND POF_TIMEOUT = 0")
  case True
  with pass_release [of pof event] inv show ?thesis
    by (auto simp: pof_try_forward_def pof_inv_def)
next
  case False
  have ok: "pof_queue_ok pof" using inv by (simp add: pof_inv_def)
  define pkt where "pkt = (if \<not> pof_take_any pof \<and> next_to_forward pof \<noteq> None then next_to_forward pof else head_elem pof)"
  have eq: "pof_try_forward False event pof = forward_loop (nat (queue_len pof)) pkt event pof"
    using False by (simp add: pof_try_forward_def pkt_def)
  show ?thesis
  proof (cases "q_head pof")
    case Nil
    with ok False show ?thesis by (auto simp: eq pof_queue_ok_def pass_post_def)
  next
    case (Cons e q)
    have "\<exists>i. pkt = Some i \<and> i \<in> pe_id ` set (q_head pof)"
      using inv Cons by (auto simp: pkt_def pof_inv_def head_elem_def split: if_splits)
    then obtain pe where "pe \<in> set (q_head pof)" "pkt = Some (pe_id pe)" by auto
    with pass_timeout [OF ok False] False show ?thesis unfolding eq by blast
  qed
qed

section \<open>Rounds of the worker\<close>

lemma deadline_loop_mem:
  "snd (deadline_loop q ret ntf) = Some i \<Longrightarrow> i \<in> pe_id ` set q \<or> ntf = Some i"
  by (induction q ret ntf rule: deadline_loop.induct) (auto split: if_splits)

lemma next_timeout_result:
  assumes "pof_queue_ok pof" and "queue_len pof \<le> queue_max_len pof \<or> queue_len pof = 0"
  shows "\<exists>t pof'. next_timeout now pof = Some (t, pof') \<and> pof_inv pof' \<and> q_head pof' = q_head pof
     \<and> pof_last_sent pof' = pof_last_sent pof \<and> pof_take_any pof' = pof_take_any pof"
proof (cases "q_head pof")
  case Nil
  hence "queue_len pof = 0" using assms(1) by (simp add: pof_queue_ok_def)
  with assms Nil show ?thesis
    by (auto simp: next_timeout_def get_next_deadline_def pof_inv_def pof_queue_ok_def)
next
  case (Cons e q)
  obtain ret ntf where r: "deadline_loop (q_head pof) (forward_time e) None = (ret, ntf)" by (metis surj_pair)
  have g: "get_next_deadline pof = Some (Some ret, pof\<lparr>next_to_forward := ntf\<rparr>)"
    using assms(1) Cons r by (simp add: get_next_deadline_def pof_queue_ok_def)
  have "pof_inv (pof\<lparr>next_to_forward := ntf\<rparr>)"
    using assms deadline_loop_mem [of "q_head pof" "forward_time e" None] r
    by (auto simp: pof_inv_def pof_queue_ok_def)
  with g show ?thesis by (auto simp: next_timeout_def)
qed

lemma pass_post_len:
  assumes "pof_inv pof" "pass_post pof out pof'"
  shows "queue_len pof' \<le> queue_max_len pof' \<or> queue_len pof' = 0"
proof -
  have m: "mset (q_head pof) = mset out + mset (q_head pof')" using assms(2) by (simp add: pass_post_def)
  have "length (q_head pof') \<le> length (q_head pof)" using arg_cong [OF m, of size] by simp
  hence "queue_len pof' \<le> queue_len pof"
    using assms by (simp add: pass_post_def pof_inv_def pof_queue_ok_def)
  moreover have "0 \<le> queue_len pof'" using assms(2) by (auto simp: pass_post_def pof_queue_ok_def)
  ultimately show ?thesis using assms by (auto simp: pass_post_def pof_inv_def)
qed

lemma pof_inv_evfd: "pof_inv (pof\<lparr>evfd := x\<rparr>) = pof_inv pof" "pass_post (pof\<lparr>evfd := x\<rparr>) out pof' \<Longrightarrow>
    mset (q_head pof) = mset out + mset (q_head pof') \<and> pof_queue_ok pof' \<and> pof_last_sent pof \<le> pof_last_sent pof'"
  by (auto simp: pof_inv_def pof_queue_ok_def pass_post_def)

text \<open>
  A round always returns, keeps the invariant, releases only elements of the queue and loses none.
\<close>

lemma pof_wakeup_result:
  assumes inv: "pof_inv pof"
  shows "\<exists>out pof1. pof_wakeup False wake pof = Some (out, pof1)
      \<and> mset (q_head pof) = mset out + mset (q_head pof1) \<and> pof_queue_ok pof1
      \<and> pof_last_sent pof \<le> pof_last_sent pof1 \<and> (queue_len pof1 \<le> queue_max_len pof1 \<or> queue_len pof1 = 0)"
proof (cases wake)
  case WAKE_EVENT
  let ?p = "pof\<lparr>evfd := 0\<rparr>"
  have i: "pof_inv ?p" using inv by (simp add: pof_inv_evfd)
  obtain out pof1 where t: "pof_try_forward False (evfd pof) ?p = Some (out, pof1)" "pass_post ?p out pof1"
    using try_forward_result [OF i, of "evfd pof"] by blast
  show ?thesis
  proof (cases "evfd pof AND POF_IN_ORDER_PKT \<noteq> 0")
    case True
    with WAKE_EVENT t(1) pof_inv_evfd(2) [OF t(2)] pass_post_len [OF i t(2)] show ?thesis
      by (simp add: pof_wakeup_def)
  next
    case False
    with WAKE_EVENT i show ?thesis by (auto simp: pof_inv_def pof_wakeup_def)
  qed
next
  case WAKE_TIMEOUT
  show ?thesis
  proof (cases "queue_len pof = 0")
    case True
    with inv have "q_head pof = []" by (simp add: pof_inv_def pof_queue_ok_def)
    with WAKE_TIMEOUT True inv show ?thesis
      by (auto simp: pof_wakeup_def pof_reset_def pof_inv_def pof_queue_ok_def)
  next
    case False
    obtain out pof1 where t: "pof_try_forward False POF_TIMEOUT pof = Some (out, pof1)" "pass_post pof out pof1"
      using try_forward_result [OF inv, of POF_TIMEOUT] by blast
    with WAKE_TIMEOUT False pass_post_len [OF inv t(2)] show ?thesis
      by (auto simp: pof_wakeup_def pass_post_def)
  qed
qed

lemma pof_round_result:
  assumes inv: "pof_inv pof"
  shows "\<exists>out t pof'. pof_round False wake now pof = Some (out, t, pof') \<and> pof_inv pof'
     \<and> mset (q_head pof) = mset out + mset (q_head pof') \<and> pof_last_sent pof \<le> pof_last_sent pof'"
proof -
  obtain out pof1 where r: "pof_wakeup False wake pof = Some (out, pof1)"
      "mset (q_head pof) = mset out + mset (q_head pof1)" "pof_queue_ok pof1"
      "pof_last_sent pof \<le> pof_last_sent pof1" "queue_len pof1 \<le> queue_max_len pof1 \<or> queue_len pof1 = 0"
    using pof_wakeup_result [OF inv] by blast
  obtain t pof2 where n: "next_timeout now pof1 = Some (t, pof2)" "pof_inv pof2" "q_head pof2 = q_head pof1"
      "pof_last_sent pof2 = pof_last_sent pof1"
    using next_timeout_result [OF r(3,5)] by blast
  have "pof_round False wake now pof = Some (out, t, pof2)"
    by (simp add: pof_round_def r(1) n(1))
  with n r show ?thesis by auto
qed

section \<open>Runs of the packet ordering function\<close>

datatype 'pi pof_op = Arrive 'pi u32 timespec | Wake pof_wake timespec

text \<open>A run: the iterators that were held, those that were forwarded, and the state.\<close>

fun pof_run :: "'pi pof_op list \<Rightarrow> 'pi Pof \<Rightarrow> ('pi list \<times> 'pi PofElem list \<times> 'pi Pof) option" where
  "pof_run [] pof = Some ([], [], pof)"
| "pof_run (Arrive pi seq now # ops) pof =
     (let (r, pof1) = pof_insert pof pi seq now in
      do { (held, out, pof2) \<leftarrow> pof_run ops pof1;
           Some (if r = ACR_HOLD then pi # held else held, out, pof2) })"
| "pof_run (Wake wake now # ops) pof =
     do { (out1, _, pof1) \<leftarrow> pof_round False wake now pof;
          (held, out, pof2) \<leftarrow> pof_run ops pof1;
          Some (held, out1 @ out, pof2) }"

lemma pof_run_result:
  assumes "pof_inv pof"
  shows "\<exists>held out pof'. pof_run ops pof = Some (held, out, pof') \<and> pof_inv pof'
     \<and> mset held + mset (map pe_pi (q_head pof)) = mset (map pe_pi out) + mset (map pe_pi (q_head pof'))"
  using assms
proof (induction ops arbitrary: pof)
  case (Cons op ops)
  show ?case
  proof (cases op)
    case (Arrive pi seq now)
    obtain r pof1 where i: "pof_insert pof pi seq now = (r, pof1)" by (metis surj_pair)
    have p1: "pof_inv pof1 \<and> mset (map pe_pi (q_head pof1))
        = mset (if r = ACR_HOLD then [pi] else []) + mset (map pe_pi (q_head pof))"
    proof (cases "r = ACR_HOLD")
      case True
      from pof_insert_held [OF Cons.prems, of pi seq now pof1] i True show ?thesis by (simp add: new_pof_elem_def)
    next
      case False
      with i pof_insert_not_held [of pof pi seq now] have "pof1 = pof" by simp
      with False Cons.prems show ?thesis by simp
    qed
    obtain held out pof2 where r: "pof_run ops pof1 = Some (held, out, pof2)" "pof_inv pof2"
        "mset held + mset (map pe_pi (q_head pof1)) = mset (map pe_pi out) + mset (map pe_pi (q_head pof2))"
      using Cons.IH [of pof1] p1 by blast
    have "pof_run (op # ops) pof = Some (if r = ACR_HOLD then pi # held else held, out, pof2)"
      by (simp add: Arrive i r(1))
    moreover have "mset (if r = ACR_HOLD then pi # held else held) + mset (map pe_pi (q_head pof))
        = mset (map pe_pi out) + mset (map pe_pi (q_head pof2))"
      using p1 r(3) by (cases "r = ACR_HOLD") simp_all
    ultimately show ?thesis using r(2) by blast
  next
    case (Wake wake now)
    obtain out1 t pof1 where o: "pof_round False wake now pof = Some (out1, t, pof1)" "pof_inv pof1"
        "mset (q_head pof) = mset out1 + mset (q_head pof1)"
      using pof_round_result [OF Cons.prems] by blast
    obtain held out pof2 where r: "pof_run ops pof1 = Some (held, out, pof2)" "pof_inv pof2"
        "mset held + mset (map pe_pi (q_head pof1)) = mset (map pe_pi out) + mset (map pe_pi (q_head pof2))"
      using Cons.IH [OF o(2)] by blast
    have "pof_run (op # ops) pof = Some (held, out1 @ out, pof2)" by (simp add: Wake o(1) r(1))
    moreover have "mset (map pe_pi (q_head pof)) = mset (map pe_pi out1) + mset (map pe_pi (q_head pof1))"
      using o(3) by simp
    ultimately show ?thesis using r(2,3) by (intro exI conjI) (assumption | simp add: ac_simps)+
  qed
qed simp

section \<open>Release in order\<close>

text \<open>A list of numbers in which none is more than one above all that precede it.\<close>

fun gap_free :: "int \<Rightarrow> int list \<Rightarrow> bool" where
  "gap_free s [] = True"
| "gap_free s (x # xs) = (x \<le> s + 1 \<and> gap_free (max s x) xs)"

lemma gap_free_append: "gap_free s (xs @ ys) = (gap_free s xs \<and> gap_free (foldl max s xs) ys)"
  by (induction xs arbitrary: s) auto

lemma release_gap_free: "release sent q = (out, rest, s) \<Longrightarrow> gap_free sent (map pe_seq out)"
  by (induction sent q arbitrary: out rest s rule: release.induct) (auto split: if_splits prod.splits)

lemma gap_free_consecutive:
  "gap_free s xs \<Longrightarrow> distinct xs \<Longrightarrow> \<forall>x \<in> set xs. s < x \<Longrightarrow> xs = [s + 1..s + int (length xs)]"
proof (induction xs arbitrary: s)
  case (Cons x xs)
  hence x: "x = s + 1" by auto
  have "\<forall>y \<in> set xs. x < y"
  proof
    fix y assume "y \<in> set xs"
    with Cons.prems(2,3) have "s < y" "y \<noteq> x" by auto
    with x show "x < y" by simp
  qed
  moreover have "gap_free x xs" "distinct xs" using Cons.prems(1,2) x by auto
  ultimately have xs: "xs = [x + 1..x + int (length xs)]" by (intro Cons.IH)
  have "[s + 1..s + int (length (x # xs))] = x # [x + 1..x + int (length xs)]"
    using upto_rec1 [of x "x + int (length xs)"] by (simp add: x algebra_simps)
  with xs show ?case by simp
qed simp

lemma pass_in_order:
  assumes ok: "pof_queue_ok pof" and ev: "event AND POF_TIMEOUT = 0"
    and run: "pof_try_forward False event pof = Some (out, pof')"
  shows "gap_free (pof_last_sent pof) (map pe_seq out)"
    "pof_last_sent pof' = foldl max (pof_last_sent pof) (map pe_seq out)"
proof -
  have len: "queue_len pof = int (length (q_head pof))" using ok by (simp add: pof_queue_ok_def)
  obtain o' rest s where r: "release (pof_last_sent pof) (q_head pof) = (o', rest, s)" by (metis prod_cases3)
  have "out = o'" "pof_last_sent pof' = s"
    using forward_loop_release [OF refl len ev] r run ev len by (auto simp: pof_try_forward_def)
  with release_gap_free [OF r] release_sent [OF r]
  show "gap_free (pof_last_sent pof) (map pe_seq out)"
    "pof_last_sent pof' = foldl max (pof_last_sent pof) (map pe_seq out)" by auto
qed

text \<open>A settled buffer: no event pending, and every waiting packet is ahead of its turn.\<close>

definition pof_settled :: "'pi Pof \<Rightarrow> bool" where
  "pof_settled pof \<longleftrightarrow> pof_inv pof \<and> evfd pof = 0
     \<and> (\<forall>e \<in> set (q_head pof). pof_last_sent pof + 1 < pe_seq e)"

text \<open>A packet arrives and the worker runs before the next one does.\<close>

definition prompt :: "('pi \<times> u32 \<times> timespec) list \<Rightarrow> 'pi pof_op list" where
  "prompt arr = concat (map (\<lambda>(pi, seq, t). [Arrive pi seq t, Wake WAKE_EVENT t]) arr)"

definition arrival_no :: "u32 \<Rightarrow> int" where
  "arrival_no seq = uint (ntohl seq AND 0xffff)"

lemma sorted_gap_head:
  assumes "sorted (map pe_seq q)" "q = [] \<or> s + 1 < pe_seq (hd q)"
  shows "\<forall>e \<in> set q. s + 1 < pe_seq e"
  using assms by (cases q) (auto intro: less_le_trans)

lemma next_timeout_keeps:
  assumes "pof_queue_ok pof" "queue_len pof \<le> queue_max_len pof \<or> queue_len pof = 0"
    "next_timeout now pof = Some (t, pof')"
  shows "pof_inv pof'" "q_head pof' = q_head pof" "pof_last_sent pof' = pof_last_sent pof"
    "evfd pof' = evfd pof"
proof -
  show "pof_inv pof'" "q_head pof' = q_head pof" "pof_last_sent pof' = pof_last_sent pof"
    using next_timeout_result [OF assms(1,2), of now] assms(3) by auto
  show "evfd pof' = evfd pof"
    using assms(3) by (auto simp: next_timeout_def get_next_deadline_def split: if_splits list.splits prod.splits Option.bind_splits option.splits)
qed

lemma prompt_settled:
  assumes inv: "pof_inv pof" and ev: "evfd pof = 0 \<or> evfd pof = POF_IN_ORDER_PKT \<or> evfd pof = POF_OUT_OF_ORDER_PKT"
    and settled: "evfd pof \<noteq> POF_IN_ORDER_PKT \<Longrightarrow> \<forall>e \<in> set (q_head pof). pof_last_sent pof + 1 < pe_seq e"
  shows "\<exists>out t pof'. pof_round False WAKE_EVENT now pof = Some (out, t, pof') \<and> pof_settled pof'
     \<and> gap_free (pof_last_sent pof) (map pe_seq out)
     \<and> pof_last_sent pof' = foldl max (pof_last_sent pof) (map pe_seq out)
     \<and> mset (q_head pof) = mset out + mset (q_head pof')"
proof -
  let ?p = "pof\<lparr>evfd := 0\<rparr>"
  have i: "pof_inv ?p" using inv by (simp add: pof_inv_evfd)
  hence ok: "pof_queue_ok ?p" by (simp add: pof_inv_def)
  have t4: "evfd pof AND POF_TIMEOUT = 0" using ev by (auto simp: pof_events)
  obtain out pof1 where w: "pof_wakeup False WAKE_EVENT pof = Some (out, pof1)" "pof_queue_ok pof1"
      "queue_len pof1 \<le> queue_max_len pof1 \<or> queue_len pof1 = 0" "evfd pof1 = 0"
      "\<forall>e \<in> set (q_head pof1). pof_last_sent pof1 + 1 < pe_seq e"
      "gap_free (pof_last_sent pof) (map pe_seq out)"
      "pof_last_sent pof1 = foldl max (pof_last_sent pof) (map pe_seq out)"
      "mset (q_head pof) = mset out + mset (q_head pof1)"
  proof (cases "evfd pof = POF_IN_ORDER_PKT")
    case True
    obtain out pof1 where t: "pof_try_forward False (evfd pof) ?p = Some (out, pof1)" "pass_post ?p out pof1"
      using try_forward_result [OF i, of "evfd pof"] by blast
    have "pof_wakeup False WAKE_EVENT pof = Some (out, pof1)"
      using t(1) True by (simp add: pof_wakeup_def pof_events)
    moreover have "\<forall>e \<in> set (q_head pof1). pof_last_sent pof1 + 1 < pe_seq e"
      using t(2) by (intro sorted_gap_head) (auto simp: pass_post_def pof_queue_ok_def)
    ultimately show ?thesis
      using that [of out pof1] pass_in_order [OF ok t4 t(1)] pass_post_len [OF i t(2)] t(2)
      by (simp add: pass_post_def)
  next
    case False
    hence "pof_wakeup False WAKE_EVENT pof = Some ([], ?p)"
      using ev by (auto simp: pof_wakeup_def pof_events)
    with False settled i show ?thesis using that [of "[]" ?p] by (simp add: pof_inv_def)
  qed
  obtain t pof2 where n: "next_timeout now pof1 = Some (t, pof2)"
    using next_timeout_result [OF w(2,3)] by blast
  note k = next_timeout_keeps [OF w(2,3) n]
  have "pof_round False WAKE_EVENT now pof = Some (out, t, pof2)" by (simp add: pof_round_def w(1) n)
  moreover have "pof_settled pof2" using k w(4,5) by (simp add: pof_settled_def)
  ultimately show ?thesis using k w(6-8) by auto
qed

lemma insert_prompt:
  assumes st: "pof_settled pof" and ins: "pof_insert pof pi seq now = (r, pof')"
  shows "pof_inv pof'" "evfd pof' = 0 \<or> evfd pof' = POF_IN_ORDER_PKT \<or> evfd pof' = POF_OUT_OF_ORDER_PKT"
    "evfd pof' \<noteq> POF_IN_ORDER_PKT \<Longrightarrow> \<forall>e \<in> set (q_head pof'). pof_last_sent pof' + 1 < pe_seq e"
    "pof_last_sent pof' = pof_last_sent pof"
    "mset (map pe_seq (q_head pof')) \<subseteq># add_mset (arrival_no seq) (mset (map pe_seq (q_head pof)))"
proof -
  have inv: "pof_inv pof" and e0: "evfd pof = 0" and gap: "\<forall>e \<in> set (q_head pof). pof_last_sent pof + 1 < pe_seq e"
    using st by (auto simp: pof_settled_def)
  have no: "pe_seq (new_pof_elem pof pi seq now) = arrival_no seq" by (simp add: new_pof_elem_def arrival_no_def)
  show "pof_last_sent pof' = pof_last_sent pof"
    using ins by (auto simp: pof_insert_def Let_def split: if_splits)
  show "evfd pof' = 0 \<or> evfd pof' = POF_IN_ORDER_PKT \<or> evfd pof' = POF_OUT_OF_ORDER_PKT"
    using ins e0 by (auto simp: pof_insert_def Let_def split: if_splits)
  show "\<forall>e \<in> set (q_head pof'). pof_last_sent pof' + 1 < pe_seq e" if "evfd pof' \<noteq> POF_IN_ORDER_PKT"
    using ins gap that e0 by (auto simp: pof_insert_def Let_def pof_place_set split: if_splits)
  show "pof_inv pof'" "mset (map pe_seq (q_head pof')) \<subseteq># add_mset (arrival_no seq) (mset (map pe_seq (q_head pof)))"
  proof (atomize (full), cases "r = ACR_HOLD")
    case True
    with pof_insert_held [OF inv ins [unfolded True]]
    show "pof_inv pof' \<and> mset (map pe_seq (q_head pof')) \<subseteq># add_mset (arrival_no seq) (mset (map pe_seq (q_head pof)))"
      by (simp add: no)
  next
    case False
    with ins pof_insert_not_held [of pof pi seq now] have "pof' = pof" by simp
    with inv show "pof_inv pof' \<and> mset (map pe_seq (q_head pof')) \<subseteq># add_mset (arrival_no seq) (mset (map pe_seq (q_head pof)))"
      by simp
  qed
qed

lemma prompt_run:
  assumes "pof_settled pof"
  shows "\<exists>held out pof'. pof_run (prompt arr) pof = Some (held, out, pof') \<and> pof_settled pof'
     \<and> gap_free (pof_last_sent pof) (map pe_seq out)
     \<and> pof_last_sent pof' = foldl max (pof_last_sent pof) (map pe_seq out)
     \<and> mset (map pe_seq out) + mset (map pe_seq (q_head pof'))
        \<subseteq># mset (map (\<lambda>(_, seq, _). arrival_no seq) arr) + mset (map pe_seq (q_head pof))"
  using assms
proof (induction arr arbitrary: pof)
  case (Cons a arr)
  obtain pi seq now where a: "a = (pi, seq, now)" by (metis prod_cases3)
  obtain r pof1 where i: "pof_insert pof pi seq now = (r, pof1)" by (metis surj_pair)
  note ins = insert_prompt [OF Cons.prems i]
  obtain out1 t pof2 where o: "pof_round False WAKE_EVENT now pof1 = Some (out1, t, pof2)" "pof_settled pof2"
      "gap_free (pof_last_sent pof) (map pe_seq out1)"
      "pof_last_sent pof2 = foldl max (pof_last_sent pof) (map pe_seq out1)"
      "mset (q_head pof1) = mset out1 + mset (q_head pof2)"
    using prompt_settled [OF ins(1,2,3), of now] unfolding ins(4) by blast
  obtain held out pof3 where r: "pof_run (prompt arr) pof2 = Some (held, out, pof3)" "pof_settled pof3"
      "gap_free (pof_last_sent pof2) (map pe_seq out)"
      "pof_last_sent pof3 = foldl max (pof_last_sent pof2) (map pe_seq out)"
      "mset (map pe_seq out) + mset (map pe_seq (q_head pof3))
        \<subseteq># mset (map (\<lambda>(_, seq, _). arrival_no seq) arr) + mset (map pe_seq (q_head pof2))"
    using Cons.IH [OF o(2)] by blast
  have "pof_run (prompt (a # arr)) pof = Some (if r = ACR_HOLD then pi # held else held, out1 @ out, pof3)"
    using i o(1) r(1) by (simp add: a prompt_def)
  moreover have "mset (map pe_seq (out1 @ out)) + mset (map pe_seq (q_head pof3))
      \<subseteq># mset (map (\<lambda>(_, seq, _). arrival_no seq) (a # arr)) + mset (map pe_seq (q_head pof))"
  proof -
    have "mset (map pe_seq (q_head pof1)) = mset (map pe_seq out1) + mset (map pe_seq (q_head pof2))"
      using o(5) by simp
    with ins(5) have 1: "mset (map pe_seq out1) + mset (map pe_seq (q_head pof2))
        \<subseteq># add_mset (arrival_no seq) (mset (map pe_seq (q_head pof)))" by simp
    have "mset (map pe_seq out1) + (mset (map pe_seq out) + mset (map pe_seq (q_head pof3)))
        \<subseteq># mset (map pe_seq out1) + (mset (map (\<lambda>(_, seq, _). arrival_no seq) arr) + mset (map pe_seq (q_head pof2)))"
      by (rule subset_mset.add_left_mono [OF r(5)])
    also have "\<dots> \<subseteq># mset (map (\<lambda>(_, seq, _). arrival_no seq) arr) + add_mset (arrival_no seq) (mset (map pe_seq (q_head pof)))"
      using subset_mset.add_left_mono [OF 1, of "mset (map (\<lambda>(_, seq, _). arrival_no seq) arr)"]
      by (simp add: ac_simps)
    finally show ?thesis by (simp add: a ac_simps)
  qed
  ultimately show ?case using r o by (auto simp: gap_free_append intro!: exI)
qed (simp add: prompt_def)

text \<open>
  C4: when the worker runs after every arrival and no deadline expires, packets with different
  positive sequence numbers leave in the order of their numbers and without a gap, starting at 1, and
  what is still held is ahead of its turn, whatever the order of arrival.
\<close>

theorem pof_releases_in_order:
  assumes "distinct (map (\<lambda>(_, seq, _). arrival_no seq) arr)"
    and "\<forall>(_, seq, _) \<in> set arr. 0 < arrival_no seq"
  shows "\<exists>held out pof. pof_run (prompt arr) (new_pof d t m) = Some (held, out, pof)
     \<and> map pe_seq out = [1..int (length out)]
     \<and> (\<forall>e \<in> set (q_head pof). int (length out) + 1 < pe_seq e)"
proof -
  have "pof_settled (new_pof d t m)" by (simp add: pof_settled_def pof_inv_new) (simp add: new_pof_def)
  from prompt_run [OF this, of arr]
  obtain held out pof where r: "pof_run (prompt arr) (new_pof d t m) = Some (held, out, pof)" "pof_settled pof"
      "gap_free 0 (map pe_seq out)" "pof_last_sent pof = foldl max 0 (map pe_seq out)"
      "mset (map pe_seq out) + mset (map pe_seq (q_head pof)) \<subseteq># mset (map (\<lambda>(_, seq, _). arrival_no seq) arr)"
    by (auto simp: new_pof_def)
  have sub: "mset (map pe_seq out) \<subseteq># mset (map (\<lambda>(_, seq, _). arrival_no seq) arr)"
    using subset_mset.order_trans [OF mset_subset_eq_add_left r(5)] .
  have "distinct (map pe_seq out)"
    using sub assms(1) by (metis distinct_append mset_append mset_eq_imp_distinct_iff subset_mset.le_iff_add ex_mset)
  moreover have "\<forall>x \<in> set (map pe_seq out). 0 < x"
  proof
    fix x assume "x \<in> set (map pe_seq out)"
    hence "x \<in> set (map (\<lambda>(_, seq, _). arrival_no seq) arr)" using mset_subset_eqD [OF sub, of x] by (simp only: set_mset_mset)
    with assms(2) show "0 < x" by auto
  qed
  ultimately have c: "map pe_seq out = [1..int (length out)]" using gap_free_consecutive [OF r(3)] by simp
  have "foldl max 0 [1..int n] = int n" for n
  proof (induction n)
    case (Suc n)
    have "[1..int (Suc n)] = [1..int n] @ [int (Suc n)]" using upto_rec2 [of 1 "int (Suc n)"] by simp
    with Suc show ?case by simp
  qed simp
  with c r(2,4) have "\<forall>e \<in> set (q_head pof). int (length out) + 1 < pe_seq e" by (simp add: pof_settled_def)
  with r(1) c show ?thesis by blast
qed

theorem pof_releases_in_order_witness:
  "\<exists>held out pof. pof_run (prompt [(''b'', htonl 2, Timespec 0 0), (''a'', htonl 1, Timespec 0 5),
        (''d'', htonl 4, Timespec 0 9)]) (new_pof 10 10 5) = Some (held, out, pof)
     \<and> map pe_seq out = [1..int (length out)]
     \<and> (\<forall>e \<in> set (q_head pof). int (length out) + 1 < pe_seq e)"
proof (rule pof_releases_in_order)
  show "distinct (map (\<lambda>(_, seq, _). arrival_no seq)
      [(''b'', htonl 2, Timespec 0 0), (''a'', htonl 1, Timespec 0 5), (''d'', htonl 4, Timespec 0 9)])" by code_simp
  show "\<forall>(_, seq, _) \<in> set [(''b'', htonl 2, Timespec 0 0), (''a'', htonl 1, Timespec 0 5), (''d'', htonl 4, Timespec 0 9)].
      0 < arrival_no seq" by code_simp
qed


section \<open>Departures from RFC 9550\<close>

text \<open>
  The event codes share one counter.  Here 5 and 7 wait for 2, and then 9, 11 and 2 are inserted before
  the worker runs.  The sum of their events is 5 and reads as a timeout: 7 leaves before 2 although no
  deadline has passed.  Two packets in order add up to 2, and the worker does nothing.
\<close>

lemma pof_events_alias:
  "(case pof_run (prompt [(''a'', htonl 1, Timespec 0 0), (''d'', htonl 7, Timespec 0 1), (''c'', htonl 5, Timespec 0 2)]
       @ [Arrive ''e'' (htonl 9) (Timespec 0 3), Arrive ''f'' (htonl 11) (Timespec 0 4),
          Arrive ''b'' (htonl 2) (Timespec 0 5), Wake WAKE_EVENT (Timespec 0 6)])
      (new_pof 10 10 5) of None \<Rightarrow> [] | Some (_, out, _) \<Rightarrow> map pe_seq out) = [1, 7, 2, 5]"
  "(case pof_run (prompt [(''a'', htonl 1, Timespec 0 0)]
       @ [Arrive ''b'' (htonl 2) (Timespec 0 1), Arrive ''c'' (htonl 2) (Timespec 0 1), Wake WAKE_EVENT (Timespec 0 3)])
      (new_pof 10 10 5) of None \<Rightarrow> [] | Some (_, out, _) \<Rightarrow> map pe_seq out) = [1]"
  by code_simp+

text \<open>
  With packet logging enabled a timeout dereferences \<open>next_to_forward\<close>, which is NULL whenever all
  held packets have the same deadline, in particular when only one is held.
\<close>

lemma pof_timeout_null_log:
  assumes "pof_inv pof" "\<not> pof_take_any pof" "q_head pof = [e]"
    and "pof_round False wake now pof0 = Some (out, t, pof)"
  shows "pof_wakeup True WAKE_TIMEOUT pof = None"
proof -
  have "queue_len pof = 1" using assms(1,3) by (simp add: pof_inv_def pof_queue_ok_def)
  obtain pof1 where n: "next_timeout now pof1 = Some (t, pof)"
    using assms(4) by (auto simp: pof_round_def split: Option.bind_splits prod.splits)
  have "q_head pof1 = q_head pof"
    using n by (auto simp: next_timeout_def get_next_deadline_def Let_def split: if_splits list.splits option.splits prod.splits Option.bind_splits)
  hence "next_to_forward pof = None"
    using n assms(3) by (auto simp: next_timeout_def get_next_deadline_def timespeccmp_def split: if_splits option.splits)
  with assms(2) \<open>queue_len pof = 1\<close> show ?thesis
    by (simp add: pof_wakeup_def pof_try_forward_def pof_events)
qed

text \<open>
  The highest number sent never decreases and a reset keeps it.  Once 65535 was sent, every packet is
  in order: the buffer no longer restores any order.
\<close>

lemma pof_order_lost_after_wrap:
  assumes "pof_queue_ok pof" "\<forall>e \<in> set (q_head pof). pe_seq e \<le> 65535" "pof_last_sent pof = 65535"
    and "event AND POF_TIMEOUT = 0" and "pof_try_forward False event pof = Some (out, pof')"
  shows "out = q_head pof"
proof -
  have "release 65535 q = (q, [], 65535)" if "\<forall>e \<in> set q. pe_seq e \<le> 65535" for q :: "'a PofElem list"
    using that by (induction q) (auto simp: max_def)
  with assms(2) have r: "release (pof_last_sent pof) (q_head pof) = (q_head pof, [], 65535)" by (simp add: assms(3))
  have len: "queue_len pof = int (length (q_head pof))" using assms(1) by (simp add: pof_queue_ok_def)
  show ?thesis using forward_loop_release [OF refl len assms(4)] r assms(4,5) len by (auto simp: pof_try_forward_def)
qed

text \<open>Events that the worker has not read yet can make the deletion wait for ever.\<close>

lemma delete_pof_result:
  assumes "pof_inv pof"
  shows "delete_pof pof \<noteq> None \<longleftrightarrow> evfd pof \<le> 8"
proof -
  have "reset_loop q (int (length q)) = Some 0" for q :: "'a PofElem list" by (induction q) auto
  hence "reset_loop (q_head pof) (queue_len pof) = Some 0"
    using assms by (simp add: pof_inv_def pof_queue_ok_def)
  thus ?thesis by (simp add: delete_pof_def pof_reset_def)
qed

lemma delete_pof_hangs:
  "(case pof_run (prompt [(''a'', htonl 1, Timespec 0 0)] @ map (\<lambda>n. Arrive ''x'' (htonl n) (Timespec 0 1)) [3, 4, 5, 6, 7])
      (new_pof 10 10 8) of None \<Rightarrow> False | Some (_, _, pof) \<Rightarrow> delete_pof pof = None)"
  by code_simp

end
