(* ===== verification/Header.thy ===== *)
theory Header
  imports Packet
begin

text \<open>
  Header fields (\<^verbatim>\<open>src/header.c\<close>, \<^verbatim>\<open>src/headerdesc.c\<close>, \<^verbatim>\<open>src/value.h\<close>): the functions that write a value
  into a bit field of a packet's header, read a field, and compare a field with a value, and the choice
  of the function by the offset and the length of the field.

  A value points to bytes of its own (a constant) or into the buffer of the packet (the result of a
  field reader); the second kind is read while the packet is being written, so the pointer is kept as it
  is and every read goes through the current buffer.  Offsets and counts are natural numbers: they come
  from the protocol table and are far below $2^{32}$.  An access outside of a buffer, and a header index
  without a header, is \<open>None\<close>.
\<close>

section \<open>Data\<close>

datatype value_ptr = VNull | VConst "u8 list" | VPacket nat

record Value =
  vptr :: value_ptr
  vbitoffset :: nat
  vbitcount :: nat

definition init_value :: "nat \<Rightarrow> nat \<Rightarrow> Value" where
  "init_value bo bc = \<lparr>vptr = VNull, vbitoffset = bo, vbitcount = bc\<rparr>"

record HeaderField =
  header_idx :: nat
  fbitoffset :: nat
  fbitcount :: nat

type_synonym value_consumer = "HeaderField \<Rightarrow> Value \<Rightarrow> Packet \<Rightarrow> Packet option"
type_synonym value_producer = "HeaderField \<Rightarrow> value_consumer \<Rightarrow> HeaderField \<Rightarrow> Packet \<Rightarrow> Packet option"
type_synonym value_comparator = "HeaderField \<Rightarrow> Value \<Rightarrow> Packet \<Rightarrow> bool option"

definition new_headerfield :: "nat \<Rightarrow> ProtocolField \<Rightarrow> HeaderField" where
  "new_headerfield idx pf = \<lparr>header_idx = idx, fbitoffset = bitoffset pf, fbitcount = bitcount pf\<rparr>"

text \<open>Byte \<open>i\<close> of a value, in the current buffer of the packet.\<close>

definition vget :: "Value \<Rightarrow> u8 list \<Rightarrow> nat \<Rightarrow> u8 option" where
  "vget v b i = (case vptr v of VNull \<Rightarrow> None | VConst bs \<Rightarrow> aget bs i | VPacket base \<Rightarrow> aget b (base + i))"

text \<open>The address of the first byte of a field.\<close>

definition field_addr :: "HeaderField \<Rightarrow> Packet \<Rightarrow> nat option" where
  "field_addr f p = do { h \<leftarrow> aget (headers p) (header_idx f); Some (unat (hstart h) + fbitoffset f div 8) }"

section \<open>Writers\<close>

fun copy_loop :: "Value \<Rightarrow> nat \<Rightarrow> nat \<Rightarrow> nat \<Rightarrow> u8 list \<Rightarrow> u8 list option" where
  "copy_loop v s d 0 b = Some b"
| "copy_loop v s d (Suc n) b =
     do { x \<leftarrow> vget v b s; b' \<leftarrow> aset b d x; copy_loop v (s + 1) (d + 1) n b' }"

definition bit_mask :: "nat \<Rightarrow> nat \<Rightarrow> u8" where
  "bit_mask bc shift = push_bit shift (push_bit bc 1 - 1)"

text \<open>The statements \<^verbatim>\<open>dst[d] &= ~mask; dst[d] |= src[s] & mask;\<close>.\<close>

definition mask_byte :: "Value \<Rightarrow> nat \<Rightarrow> nat \<Rightarrow> u8 \<Rightarrow> u8 list \<Rightarrow> u8 list option" where
  "mask_byte v s d m b =
     do { x \<leftarrow> aget b d;
          b1 \<leftarrow> aset b d (x AND NOT m);
          y \<leftarrow> vget v b1 s;
          z \<leftarrow> aget b1 d;
          aset b1 d (z OR (y AND m)) }"

definition write_bytes :: value_consumer where
  "write_bytes field value p =
     do { dst \<leftarrow> field_addr field p;
          b \<leftarrow> copy_loop value (vbitoffset value div 8) dst (vbitcount value div 8) (buf p);
          Some (p\<lparr>buf := b\<rparr>) }"

definition write_bits :: value_consumer where
  "write_bits field value p =
     do { dst \<leftarrow> field_addr field p;
          let bo = fbitoffset field mod 8; let bc = fbitcount field; let shift = 8 - bo - bc;
          b \<leftarrow> mask_byte value (vbitoffset value div 8) dst (bit_mask bc shift) (buf p);
          Some (p\<lparr>buf := b\<rparr>) }"

definition write_generic :: value_consumer where
  "write_generic field value p =
     do { dst \<leftarrow> field_addr field p;
          let src = vbitoffset value div 8; let bo = fbitoffset field mod 8; let bc = fbitcount field;
          let bc1 = min bc (8 - bo); let shift = 8 - bo - bc1;
          let remaining_bytes = (bc - bc1) div 8; let remaining_bits = (bc - bc1) mod 8;
          b1 \<leftarrow> mask_byte value src dst (bit_mask bc1 shift) (buf p);
          b2 \<leftarrow> copy_loop value (src + 1) (dst + 1) remaining_bytes b1;
          b3 \<leftarrow> (if remaining_bits \<noteq> 0
                 then mask_byte value (src + 1 + remaining_bytes) (dst + 1 + remaining_bytes)
                        (bit_mask remaining_bits (8 - remaining_bits)) b2
                 else Some b2);
          Some (p\<lparr>buf := b3\<rparr>) }"

definition header_get_field_writer :: "HeaderField \<Rightarrow> Value \<Rightarrow> value_consumer option" where
  "header_get_field_writer target source =
     (if vbitcount source \<noteq> fbitcount target then None
      else if vbitoffset source mod 8 \<noteq> fbitoffset target mod 8 then None
      else if fbitoffset target mod 8 = 0 \<and> fbitcount target mod 8 = 0 \<and>
              vbitoffset source mod 8 = 0 \<and> vbitcount source mod 8 = 0 then Some write_bytes
      else if fbitoffset target mod 8 + fbitcount target \<le> 8 then Some write_bits
      else Some write_generic)"

section \<open>Readers\<close>

definition read_bytes :: value_producer where
  "read_bytes source consumer consumer_state p =
     do { src \<leftarrow> field_addr source p;
          consumer consumer_state
            \<lparr>vptr = VPacket src, vbitoffset = fbitoffset source mod 8, vbitcount = fbitcount source\<rparr> p }"

definition header_get_field_reader :: "Value \<Rightarrow> HeaderField \<Rightarrow> value_producer option" where
  "header_get_field_reader target source =
     (if fbitcount source \<noteq> vbitcount target then None
      else if fbitoffset source mod 8 \<noteq> vbitoffset target mod 8 then None
      else Some read_bytes)"

section \<open>Comparators\<close>

fun compare_loop :: "Value \<Rightarrow> nat \<Rightarrow> nat \<Rightarrow> nat \<Rightarrow> u8 list \<Rightarrow> bool option" where
  "compare_loop v s d 0 b = Some True"
| "compare_loop v s d (Suc n) b =
     do { x \<leftarrow> aget b d; y \<leftarrow> vget v b s;
          if x \<noteq> y then Some False else compare_loop v (s + 1) (d + 1) n b }"

definition compare_masked :: "Value \<Rightarrow> nat \<Rightarrow> nat \<Rightarrow> u8 \<Rightarrow> u8 list \<Rightarrow> bool option" where
  "compare_masked v s d m b =
     do { x \<leftarrow> aget b d; y \<leftarrow> vget v b s; Some (x AND m = y AND m) }"

definition compare_bytes :: value_comparator where
  "compare_bytes field value p =
     do { hdr \<leftarrow> field_addr field p;
          compare_loop value (vbitoffset value div 8) hdr (vbitcount value div 8) (buf p) }"

definition compare_bits :: value_comparator where
  "compare_bits field value p =
     do { hdr \<leftarrow> field_addr field p;
          let bo = fbitoffset field mod 8; let bc = fbitcount field; let shift = 8 - bo - bc;
          compare_masked value (vbitoffset value div 8) hdr (bit_mask bc shift) (buf p) }"

definition compare_generic :: value_comparator where
  "compare_generic field value p =
     do { hdr \<leftarrow> field_addr field p;
          let src = vbitoffset value div 8; let bo = fbitoffset field mod 8; let bc = fbitcount field;
          let bc1 = min bc (8 - bo); let shift = 8 - bo - bc1;
          let remaining_bytes = (bc - bc1) div 8; let remaining_bits = (bc - bc1) mod 8;
          first \<leftarrow> compare_masked value src hdr (bit_mask bc1 shift) (buf p);
          if \<not> first then Some False
          else do { middle \<leftarrow> compare_loop value (src + 1) (hdr + 1) remaining_bytes (buf p);
                    if \<not> middle then Some False
                    else if remaining_bits \<noteq> 0
                         then compare_masked value (src + 1 + remaining_bytes) (hdr + 1 + remaining_bytes)
                                (bit_mask remaining_bits (8 - remaining_bits)) (buf p)
                         else Some True } }"

definition header_get_field_comprator :: "HeaderField \<Rightarrow> Value \<Rightarrow> value_comparator option" where
  "header_get_field_comprator target match =
     (if vbitcount match \<noteq> fbitcount target then None
      else if vbitoffset match mod 8 \<noteq> fbitoffset target mod 8 then None
      else if fbitoffset target mod 8 = 0 \<and> fbitcount target mod 8 = 0 \<and>
              vbitoffset match mod 8 = 0 \<and> vbitcount match mod 8 = 0 then Some compare_bytes
      else if fbitoffset target mod 8 + fbitcount target \<le> 8 then Some compare_bits
      else Some compare_generic)"

section \<open>Header descriptors\<close>

record HeaderMatch =
  hm_field :: HeaderField
  hm_value :: Value
  hm_comparator :: value_comparator
  hm_neg :: bool

record HeaderDescriptor =
  hd_name :: string
  hd_id :: ProtocolID
  hd_matches :: "HeaderMatch list"

text \<open>
  The copies are deep: the bytes that the value's offset and count span are duplicated.  A constant with
  fewer bytes is an access out of bounds.
\<close>

definition copy_value :: "Value \<Rightarrow> Value option" where
  "copy_value v = (case vptr v of
       VConst bs \<Rightarrow> do { bs' \<leftarrow> mem_read bs 0 ((vbitoffset v + vbitcount v + 7) div 8);
                          Some (v\<lparr>vptr := VConst bs'\<rparr>) }
     | _ \<Rightarrow> None)"

fun copy_match_list :: "HeaderMatch list \<Rightarrow> HeaderMatch list option" where
  "copy_match_list [] = Some []"
| "copy_match_list (m # ms) =
     do { v \<leftarrow> copy_value (hm_value m);
          ms' \<leftarrow> copy_match_list ms;
          Some (m\<lparr>hm_value := v\<rparr> # ms') }"

fun copy_header_list :: "HeaderDescriptor list \<Rightarrow> bool \<Rightarrow> HeaderDescriptor list option" where
  "copy_header_list [] copy_matchlist = Some []"
| "copy_header_list (h # hs) copy_matchlist =
     do { ms \<leftarrow> (if copy_matchlist then copy_match_list (hd_matches h) else Some []);
          hs' \<leftarrow> copy_header_list hs copy_matchlist;
          Some (\<lparr>hd_name = hd_name h, hd_id = hd_id h, hd_matches = ms\<rparr> # hs') }"

fun header_list_find_by_name :: "HeaderDescriptor list \<Rightarrow> string \<Rightarrow> HeaderDescriptor option" where
  "header_list_find_by_name [] name = None"
| "header_list_find_by_name (h # hs) name = (if hd_name h = name then Some h else header_list_find_by_name hs name)"

fun header_list_find_by_typeid :: "HeaderDescriptor list \<Rightarrow> ProtocolID \<Rightarrow> HeaderDescriptor option" where
  "header_list_find_by_typeid [] i = None"
| "header_list_find_by_typeid (h # hs) i = (if hd_id h = i then Some h else header_list_find_by_typeid hs i)"

section \<open>Bits of a buffer\<close>

text \<open>Bit \<open>k\<close> of a buffer in the order of the wire: the most significant bit of a byte comes first.\<close>

definition hbit :: "u8 list \<Rightarrow> nat \<Rightarrow> bool" where
  "hbit b k = bit (b ! (k div 8)) (7 - k mod 8)"

text \<open>\<open>n\<close> bits of \<open>src\<close> from bit \<open>s\<close> on were written over bit \<open>d\<close> and the following ones, and nothing else changed.\<close>

definition bits_written :: "u8 list \<Rightarrow> u8 list \<Rightarrow> nat \<Rightarrow> nat \<Rightarrow> nat \<Rightarrow> u8 list \<Rightarrow> bool" where
  "bits_written b b' d n s src \<longleftrightarrow> length b' = length b \<and>
     (\<forall>k < 8 * length b. hbit b' k = (if d \<le> k \<and> k < d + n then hbit src (k - d + s) else hbit b k))"

lemma bits_written_none: "bits_written b b d 0 s src"
  by (auto simp: bits_written_def)

lemma bits_written_append:
  assumes "bits_written b0 b1 d n s src" "bits_written b1 b2 (d + n) m (s + n) src"
  shows "bits_written b0 b2 d (n + m) s src"
  unfolding bits_written_def
proof (intro conjI allI impI)
  show "length b2 = length b0" using assms by (simp add: bits_written_def)
  fix k assume k: "k < 8 * length b0"
  have len: "length b1 = length b0" using assms by (simp add: bits_written_def)
  have 2: "hbit b2 k = (if d + n \<le> k \<and> k < d + n + m then hbit src (k - (d + n) + (s + n)) else hbit b1 k)"
    using assms(2) k len by (simp add: bits_written_def)
  have 1: "hbit b1 k = (if d \<le> k \<and> k < d + n then hbit src (k - d + s) else hbit b0 k)"
    using assms(1) k by (simp add: bits_written_def)
  have "d + n \<le> k \<Longrightarrow> k - (d + n) + (s + n) = k - d + s" by simp
  with 1 2 show "hbit b2 k = (if d \<le> k \<and> k < d + (n + m) then hbit src (k - d + s) else hbit b0 k)" by auto
qed

lemma bit_bit_mask: "bit (bit_mask bc shift) n \<longleftrightarrow> shift \<le> n \<and> n < shift + bc \<and> n < 8"
proof -
  have "push_bit bc 1 - 1 = (mask bc :: u8)" by (simp add: mask_eq_exp_minus_1 push_bit_eq_mult)
  thus ?thesis by (auto simp: bit_mask_def bit_simps)
qed

text \<open>A byte with the bits under a mask replaced.\<close>

lemma hbit_masked_byte:
  assumes "d < length b" "k < 8 * length b" "bo + bc \<le> 8"
  shows "hbit (b[d := (b ! d AND NOT (bit_mask bc (8 - bo - bc))) OR (y AND bit_mask bc (8 - bo - bc))]) k
     = (if 8 * d + bo \<le> k \<and> k < 8 * d + bo + bc then bit y (7 - k mod 8) else hbit b k)"
proof (cases "k div 8 = d")
  case True
  define r where "r = k mod 8"
  have k: "k = 8 * d + r" and r: "r < 8" using True by (auto simp: r_def)
  have "bit (bit_mask bc (8 - bo - bc)) (7 - r) \<longleftrightarrow> bo \<le> r \<and> r < bo + bc"
    using assms(3) r by (auto simp: bit_bit_mask)
  moreover have "k div 8 = d" "k mod 8 = r" using k r by auto
  ultimately show ?thesis using assms(1) k r by (auto simp: hbit_def bit_simps)
next
  case False
  have "\<not> (8 * d + bo \<le> k \<and> k < 8 * d + bo + bc)" using False assms(3) by (auto simp: div_nat_eqI)
  with False show ?thesis by (auto simp: hbit_def)
qed

section \<open>Writing a field\<close>

text \<open>
  The bytes that a value points to are \<open>src\<close>, and stay so while bytes \<open>lo\<close> to \<open>hi\<close> of the packet's
  buffer are overwritten.
\<close>

definition same_outside :: "nat \<Rightarrow> nat \<Rightarrow> u8 list \<Rightarrow> u8 list \<Rightarrow> bool" where
  "same_outside lo hi b b' \<longleftrightarrow> length b' = length b \<and> (\<forall>j < length b. j < lo \<or> hi \<le> j \<longrightarrow> b' ! j = b ! j)"

definition source_is :: "Value \<Rightarrow> nat \<Rightarrow> nat \<Rightarrow> u8 list \<Rightarrow> u8 list \<Rightarrow> nat \<Rightarrow> bool" where
  "source_is v lo hi b src n \<longleftrightarrow> (\<forall>b' i. same_outside lo hi b b' \<longrightarrow> i < n \<longrightarrow> vget v b' i = Some (src ! i))"

lemma source_const: "vptr v = VConst bs \<Longrightarrow> n \<le> length bs \<Longrightarrow> source_is v lo hi b bs n"
  by (auto simp: source_is_def vget_def)

lemma source_packet:
  assumes "vptr v = VPacket base" "base + n \<le> length b" "base + n \<le> lo \<or> hi \<le> base"
  shows "source_is v lo hi b (drop base b) n"
  using assms by (auto simp: source_is_def same_outside_def vget_def)

lemma same_outside_update:
  "same_outside lo hi b0 b \<Longrightarrow> lo \<le> d \<Longrightarrow> d < hi \<Longrightarrow> same_outside lo hi b0 (b[d := x])"
  by (auto simp: same_outside_def nth_list_update)

lemma hbit_byte: "r < 8 \<Longrightarrow> hbit b (8 * q + r) = bit (b ! q) (7 - r)"
  by (simp add: hbit_def)

lemma mask_byte_written:
  assumes src: "source_is v lo hi b0 src n" "s < n" and same: "same_outside lo hi b0 b"
    and d: "lo \<le> d" "d < hi" "hi \<le> length b0" and bo: "bo + bc \<le> 8"
  shows "\<exists>b'. mask_byte v s d (bit_mask bc (8 - bo - bc)) b = Some b'
     \<and> bits_written b b' (8 * d + bo) bc (8 * s + bo) src \<and> same_outside lo hi b0 b'"
proof -
  let ?m = "bit_mask bc (8 - bo - bc)"
  define b1 where "b1 = b[d := b ! d AND NOT ?m]"
  have len: "length b = length b0" and dl: "d < length b" using same d by (auto simp: same_outside_def)
  have s1: "same_outside lo hi b0 b1" unfolding b1_def by (rule same_outside_update [OF same d(1,2)])
  have y: "vget v b1 s = Some (src ! s)" using src s1 by (simp add: source_is_def)
  define b' where "b' = b[d := (b ! d AND NOT ?m) OR (src ! s AND ?m)]"
  have run: "mask_byte v s d ?m b = Some b'"
    using dl y by (simp add: mask_byte_def b'_def) (simp add: b1_def)
  have "bits_written b b' (8 * d + bo) bc (8 * s + bo) src"
    unfolding bits_written_def
  proof (intro conjI allI impI)
    show "length b' = length b" by (simp add: b'_def)
    fix k assume k: "k < 8 * length b"
    have "hbit src (k - (8 * d + bo) + (8 * s + bo)) = bit (src ! s) (7 - k mod 8)"
      if "8 * d + bo \<le> k" "k < 8 * d + bo + bc"
    proof -
      define r where "r = k - 8 * d"
      have r: "k = 8 * d + r" "bo \<le> r" "r < 8" using that bo by (auto simp: r_def)
      have "k - (8 * d + bo) + (8 * s + bo) = 8 * s + r" using r by simp
      thus ?thesis using r hbit_byte [of r src s] by (simp add: add.commute)
    qed
    with hbit_masked_byte [OF dl k bo, of "src ! s"]
    show "hbit b' k = (if 8 * d + bo \<le> k \<and> k < 8 * d + bo + bc
        then hbit src (k - (8 * d + bo) + (8 * s + bo)) else hbit b k)" by (simp add: b'_def)
  qed
  moreover have "same_outside lo hi b0 b'" unfolding b'_def by (rule same_outside_update [OF same d(1,2)])
  ultimately show ?thesis using run by blast
qed

lemma byte_written: "d < length b \<Longrightarrow> bits_written b (b[d := src ! s]) (8 * d) 8 (8 * s) src"
  unfolding bits_written_def
proof (intro conjI allI impI)
  fix k assume "d < length b" "k < 8 * length b"
  define q r where "q = k div 8" and "r = k mod 8"
  have k: "k = 8 * q + r" "r < 8" by (auto simp: q_def r_def)
  show "hbit (b[d := src ! s]) k = (if 8 * d \<le> k \<and> k < 8 * d + 8 then hbit src (k - 8 * d + 8 * s) else hbit b k)"
  proof (cases "q = d")
    case True
    have "hbit src (k - 8 * d + 8 * s) = bit (src ! s) (7 - r)"
      using True k hbit_byte [of r src s] by (simp add: add.commute)
    moreover have "hbit (b[d := src ! s]) k = bit (src ! s) (7 - r)"
      using True k \<open>d < length b\<close> by (simp add: hbit_byte)
    ultimately show ?thesis using True k by simp
  next
    case False
    hence "\<not> (8 * d \<le> k \<and> k < 8 * d + 8)" using k by auto
    moreover have "hbit (b[d := src ! s]) k = hbit b k" using k False by (simp add: hbit_byte)
    ultimately show ?thesis by auto
  qed
qed simp

lemma copy_loop_written:
  assumes "source_is v lo hi b0 src m" "s + n \<le> m" "same_outside lo hi b0 b"
    and "lo \<le> d" "d + n \<le> hi" "hi \<le> length b0"
  shows "\<exists>b'. copy_loop v s d n b = Some b'
     \<and> bits_written b b' (8 * d) (8 * n) (8 * s) src \<and> same_outside lo hi b0 b'"
  using assms(2-5)
proof (induction n arbitrary: s d b)
  case 0
  thus ?case by (simp add: bits_written_none)
next
  case (Suc n)
  have dl: "d < length b" using Suc.prems assms(6) by (simp add: same_outside_def)
  have v: "vget v b s = Some (src ! s)" using assms(1) Suc.prems(1,2) by (simp add: source_is_def)
  let ?b = "b[d := src ! s]"
  have "same_outside lo hi b0 ?b" using Suc.prems by (intro same_outside_update) auto
  with Suc.IH [of "s + 1" ?b "d + 1"] Suc.prems obtain b' where b':
      "copy_loop v (s + 1) (d + 1) n ?b = Some b'" "bits_written ?b b' (8 * d + 8) (8 * n) (8 * s + 8) src"
      "same_outside lo hi b0 b'" by (auto simp: algebra_simps)
  with bits_written_append [OF byte_written [OF dl, of src s] b'(2)] dl v show ?case by (auto simp: algebra_simps)
qed

text \<open>The bytes that a field touches.\<close>

definition field_bytes :: "HeaderField \<Rightarrow> nat" where
  "field_bytes f = (fbitoffset f mod 8 + fbitcount f + 7) div 8"

lemma same_outside_refl: "same_outside lo hi b b"
  by (simp add: same_outside_def)

text \<open>The first byte, the full bytes and the last bits of a field that spans bytes.\<close>

lemma divceil_8: "(x + 7) div 8 = x div 8 + (if x mod 8 = 0 then 0 else 1)" for x :: nat
proof -
  define q r where "q = x div 8" and "r = x mod 8"
  have x: "x = 8 * q + r" "r < 8" by (auto simp: q_def r_def)
  have "(r + 7) div 8 = (if r = 0 then 0 else 1)" using x(2) by auto
  hence e: "(8 * q + (r + 7)) div 8 = q + (if r = 0 then 0 else 1)" by simp
  have "x + 7 = 8 * q + (r + 7)" using x(1) by linarith
  hence "(x + 7) div 8 = q + (if r = 0 then 0 else 1)" using e by argo
  thus ?thesis unfolding q_def r_def .
qed

lemma generic_split:
  assumes "8 < fbitoffset t mod 8 + fbitcount t"
  shows "fbitcount t = (8 - fbitoffset t mod 8) + 8 * ((fbitcount t - (8 - fbitoffset t mod 8)) div 8)
           + (fbitcount t - (8 - fbitoffset t mod 8)) mod 8"
    and "field_bytes t = 1 + (fbitcount t - (8 - fbitoffset t mod 8)) div 8
           + (if (fbitcount t - (8 - fbitoffset t mod 8)) mod 8 = 0 then 0 else 1)"
proof -
  define x where "x = fbitcount t - (8 - fbitoffset t mod 8)"
  define bo where "bo = fbitoffset t mod 8"
  have bo: "bo < 8" by (simp add: bo_def)
  have bc: "fbitcount t = (8 - bo) + x" using assms by (simp add: x_def bo_def)
  show "fbitcount t = (8 - fbitoffset t mod 8) + 8 * ((fbitcount t - (8 - fbitoffset t mod 8)) div 8)
           + (fbitcount t - (8 - fbitoffset t mod 8)) mod 8"
    unfolding x_def [symmetric] bo_def [symmetric] using bc by simp
  have "field_bytes t = ((x + 7) + 8) div 8"
    unfolding field_bytes_def bo_def [symmetric] bc using bo by (simp add: add.commute)
  also have "\<dots> = 1 + (x + 7) div 8" by simp
  finally show "field_bytes t = 1 + (fbitcount t - (8 - fbitoffset t mod 8)) div 8
           + (if (fbitcount t - (8 - fbitoffset t mod 8)) mod 8 = 0 then 0 else 1)"
    unfolding x_def [symmetric] by (simp add: divceil_8)
qed

lemma write_generic_written:
  assumes addr: "field_addr t p = Some a" and src: "source_is v a (a + field_bytes t) (buf p) src n"
    and n: "vbitoffset v div 8 + field_bytes t \<le> n" and len: "a + field_bytes t \<le> length (buf p)"
    and big: "8 < fbitoffset t mod 8 + fbitcount t" and off: "vbitoffset v mod 8 = fbitoffset t mod 8"
  shows "\<exists>b'. write_generic t v p = Some (p\<lparr>buf := b'\<rparr>)
     \<and> bits_written (buf p) b' (8 * a + fbitoffset t mod 8) (fbitcount t) (vbitoffset v) src"
proof -
  define bo bc s where "bo = fbitoffset t mod 8" and "bc = fbitcount t" and "s = vbitoffset v div 8"
  define rb where "rb = (bc - (8 - bo)) div 8"
  define rr where "rr = (bc - (8 - bo)) mod 8"
  let ?hi = "a + field_bytes t"
  have bo: "bo < 8" by (simp add: bo_def)
  have rr: "rr < 8" by (simp add: rr_def)
  note split = generic_split(1) [OF big, folded bo_def bc_def, folded rb_def rr_def]
    and fb = generic_split(2) [OF big, folded bo_def bc_def, folded rb_def rr_def]
  have vo: "vbitoffset v = 8 * s + bo" by (simp add: s_def bo_def off [symmetric])
  have m: "min bc (8 - bo) = 8 - bo" "8 - bo - (8 - bo) = 0" using split by auto
  obtain b1 where b1: "mask_byte v s a (bit_mask (8 - bo) 0) (buf p) = Some b1"
      "bits_written (buf p) b1 (8 * a + bo) (8 - bo) (8 * s + bo) src" "same_outside a ?hi (buf p) b1"
    using mask_byte_written [OF src _ same_outside_refl, of s a bo "8 - bo"] n len bo fb
    by (auto simp: s_def)
  have e: "8 * a + bo + (8 - bo) = 8 * (a + 1)" "8 * s + bo + (8 - bo) = 8 * (s + 1)" using bo by auto
  obtain b2 where b2: "copy_loop v (s + 1) (a + 1) rb b1 = Some b2"
      "bits_written b1 b2 (8 * (a + 1)) (8 * rb) (8 * (s + 1)) src" "same_outside a ?hi (buf p) b2"
    using copy_loop_written [OF src _ b1(3), of "s + 1" rb "a + 1"] n len fb by (auto simp: s_def)
  have w2: "bits_written (buf p) b2 (8 * a + bo) (8 - bo + 8 * rb) (8 * s + bo) src"
    using bits_written_append [OF b1(2), of b2 "8 * rb"] b2(2) unfolding e by blast
  obtain b3 where b3: "(if rr \<noteq> 0 then mask_byte v (s + 1 + rb) (a + 1 + rb) (bit_mask rr (8 - rr)) b2 else Some b2) = Some b3"
      "bits_written b2 b3 (8 * (a + 1 + rb)) rr (8 * (s + 1 + rb)) src"
  proof (cases "rr = 0")
    case True
    thus ?thesis using that [of b2] by (simp add: bits_written_none)
  next
    case False
    hence "s + 1 + rb < n" "a + 1 + rb < ?hi" using n fb by (auto simp: s_def)
    with mask_byte_written [OF src this(1) b2(3), of "a + 1 + rb" 0 rr] len rr False that show ?thesis by auto
  qed
  have e3: "8 * a + bo + (8 - bo + 8 * rb) = 8 * (a + 1 + rb)" "8 * s + bo + (8 - bo + 8 * rb) = 8 * (s + 1 + rb)"
    using bo by auto
  have "bits_written (buf p) b3 (8 * a + bo) bc (vbitoffset v) src"
    using bits_written_append [OF w2, of b3 rr] b3(2) unfolding e3 vo split by simp
  moreover have "write_generic t v p = Some (p\<lparr>buf := b3\<rparr>)"
    using addr b1(1) b2(1) b3(1) unfolding write_generic_def Let_def bo_def [symmetric] bc_def [symmetric] s_def [symmetric]
    by (cases "rr = 0") (simp_all add: m rb_def [symmetric] rr_def [symmetric])
  ultimately show ?thesis by (auto simp: bo_def bc_def)
qed

lemma writer_written:
  assumes w: "header_get_field_writer t v = Some w" and addr: "field_addr t p = Some a"
    and src: "source_is v a (a + field_bytes t) (buf p) src n"
    and n: "vbitoffset v div 8 + field_bytes t \<le> n" and len: "a + field_bytes t \<le> length (buf p)"
  shows "\<exists>b'. w t v p = Some (p\<lparr>buf := b'\<rparr>)
     \<and> bits_written (buf p) b' (8 * a + fbitoffset t mod 8) (fbitcount t) (vbitoffset v) src"
proof -
  have off: "vbitoffset v mod 8 = fbitoffset t mod 8" and cnt: "vbitcount v = fbitcount t"
    using w by (auto simp: header_get_field_writer_def split: if_splits)
  consider "w = write_bytes" "fbitoffset t mod 8 = 0" "fbitcount t mod 8 = 0"
    | "w = write_bits" "fbitoffset t mod 8 + fbitcount t \<le> 8" "\<not> (fbitoffset t mod 8 = 0 \<and> fbitcount t mod 8 = 0)"
    | "w = write_generic" "8 < fbitoffset t mod 8 + fbitcount t"
    using w by (auto simp: header_get_field_writer_def split: if_splits)
  thus ?thesis
  proof cases
    case 1
    have fb: "field_bytes t = fbitcount t div 8" "8 * (fbitcount t div 8) = fbitcount t"
      using 1(2,3) by (auto simp: field_bytes_def)
    have vo: "8 * (vbitoffset v div 8) = vbitoffset v" using off 1(2) by auto
    from copy_loop_written [OF src _ same_outside_refl, of "vbitoffset v div 8" "fbitcount t div 8" a] n len
    obtain b' where "copy_loop v (vbitoffset v div 8) a (fbitcount t div 8) (buf p) = Some b'"
        "bits_written (buf p) b' (8 * a) (fbitcount t) (vbitoffset v) src" by (auto simp: fb vo)
    with 1 addr cnt show ?thesis by (intro exI [of _ b'] conjI) (simp_all add: write_bytes_def)
  next
    case 2
    have fb: "field_bytes t = 1" using 2(2,3) by (auto simp: field_bytes_def)
    have vo: "8 * (vbitoffset v div 8) + fbitoffset t mod 8 = vbitoffset v" by (simp add: off [symmetric])
    from mask_byte_written [OF src _ same_outside_refl, of "vbitoffset v div 8" a "fbitoffset t mod 8" "fbitcount t"] n len 2(2)
    obtain b' where "mask_byte v (vbitoffset v div 8) a (bit_mask (fbitcount t) (8 - fbitoffset t mod 8 - fbitcount t)) (buf p) = Some b'"
        "bits_written (buf p) b' (8 * a + fbitoffset t mod 8) (fbitcount t) (vbitoffset v) src"
      by (auto simp: fb vo)
    with 2(1) addr show ?thesis by (intro exI [of _ b'] conjI) (simp_all add: write_bits_def Let_def)
  next
    case 3
    from write_generic_written [OF addr src n len 3(2) off] 3(1) show ?thesis by simp
  qed
qed

section \<open>Comparing a field\<close>

definition bits_equal :: "u8 list \<Rightarrow> nat \<Rightarrow> nat \<Rightarrow> nat \<Rightarrow> u8 list \<Rightarrow> bool" where
  "bits_equal b d n s src \<longleftrightarrow> (\<forall>k < n. hbit b (d + k) = hbit src (s + k))"

lemma bits_equal_append:
  "bits_equal b d (n + m) s src \<longleftrightarrow> bits_equal b d n s src \<and> bits_equal b (d + n) m (s + n) src"
proof -
  have "(\<forall>k < n + m. P k) \<longleftrightarrow> (\<forall>k < n. P k) \<and> (\<forall>k < m. P (n + k))" for P :: "nat \<Rightarrow> bool"
  proof (intro iffI conjI allI impI)
    fix k assume a: "(\<forall>k < n. P k) \<and> (\<forall>k < m. P (n + k))" "k < n + m"
    show "P k"
    proof (cases "k < n")
      case False
      hence "k = n + (k - n)" "k - n < m" using a(2) by auto
      thus ?thesis using a(1) by metis
    qed (use a in simp)
  qed auto
  thus ?thesis by (simp add: bits_equal_def add.assoc)
qed

lemma bits_written_equal:
  assumes "bits_written b b' d n s src" "d + n \<le> 8 * length b"
  shows "bits_equal b' d n s src"
  using assms by (auto simp: bits_equal_def bits_written_def add.commute)

lemma masked_equal:
  assumes "bo + bc \<le> 8"
  shows "(b ! d AND bit_mask bc (8 - bo - bc) = src ! s AND bit_mask bc (8 - bo - bc))
     \<longleftrightarrow> bits_equal b (8 * d + bo) bc (8 * s + bo) src" (is "?l = ?r")
proof -
  let ?m = "bit_mask bc (8 - bo - bc)"
  have pt: "hbit x (8 * q + bo + k) = bit (x ! q) (7 - (bo + k))" if "k < bc" for x q k
    using hbit_byte [of "bo + k" x q] that assms by (simp add: add.assoc)
  have "?l \<longleftrightarrow> (\<forall>n < 8. bit ?m n \<longrightarrow> bit (b ! d) n = bit (src ! s) n)"
    by (auto simp: bit_eq_iff bit_simps)
  also have "\<dots> \<longleftrightarrow> (\<forall>k < bc. bit (b ! d) (7 - (bo + k)) = bit (src ! s) (7 - (bo + k)))"
  proof (rule iffI; intro allI impI)
    fix k assume a: "\<forall>n < 8. bit ?m n \<longrightarrow> bit (b ! d) n = bit (src ! s) n" "k < bc"
    have "7 - (bo + k) < 8" "bit ?m (7 - (bo + k))" using a(2) assms by (auto simp: bit_bit_mask)
    thus "bit (b ! d) (7 - (bo + k)) = bit (src ! s) (7 - (bo + k))" using a(1) by blast
  next
    fix n assume a: "\<forall>k < bc. bit (b ! d) (7 - (bo + k)) = bit (src ! s) (7 - (bo + k))" "n < 8" "bit ?m n"
    have "7 - bo - n < bc" "7 - (bo + (7 - bo - n)) = n" using a(2,3) assms by (auto simp: bit_bit_mask)
    thus "bit (b ! d) n = bit (src ! s) n" using a(1) by metis
  qed
  also have "\<dots> \<longleftrightarrow> ?r" by (simp add: bits_equal_def pt)
  finally show ?thesis .
qed

lemma compare_masked_equal:
  assumes "vget v b s = Some (src ! s)" "d < length b" "bo + bc \<le> 8"
  shows "compare_masked v s d (bit_mask bc (8 - bo - bc)) b = Some (bits_equal b (8 * d + bo) bc (8 * s + bo) src)"
  using assms masked_equal [OF assms(3), of b d src s] by (simp add: compare_masked_def)

lemma bytes_equal: "b ! d = src ! s \<longleftrightarrow> bits_equal b (8 * d) 8 (8 * s) src"
proof -
  have "bit_mask 8 0 = (-1 :: u8)" by (rule bit_word_eqI) (simp add: bit_bit_mask)
  with masked_equal [of 0 8 b d src s] show ?thesis by simp
qed

lemma compare_loop_equal:
  assumes "\<forall>i. s \<le> i \<and> i < s + n \<longrightarrow> vget v b i = Some (src ! i)" "d + n \<le> length b"
  shows "compare_loop v s d n b = Some (bits_equal b (8 * d) (8 * n) (8 * s) src)"
  using assms
proof (induction n arbitrary: s d)
  case 0
  thus ?case by (simp add: bits_equal_def)
next
  case (Suc n)
  have "8 * (d + 1) = 8 * d + 8" "8 * (s + 1) = 8 * s + 8" by auto
  hence "compare_loop v (s + 1) (d + 1) n b = Some (bits_equal b (8 * d + 8) (8 * n) (8 * s + 8) src)"
    using Suc.IH [of "s + 1" "d + 1"] Suc.prems by (simp del: mult_Suc_right)
  moreover have "vget v b s = Some (src ! s)" using Suc.prems(1) by simp
  moreover have "bits_equal b (8 * d) (8 * Suc n) (8 * s) src
      \<longleftrightarrow> b ! d = src ! s \<and> bits_equal b (8 * d + 8) (8 * n) (8 * s + 8) src"
    using bits_equal_append [of b "8 * d" 8 "8 * n" "8 * s" src] by (simp add: bytes_equal)
  ultimately show ?case using Suc.prems(2) by (simp del: mult_Suc_right)
qed

lemma compare_generic_equal:
  assumes addr: "field_addr t p = Some a" and src: "\<forall>i < n. vget v (buf p) i = Some (src ! i)"
    and n: "vbitoffset v div 8 + field_bytes t \<le> n" and len: "a + field_bytes t \<le> length (buf p)"
    and big: "8 < fbitoffset t mod 8 + fbitcount t" and off: "vbitoffset v mod 8 = fbitoffset t mod 8"
  shows "compare_generic t v p
     = Some (bits_equal (buf p) (8 * a + fbitoffset t mod 8) (fbitcount t) (vbitoffset v) src)"
proof -
  define bo bc s where "bo = fbitoffset t mod 8" and "bc = fbitcount t" and "s = vbitoffset v div 8"
  define rb where "rb = (bc - (8 - bo)) div 8"
  define rr where "rr = (bc - (8 - bo)) mod 8"
  have bo: "bo < 8" by (simp add: bo_def)
  have rr: "rr < 8" by (simp add: rr_def)
  note split = generic_split(1) [OF big, folded bo_def bc_def, folded rb_def rr_def]
    and fb = generic_split(2) [OF big, folded bo_def bc_def, folded rb_def rr_def]
  have vo: "vbitoffset v = 8 * s + bo" by (simp add: s_def bo_def off [symmetric])
  have m: "min bc (8 - bo) = 8 - bo" using split by auto
  let ?b = "buf p"
  have c1: "compare_masked v s a (bit_mask (8 - bo) 0) ?b = Some (bits_equal ?b (8 * a + bo) (8 - bo) (8 * s + bo) src)"
    using compare_masked_equal [of v ?b s src a bo "8 - bo"] src n len fb bo by (simp add: s_def)
  have c2: "compare_loop v (s + 1) (a + 1) rb ?b = Some (bits_equal ?b (8 * (a + 1)) (8 * rb) (8 * (s + 1)) src)"
    using src n len fb by (intro compare_loop_equal) (auto simp: s_def)
  have c3: "compare_masked v (s + 1 + rb) (a + 1 + rb) (bit_mask rr (8 - rr)) ?b
      = Some (bits_equal ?b (8 * (a + 1 + rb)) rr (8 * (s + 1 + rb)) src)" if "rr \<noteq> 0"
    using compare_masked_equal [of v ?b "s + 1 + rb" src "a + 1 + rb" 0 rr] src n len fb rr that by (simp add: s_def)
  have "bits_equal ?b (8 * a + bo) bc (8 * s + bo) src \<longleftrightarrow>
      bits_equal ?b (8 * a + bo) (8 - bo) (8 * s + bo) src
      \<and> bits_equal ?b (8 * (a + 1)) (8 * rb) (8 * (s + 1)) src
      \<and> bits_equal ?b (8 * (a + 1 + rb)) rr (8 * (s + 1 + rb)) src"
  proof -
    have "8 * a + bo + (8 - bo) = 8 * (a + 1)" "8 * s + bo + (8 - bo) = 8 * (s + 1)"
      "8 * (a + 1) + 8 * rb = 8 * (a + 1 + rb)" "8 * (s + 1) + 8 * rb = 8 * (s + 1 + rb)" using bo by auto
    thus ?thesis unfolding split by (simp only: bits_equal_append add.assoc [of "8 - bo"])
  qed
  moreover have "bits_equal ?b x 0 y src" for x y by (simp add: bits_equal_def)
  ultimately have "compare_generic t v p = Some (bits_equal ?b (8 * a + bo) bc (8 * s + bo) src)"
    using addr c1 c2 c3
    unfolding compare_generic_def Let_def bo_def [symmetric] bc_def [symmetric] s_def [symmetric] m
      rb_def [symmetric] rr_def [symmetric]
    by (cases "rr = 0") (simp_all add: bo)
  thus ?thesis by (simp add: vo bo_def bc_def)
qed

lemma comparator_equal:
  assumes c: "header_get_field_comprator t v = Some c" and addr: "field_addr t p = Some a"
    and src: "\<forall>i < n. vget v (buf p) i = Some (src ! i)"
    and n: "vbitoffset v div 8 + field_bytes t \<le> n" and len: "a + field_bytes t \<le> length (buf p)"
  shows "c t v p = Some (bits_equal (buf p) (8 * a + fbitoffset t mod 8) (fbitcount t) (vbitoffset v) src)"
proof -
  have off: "vbitoffset v mod 8 = fbitoffset t mod 8" and cnt: "vbitcount v = fbitcount t"
    using c by (auto simp: header_get_field_comprator_def split: if_splits)
  consider "c = compare_bytes" "fbitoffset t mod 8 = 0" "fbitcount t mod 8 = 0"
    | "c = compare_bits" "fbitoffset t mod 8 + fbitcount t \<le> 8" "\<not> (fbitoffset t mod 8 = 0 \<and> fbitcount t mod 8 = 0)"
    | "c = compare_generic" "8 < fbitoffset t mod 8 + fbitcount t"
    using c by (auto simp: header_get_field_comprator_def split: if_splits)
  thus ?thesis
  proof cases
    case 1
    have fb: "field_bytes t = fbitcount t div 8" "8 * (fbitcount t div 8) = fbitcount t"
      using 1(2,3) by (auto simp: field_bytes_def)
    have vo: "8 * (vbitoffset v div 8) = vbitoffset v" using off 1(2) by auto
    have "compare_loop v (vbitoffset v div 8) a (fbitcount t div 8) (buf p)
        = Some (bits_equal (buf p) (8 * a) (fbitcount t) (vbitoffset v) src)"
      using compare_loop_equal [of "vbitoffset v div 8" "fbitcount t div 8" v "buf p" src a] src n len
      by (auto simp: fb vo)
    with 1 addr cnt show ?thesis by (simp add: compare_bytes_def)
  next
    case 2
    have fb: "field_bytes t = 1" using 2(2,3) by (auto simp: field_bytes_def)
    have vo: "8 * (vbitoffset v div 8) + fbitoffset t mod 8 = vbitoffset v" by (simp add: off [symmetric])
    from compare_masked_equal [of v "buf p" "vbitoffset v div 8" src a "fbitoffset t mod 8" "fbitcount t"] src n len 2(2)
    have "compare_masked v (vbitoffset v div 8) a (bit_mask (fbitcount t) (8 - fbitoffset t mod 8 - fbitcount t)) (buf p)
        = Some (bits_equal (buf p) (8 * a + fbitoffset t mod 8) (fbitcount t) (vbitoffset v) src)"
      by (auto simp: fb vo)
    with 2(1) addr show ?thesis by (simp add: compare_bits_def Let_def)
  next
    case 3
    from compare_generic_equal [OF addr src n len 3(2) off] 3(1) show ?thesis by simp
  qed
qed

section \<open>Properties of the field functions\<close>

text \<open>A field that lies inside the buffer, at byte address \<open>a\<close>, and a constant long enough for it.\<close>

definition field_in :: "HeaderField \<Rightarrow> Packet \<Rightarrow> nat \<Rightarrow> bool" where
  "field_in t p a \<longleftrightarrow> field_addr t p = Some a \<and> a + field_bytes t \<le> length (buf p)"

definition const_value :: "Value \<Rightarrow> u8 list \<Rightarrow> bool" where
  "const_value v bs \<longleftrightarrow> vptr v = VConst bs \<and> vbitoffset v + vbitcount v \<le> 8 * length bs"

lemma field_span: "8 * a + fbitoffset t mod 8 + fbitcount t \<le> 8 * (a + field_bytes t)"
proof -
  have "x \<le> 8 * ((x + 7) div 8)" for x :: nat
    using div_mult_mod_eq [of "x + 7" 8] mod_less_divisor [of 8 "x + 7"] by linarith
  from this [of "fbitoffset t mod 8 + fbitcount t"] show ?thesis by (simp add: field_bytes_def algebra_simps)
qed

lemma value_span:
  assumes "vbitoffset v + fbitcount t \<le> 8 * m" "vbitoffset v mod 8 = fbitoffset t mod 8"
  shows "vbitoffset v div 8 + field_bytes t \<le> m"
proof -
  define q r where "q = vbitoffset v div 8" and "r = vbitoffset v mod 8"
  have v: "vbitoffset v = 8 * q + r" by (simp add: q_def r_def)
  have "8 * q + (r + fbitcount t + 7) \<le> 8 * m + 7" using assms(1) v by linarith
  hence "(8 * q + (r + fbitcount t + 7)) div 8 \<le> (8 * m + 7) div 8" by (rule div_le_mono)
  moreover have "(8 * m + 7) div 8 = m" by simp
  moreover have "(8 * q + (r + fbitcount t + 7)) div 8 = q + (r + fbitcount t + 7) div 8" by simp
  ultimately have "q + (r + fbitcount t + 7) div 8 \<le> m" by argo
  thus ?thesis using assms(2) unfolding field_bytes_def q_def r_def by argo
qed

text \<open>
  C10: The chosen writer stores a constant in a field bit by bit: whichever of the three writers
  \<open>header_get_field_writer\<close> selects, it stays inside the buffer, the bits of the field become the bits of the
  value, and every other bit of the packet keeps its value.
\<close>

theorem writer_sets_field:
  assumes "header_get_field_writer t v = Some w" and "field_in t p a" and "const_value v bs"
  shows "\<exists>b. w t v p = Some (p\<lparr>buf := b\<rparr>) \<and> length b = length (buf p) \<and>
     (\<forall>k < 8 * length b. hbit b k =
        (if 8 * a + fbitoffset t mod 8 \<le> k \<and> k < 8 * a + fbitoffset t mod 8 + fbitcount t
         then hbit bs (k - (8 * a + fbitoffset t mod 8) + vbitoffset v) else hbit (buf p) k))"
proof -
  have v: "vbitoffset v mod 8 = fbitoffset t mod 8" "vbitcount v = fbitcount t"
    using assms(1) by (auto simp: header_get_field_writer_def split: if_splits)
  have n: "vbitoffset v div 8 + field_bytes t \<le> length bs"
    using value_span [OF _ v(1)] assms(3) v(2) by (simp add: const_value_def)
  have "source_is v a (a + field_bytes t) (buf p) bs (length bs)"
    using assms(3) by (intro source_const) (auto simp: const_value_def)
  from writer_written [OF assms(1) _ this n] assms(2) show ?thesis
    unfolding bits_written_def field_in_def by fastforce
qed

definition sample_field :: "nat \<Rightarrow> nat \<Rightarrow> nat \<Rightarrow> HeaderField" where
  "sample_field i bo bc = \<lparr>header_idx = i, fbitoffset = bo, fbitcount = bc\<rparr>"

lemma sample_field_in:
  "i < 2 \<Longrightarrow> field_in (sample_field i bo bc) sample_packet (1024 + 14 * i + bo div 8)
     \<longleftrightarrow> 1024 + 14 * i + bo div 8 + (bo mod 8 + bc + 7) div 8 \<le> 10000"
  by (cases i) (auto simp: field_in_def field_addr_def sample_field_def sample_packet_def zeroed_packet_def
      packet_consts field_bytes_def less_Suc_eq)

theorem writer_sets_field_witness:
  "\<exists>b. write_generic (sample_field 0 12 16) \<lparr>vptr = VConst [1, 2, 3], vbitoffset = 4, vbitcount = 16\<rparr> sample_packet
     = Some (sample_packet\<lparr>buf := b\<rparr>) \<and> length b = 10000 \<and> hbit b (8 * 1025 + 4 + 3) = hbit [1, 2, 3] 7"
proof -
  let ?v = "\<lparr>vptr = VConst [1, 2, 3], vbitoffset = 4, vbitcount = 16\<rparr>"
  have "header_get_field_writer (sample_field 0 12 16) ?v = Some write_generic"
    by (simp add: header_get_field_writer_def sample_field_def)
  moreover have "field_in (sample_field 0 12 16) sample_packet 1025" using sample_field_in [of 0 12 16] by simp
  moreover have "const_value ?v [1, 2, 3]" by (simp add: const_value_def)
  moreover have "length (buf sample_packet) = 10000" by (simp add: sample_packet_def packet_consts)
  ultimately show ?thesis using writer_sets_field [of "sample_field 0 12 16" ?v write_generic sample_packet 1025 "[1, 2, 3]"]
    by (fastforce simp: sample_field_def)
qed

text \<open>
  C21: The chosen comparator decides equality: it returns true exactly when all bits of the field are those
  of the value.
\<close>

theorem comparator_decides_equality:
  assumes "header_get_field_comprator t v = Some c" and "field_in t p a" and "const_value v bs"
  shows "c t v p = Some (\<forall>k < fbitcount t. hbit (buf p) (8 * a + fbitoffset t mod 8 + k) = hbit bs (vbitoffset v + k))"
proof -
  have v: "vbitoffset v mod 8 = fbitoffset t mod 8" "vbitcount v = fbitcount t"
    using assms(1) by (auto simp: header_get_field_comprator_def split: if_splits)
  have n: "vbitoffset v div 8 + field_bytes t \<le> length bs"
    using value_span [OF _ v(1)] assms(3) v(2) by (simp add: const_value_def)
  have "\<forall>i < length bs. vget v (buf p) i = Some (bs ! i)" using assms(3) by (simp add: const_value_def vget_def)
  from comparator_equal [OF assms(1) _ this n] assms(2) show ?thesis
    by (simp add: bits_equal_def field_in_def)
qed

theorem comparator_decides_equality_witness:
  "compare_bits (sample_field 0 4 4) \<lparr>vptr = VConst [0x57], vbitoffset = 4, vbitcount = 4\<rparr> sample_packet = Some True"
proof -
  let ?v = "\<lparr>vptr = VConst [0x57], vbitoffset = 4, vbitcount = 4\<rparr>"
  have "header_get_field_comprator (sample_field 0 4 4) ?v = Some compare_bits"
    by (simp add: header_get_field_comprator_def sample_field_def)
  moreover have "field_in (sample_field 0 4 4) sample_packet 1024" using sample_field_in [of 0 4 4] by simp
  moreover have "const_value ?v [0x57]" by (simp add: const_value_def)
  ultimately have "compare_bits (sample_field 0 4 4) ?v sample_packet
      = Some (\<forall>k < 4. hbit (buf sample_packet) (8 * 1024 + 4 + k) = hbit [0x57] (4 + k))"
    using comparator_decides_equality [of "sample_field 0 4 4" ?v compare_bits sample_packet 1024 "[0x57]"]
    by (simp add: sample_field_def)
  moreover have "hbit (buf sample_packet) (8 * 1024 + 4 + k) = hbit [0x57] (4 + k)" if "k < 4" for k
  proof -
    have "k \<in> {0, 1, 2, 3}" using that by auto
    thus ?thesis by (auto simp: hbit_def sample_packet_def packet_consts bit_numeral_rec)
  qed
  ultimately show ?thesis by simp
qed

text \<open>
  C22: Copying a field to another one of the same shape: reading the source and writing the target, as an
  edit action does without an intermediate buffer, makes the bits of the target those that the source had,
  when the two do not share a byte.
\<close>

theorem reader_copies_field:
  assumes "header_get_field_reader v src = Some r" and "header_get_field_writer dst v = Some w"
    and "field_in dst p a" and "field_in src p b"
    and "a + field_bytes dst \<le> b \<or> b + field_bytes src \<le> a"
  shows "\<exists>b'. r src w dst p = Some (p\<lparr>buf := b'\<rparr>) \<and> length b' = length (buf p) \<and>
     (\<forall>k < fbitcount dst. hbit b' (8 * a + fbitoffset dst mod 8 + k) = hbit (buf p) (8 * b + fbitoffset src mod 8 + k))"
proof -
  let ?v = "\<lparr>vptr = VPacket b, vbitoffset = fbitoffset src mod 8, vbitcount = fbitcount src\<rparr>"
  have r: "r = read_bytes" and same: "fbitcount src = vbitcount v" "fbitoffset src mod 8 = vbitoffset v mod 8"
    using assms(1) by (auto simp: header_get_field_reader_def split: if_splits)
  have "header_get_field_writer dst ?v = header_get_field_writer dst v"
    by (simp add: header_get_field_writer_def same)
  hence w: "header_get_field_writer dst ?v = Some w" using assms(2) by simp
  have sb: "fbitcount dst = fbitcount src" "fbitoffset dst mod 8 = fbitoffset src mod 8"
    using w by (auto simp: header_get_field_writer_def split: if_splits)
  hence fb: "field_bytes dst = field_bytes src" by (simp add: field_bytes_def)
  have "source_is ?v a (a + field_bytes dst) (buf p) (drop b (buf p)) (field_bytes src)"
    using assms(4,5) by (intro source_packet) (auto simp: field_in_def)
  moreover have "vbitoffset ?v div 8 + field_bytes dst \<le> field_bytes src" by (simp add: fb)
  ultimately obtain b' where b': "w dst ?v p = Some (p\<lparr>buf := b'\<rparr>)"
      "bits_written (buf p) b' (8 * a + fbitoffset dst mod 8) (fbitcount dst) (fbitoffset src mod 8) (drop b (buf p))"
    using writer_written [OF w] assms(3) unfolding field_in_def by fastforce
  have sp: "8 * a + fbitoffset dst mod 8 + fbitcount dst \<le> 8 * length (buf p)"
    using field_span [of a dst] assms(3) by (simp add: field_in_def)
  have "hbit (drop b (buf p)) (fbitoffset src mod 8 + k) = hbit (buf p) (8 * b + fbitoffset src mod 8 + k)"
    if "k < fbitcount src" for k
  proof -
    have "b \<le> length (buf p)" using assms(4) by (simp add: field_in_def)
    thus ?thesis by (simp add: hbit_def add.assoc)
  qed
  hence "\<forall>k < fbitcount dst. hbit b' (8 * a + fbitoffset dst mod 8 + k) = hbit (buf p) (8 * b + fbitoffset src mod 8 + k)"
    using bits_written_equal [OF b'(2) sp] sb by (simp add: bits_equal_def)
  moreover have "r src w dst p = Some (p\<lparr>buf := b'\<rparr>)"
    using assms(4) b'(1) by (simp add: r read_bytes_def field_in_def)
  ultimately show ?thesis using b'(2) by (auto simp: bits_written_def)
qed

theorem reader_copies_field_witness:
  "\<exists>b. read_bytes (sample_field 1 16 8) write_bytes (sample_field 0 0 8) sample_packet = Some (sample_packet\<lparr>buf := b\<rparr>)
     \<and> length b = 10000"
proof -
  let ?v = "init_value 0 8"
  have "header_get_field_reader ?v (sample_field 1 16 8) = Some read_bytes"
    "header_get_field_writer (sample_field 0 0 8) ?v = Some write_bytes"
    by (simp_all add: header_get_field_reader_def header_get_field_writer_def sample_field_def init_value_def)
  moreover have "field_in (sample_field 0 0 8) sample_packet 1024" "field_in (sample_field 1 16 8) sample_packet 1040"
    using sample_field_in [of 0 0 8] sample_field_in [of 1 16 8] by simp_all
  moreover have "1024 + field_bytes (sample_field 0 0 8) \<le> 1040" by (simp add: field_bytes_def sample_field_def)
  moreover have "length (buf sample_packet) = 10000" by (simp add: sample_packet_def packet_consts)
  ultimately show ?thesis
    using reader_copies_field [of ?v "sample_field 1 16 8" read_bytes "sample_field 0 0 8" write_bytes sample_packet 1024 1040]
    by auto
qed

text \<open>
  The condition on the bytes is needed: the writers for loose bits clear the target before they read the
  source, so assigning such a field to itself clears it.
\<close>

lemma self_assignment_clears:
  assumes "field_addr t p = Some a" "a < length (buf p)"
  shows "read_bytes t write_bits t p
     = Some (p\<lparr>buf := (buf p)[a := buf p ! a AND NOT (bit_mask (fbitcount t) (8 - fbitoffset t mod 8 - fbitcount t))]\<rparr>)"
proof -
  have "(x AND NOT m) OR ((x AND NOT m) AND m) = x AND NOT m" for x m :: u8
    by (rule bit_word_eqI) (auto simp: bit_simps)
  with assms show ?thesis
    by (simp add: read_bytes_def write_bits_def mask_byte_def vget_def Let_def)
qed

text \<open>A copied header list finds the same headers.\<close>

lemma copy_header_list_finds:
  assumes "copy_header_list hs m = Some hs'"
  shows "map_option hd_id (header_list_find_by_name hs' n) = map_option hd_id (header_list_find_by_name hs n)"
    "map_option hd_name (header_list_find_by_typeid hs' i) = map_option hd_name (header_list_find_by_typeid hs i)"
  using assms
  by (induction hs m arbitrary: hs' rule: copy_header_list.induct) (auto split: Option.bind_splits if_splits)

end
