(* ===== verification/Inet_Utils.thy ===== *)
theory Inet_Utils
  imports Prelude "HOL-Library.Char_ord"
begin

text \<open>
  The Internet checksum and the parsing and printing of link-layer addresses (\<^verbatim>\<open>src/inet_utils.c\<close>).

  The checksum routine reads the bytes in the width that their address allows, so the address of the
  first byte is an argument; the host is little-endian.  Reference for its result is the ones' complement
  sum of RFC 1071, computed byte by byte modulo 65535.
\<close>

section \<open>The Internet checksum\<close>

definition le16 :: "u8 list \<Rightarrow> u16" where
  "le16 bs = ucast (bs ! 0) OR push_bit 8 (ucast (bs ! 1))"

definition csum_fold :: "u32 \<Rightarrow> u16" where
  "csum_fold s =
     (let s = (s AND 0xffff) + drop_bit 16 s;
          s = (s AND 0xffff) + drop_bit 16 s
      in ntohs (ucast (NOT s)))"

text \<open>\<^verbatim>\<open>__builtin_uadd_overflow\<close> followed by the addition of the carry.\<close>

definition uadd_carry :: "u32 \<Rightarrow> u32 \<Rightarrow> u32" where
  "uadd_carry s x = (if uint s + uint x \<ge> 2 ^ 32 then s + x + 1 else s + x)"

fun csum_words32 :: "(u32 \<Rightarrow> u32) \<Rightarrow> u8 list \<Rightarrow> u32 \<Rightarrow> u32 \<times> u8 list" where
  "csum_words32 swap (a # b # c # d # bs) s = csum_words32 swap bs (uadd_carry s (swap (u32_of_bytes [a, b, c, d])))"
| "csum_words32 swap bs s = (s, bs)"

fun csum_words16 :: "(u16 \<Rightarrow> u16) \<Rightarrow> u8 list \<Rightarrow> u32 \<Rightarrow> u32 \<times> u8 list" where
  "csum_words16 swap (a # b # bs) s = csum_words16 swap bs (s + ucast (swap (le16 [a, b])))"
| "csum_words16 swap bs s = (s, bs)"

text \<open>
  The two branches of the routine differ in the swaps only: an even start address reads the words as they are,
  an odd one swaps them after the first byte.
\<close>

definition csum_align :: "(u16 \<Rightarrow> u16) \<Rightarrow> nat \<Rightarrow> u8 list \<Rightarrow> u32 \<Rightarrow> u32 \<times> u8 list" where
  "csum_align swap16 addr bs s =
     (if length bs \<ge> 2 \<and> addr mod 4 \<noteq> 0 then (s + ucast (swap16 (le16 bs)), drop 2 bs) else (s, bs))"

definition csum_half :: "(u16 \<Rightarrow> u16) \<Rightarrow> (u32 \<Rightarrow> u32) \<Rightarrow> nat \<Rightarrow> u8 list \<Rightarrow> u32 \<Rightarrow> u32" where
  "csum_half swap16 swap32 addr bs s =
     (let (s, bs) = csum_align swap16 addr bs s;
          (s, bs) = csum_words32 swap32 bs s;
          (s, bs) = csum_words16 swap16 bs s
      in if length bs = 1 then s + ucast (swap16 (ucast (hd bs))) else s)"

definition csum_partial :: "nat \<Rightarrow> u8 list \<Rightarrow> u32 \<Rightarrow> u32" where
  "csum_partial addr bs s =
     (case bs of [] \<Rightarrow> s
      | b # bs' \<Rightarrow> (if addr mod 2 = 1
                    then csum_half bswap_16 bswap_32 (addr + 1) bs' (s + ucast b)
                    else csum_half id id addr bs s))"

section \<open>Link-layer addresses\<close>

definition ETHER_ADDSTRLEN :: nat where "ETHER_ADDSTRLEN = 18"

definition isspace :: "char \<Rightarrow> bool" where
  "isspace c \<longleftrightarrow> c = CHR '' '' \<or> (9 \<le> (of_char c :: nat) \<and> of_char c \<le> (13 :: nat))"

definition hex_digit :: "char \<Rightarrow> nat option" where
  "hex_digit c = (let n = of_char c in
     if 48 \<le> n \<and> n \<le> 57 then Some (n - 48)
     else if 97 \<le> n \<and> n \<le> 102 then Some (n - 87)
     else if 65 \<le> n \<and> n \<le> 70 then Some (n - 55) else None)"

text \<open>
  The conversion \<^verbatim>\<open>%2hhx\<close> of \<^verbatim>\<open>sscanf\<close>: white space is skipped, then at most two characters are read: a sign
  and a digit, or one or two digits.  The prefix \<^verbatim>\<open>0x\<close> fills the width without a digit and fails.
\<close>

definition scan_hex2 :: "string \<Rightarrow> (u8 \<times> string) option" where
  "scan_hex2 str = (case dropWhile isspace str of [] \<Rightarrow> None
     | c # cs \<Rightarrow>
         (if c = CHR ''+'' \<or> c = CHR ''-'' then
            (case cs of [] \<Rightarrow> None
             | d # ds \<Rightarrow> do { v \<leftarrow> hex_digit d; Some (if c = CHR ''-'' then - of_nat v else of_nat v, ds) })
          else do { v \<leftarrow> hex_digit c;
                    case cs of [] \<Rightarrow> Some (of_nat v, [])
                    | d # ds \<Rightarrow>
                        (if c = CHR ''0'' \<and> (d = CHR ''x'' \<or> d = CHR ''X'') then None
                         else case hex_digit d of
                                None \<Rightarrow> Some (of_nat v, cs)
                              | Some u \<Rightarrow> Some (of_nat (16 * v + u), ds)) }))"

text \<open>The conversions after the first, each preceded by a colon; the last \<^verbatim>\<open>%c\<close> must not match.\<close>

fun scan_pairs :: "nat \<Rightarrow> string \<Rightarrow> u8 list option" where
  "scan_pairs 0 str = (if str = [] then Some [] else None)"
| "scan_pairs (Suc n) str =
     (case str of [] \<Rightarrow> None
      | c # cs \<Rightarrow> (if c = CHR '':'' then do { (b, rest) \<leftarrow> scan_hex2 cs; bs \<leftarrow> scan_pairs n rest; Some (b # bs) }
                   else None))"

definition ether_pton :: "string \<Rightarrow> u8 list option" where
  "ether_pton src = do { (b, rest) \<leftarrow> scan_hex2 src; bs \<leftarrow> scan_pairs 5 rest; Some (b # bs) }"

definition hex_char :: "nat \<Rightarrow> char" where
  "hex_char n = char_of (if n < 10 then 48 + n else 87 + n)"

definition hex_byte :: "u8 \<Rightarrow> string" where
  "hex_byte b = [hex_char (unat b div 16), hex_char (unat b mod 16)]"

fun colon_bytes :: "u8 list \<Rightarrow> string" where
  "colon_bytes [] = []"
| "colon_bytes [b] = hex_byte b"
| "colon_bytes (b # bs) = hex_byte b @ '':'' @ colon_bytes bs"

text \<open>The source must have six bytes; the text ends with a NUL that the C string needs.\<close>

definition ether_ntop :: "u8 list \<Rightarrow> nat \<Rightarrow> string option option" where
  "ether_ntop src dstsize =
     (if dstsize < ETHER_ADDSTRLEN then Some None
      else do { bs \<leftarrow> mem_read src 0 6; Some (Some (colon_bytes bs)) })"

section \<open>Addresses with a VLAN\<close>

definition base_digit :: "nat \<Rightarrow> char \<Rightarrow> nat option" where
  "base_digit base c = (case hex_digit c of Some v \<Rightarrow> (if v < base then Some v else None) | None \<Rightarrow> None)"

fun scan_digits :: "nat \<Rightarrow> string \<Rightarrow> int \<Rightarrow> int" where
  "scan_digits base [] acc = acc"
| "scan_digits base (c # cs) acc = (case base_digit base c of None \<Rightarrow> acc | Some v \<Rightarrow> scan_digits base cs (int base * acc + int v))"

text \<open>
  \<^verbatim>\<open>strtoul\<close> with base 0, for bases up to 16: the number, or \<open>None\<close> when no digit was read.  Values beyond the range of
  \<^verbatim>\<open>unsigned long\<close> are clamped.
\<close>

definition strtoul_0 :: "string \<Rightarrow> u64 option" where
  "strtoul_0 str =
     (let cs = dropWhile isspace str;
          neg = (cs \<noteq> [] \<and> hd cs = CHR ''-'');
          cs = (if cs \<noteq> [] \<and> (hd cs = CHR ''+'' \<or> hd cs = CHR ''-'') then tl cs else cs);
          hex = (length cs \<ge> 3 \<and> hd cs = CHR ''0'' \<and> (cs ! 1 = CHR ''x'' \<or> cs ! 1 = CHR ''X'') \<and> hex_digit (cs ! 2) \<noteq> None);
          base = (if hex then 16 else if cs \<noteq> [] \<and> hd cs = CHR ''0'' then 8 else 10);
          ds = (if hex then drop 2 cs else cs)
      in if ds = [] \<or> base_digit base (hd ds) = None then None
         else let n = scan_digits base ds 0
              in if n \<ge> 2 ^ 64 then Some (- 1) else Some (word_of_int (if neg then - n else n)))"

text \<open>The result: the address text and the VLAN, or \<open>None\<close> for failure.\<close>

definition parse_mac_vlan :: "string \<Rightarrow> (string \<times> u32) option" where
  "parse_mac_vlan str =
     (if CHR ''+'' \<in> set str then
        let tmpmac = takeWhile (\<lambda>c. c \<noteq> CHR ''+'') str; rest = tl (dropWhile (\<lambda>c. c \<noteq> CHR ''+'') str)
        in do { _ \<leftarrow> ether_pton tmpmac; vl \<leftarrow> strtoul_0 rest; Some (tmpmac, ucast vl) }
      else do { _ \<leftarrow> ether_pton str; Some (str, 0) })"

section \<open>The reference checksum\<close>

text \<open>The sum of the 16-bit words, the first byte of a pair in the low half; an odd last byte is padded with zero.\<close>

fun csum_ref :: "u8 list \<Rightarrow> int" where
  "csum_ref (a # b # bs) = uint a + 256 * uint b + csum_ref bs"
| "csum_ref [a] = uint a"
| "csum_ref [] = 0"

text \<open>Equality in ones' complement arithmetic.\<close>

definition cong1 :: "int \<Rightarrow> int \<Rightarrow> bool" where
  "cong1 x y \<longleftrightarrow> x mod 65535 = y mod 65535"

lemma cong1_refl [simp]: "cong1 x x"
  by (simp add: cong1_def)

lemma cong1_sym: "cong1 x y \<Longrightarrow> cong1 y x"
  by (simp add: cong1_def)

lemma cong1_trans [trans]: "cong1 x y \<Longrightarrow> cong1 y z \<Longrightarrow> cong1 x z"
  by (simp add: cong1_def)

lemma cong1_add: "cong1 x y \<Longrightarrow> cong1 x' y' \<Longrightarrow> cong1 (x + x') (y + y')"
  unfolding cong1_def by (metis mod_add_eq)

lemma cong1_mult: "cong1 x y \<Longrightarrow> cong1 (c * x) (c * y)"
  unfolding cong1_def by (metis mod_mult_right_eq)

lemma cong1_add_multiple [simp]: "cong1 (x + 65535 * y) x" "cong1 (65535 * y + x) x"
  by (simp_all add: cong1_def)

lemma cong1_256: "cong1 (256 * (uint (a :: u8) + 256 * b)) (256 * uint a + b)"
proof -
  have "256 * (uint a + 256 * b) = (256 * uint a + b) + 65535 * b" by simp
  thus ?thesis by (simp only: cong1_add_multiple)
qed

text \<open>A byte in front exchanges the two halves of all words.\<close>

lemma csum_ref_Cons: "cong1 (csum_ref (a # bs)) (uint a + 256 * csum_ref bs)"
proof (induction bs arbitrary: a rule: csum_ref.induct)
  case (1 b c bs)
  have "cong1 (csum_ref (a # b # c # bs)) (uint a + 256 * uint b + (uint c + 256 * csum_ref bs))"
    using 1 [of c] cong1_add [OF cong1_refl, of "csum_ref (c # bs)"] by simp
  also have "uint a + 256 * uint b + (uint c + 256 * csum_ref bs) = (uint a + 256 * csum_ref bs) + (256 * uint b + uint c)"
    by simp
  also have "cong1 \<dots> ((uint a + 256 * csum_ref bs) + 256 * (uint b + 256 * uint c))"
    by (rule cong1_add [OF cong1_refl cong1_sym [OF cong1_256]])
  finally show ?case by (simp add: algebra_simps)
next
  case (2 b)
  thus ?case by (simp add: cong1_def)
next
  case 3
  thus ?case by (simp add: cong1_def)
qed

lemma csum_ref_append: "even (length xs) \<Longrightarrow> csum_ref (xs @ ys) = csum_ref xs + csum_ref ys"
  by (induction xs rule: csum_ref.induct) auto

lemma csum_ref_nonneg: "0 \<le> csum_ref bs"
  by (induction bs rule: csum_ref.induct) auto

lemma csum_ref_zero: "csum_ref bs = 0 \<longleftrightarrow> (\<forall>b \<in> set bs. b = 0)"
proof (induction bs rule: csum_ref.induct)
  case (1 a b bs)
  have "uint a + 256 * uint b + csum_ref bs = 0 \<longleftrightarrow> uint a = 0 \<and> uint b = 0 \<and> csum_ref bs = 0"
    using csum_ref_nonneg [of bs] unsigned_greater_eq [of a, where 'a = int] unsigned_greater_eq [of b, where 'a = int]
    by linarith
  with 1 show ?case by (simp add: uint_0_iff)
qed (simp_all add: uint_0_iff)

section \<open>Correctness of the fast routine\<close>

text \<open>
  What one unit contributes under a choice of swaps: the plain words, or the words with their halves exchanged.
\<close>

lemma uint_le16: "uint (le16 [a, b]) = uint a + 256 * uint b"
proof -
  have "le16 [a, b] = ucast a + push_bit 8 (ucast b)"
    unfolding le16_def by (simp, rule disjunctive_add [symmetric]) (auto simp: bit_simps)
  moreover have "uint a < 256" "uint b < 256" using uint_lt2p [of a] uint_lt2p [of b] by simp_all
  ultimately show ?thesis
    by (simp add: push_bit_eq_mult uint_word_ariths unsigned_ucast_eq take_bit_eq_mod) 
qed

lemma uint_u32_of_bytes:
  "uint (u32_of_bytes [a, b, c, d]) = uint a + 256 * uint b + 65536 * uint c + 16777216 * uint d"
proof -
  have "u32_of_bytes [a, b, c, d] = ucast a + push_bit 8 (ucast b) + push_bit 16 (ucast c) + push_bit 24 (ucast d)"
  proof -
    have "u32_of_bytes [a, b, c, d] = (ucast a OR push_bit 8 (ucast b)) OR push_bit 16 (ucast c) OR push_bit 24 (ucast d)"
      by (simp add: u32_of_bytes_def or.assoc)
    also have "\<dots> = ((ucast a OR push_bit 8 (ucast b)) OR push_bit 16 (ucast c)) + push_bit 24 (ucast d)"
      by (subst or.assoc [symmetric], rule disjunctive_add [symmetric]) (auto simp: bit_simps)
    also have "(ucast a OR push_bit 8 (ucast b)) OR push_bit 16 (ucast c) = (ucast a OR push_bit 8 (ucast b)) + push_bit 16 (ucast c :: u32)"
      by (rule disjunctive_add [symmetric]) (auto simp: bit_simps)
    also have "ucast a OR push_bit 8 (ucast b) = ucast a + push_bit 8 (ucast b :: u32)"
      by (rule disjunctive_add [symmetric]) (auto simp: bit_simps)
    finally show ?thesis .
  qed
  moreover have "uint a < 256" "uint b < 256" "uint c < 256" "uint d < 256"
    using uint_lt2p [of a] uint_lt2p [of b] uint_lt2p [of c] uint_lt2p [of d] by simp_all
  ultimately show ?thesis
    by (simp add: push_bit_eq_mult uint_word_ariths unsigned_ucast_eq take_bit_eq_mod)
qed

lemma bswap_16_le16: "bswap_16 (le16 [a, b]) = le16 [b, a]"
  by (rule bit_word_eqI) (auto simp: bswap_16_def le16_def bit_simps)

lemma bswap_32_bytes: "bswap_32 (u32_of_bytes [a, b, c, d]) = u32_of_bytes [d, c, b, a]"
  by (simp add: bswap_32_def)

lemma uint_ucast_up: "LENGTH('a) \<le> LENGTH('b) \<Longrightarrow> uint (ucast x :: 'b::len word) = uint (x :: 'a::len word)"
proof -
  assume "LENGTH('a) \<le> LENGTH('b)"
  hence "(2 :: int) ^ LENGTH('a) \<le> 2 ^ LENGTH('b)" by simp
  hence "uint x < 2 ^ LENGTH('b)" using uint_lt2p [of x] by linarith
  thus ?thesis by (simp add: unsigned_ucast_eq take_bit_int_eq_self)
qed

lemma word_plus_fits:
  "uint s + uint x < 2 ^ 32 \<Longrightarrow> LENGTH('a) \<le> 32 \<Longrightarrow> uint (s + ucast x) = uint s + uint x"
  for s :: u32 and x :: "'a::len word"
  using uint_ucast_up [of x, where 'b = 32] by (simp add: uint_word_ariths)

lemma le16_byte: "ucast (a :: u8) = le16 [a, 0]"
  by (simp add: le16_def)

text \<open>Adding with the carry is addition in ones' complement.\<close>

lemma uadd_carry_cong: "cong1 (uint (uadd_carry s x)) (uint s + uint x)"
  and uadd_carry_zero: "uadd_carry s x = 0 \<Longrightarrow> s = 0 \<and> x = 0"
proof -
  have b: "0 \<le> uint s" "0 \<le> uint x" "uint s < 2 ^ 32" "uint x < 2 ^ 32"
    using uint_lt2p [of s] uint_lt2p [of x] by simp_all
  have big: "uint (s + x + 1) = uint s + uint x - (2 ^ 32 - 1)" if "uint s + uint x \<ge> 2 ^ 32"
  proof -
    have "uint (s + x + 1) = (uint s + uint x + 1) mod 2 ^ 32"
      by (simp add: uint_word_ariths mod_add_left_eq)
    also have "\<dots> = (uint s + uint x + 1 - 2 ^ 32) mod 2 ^ 32" by (rule minus_mod_self2 [symmetric])
    also have "\<dots> = uint s + uint x + 1 - 2 ^ 32" using b that by (intro mod_pos_pos_trivial) auto
    finally show ?thesis by simp
  qed
  have small: "uint (s + x) = uint s + uint x" if "\<not> uint s + uint x \<ge> 2 ^ 32"
    using that b by (simp add: uint_word_ariths mod_pos_pos_trivial)
  show "cong1 (uint (uadd_carry s x)) (uint s + uint x)"
  proof (cases "uint s + uint x \<ge> 2 ^ 32")
    case True
    hence "uint (uadd_carry s x) = (uint s + uint x) + 65535 * (- 65537)" using big by (simp add: uadd_carry_def)
    thus ?thesis by (simp only: cong1_add_multiple)
  next
    case False
    with small show ?thesis by (simp add: uadd_carry_def)
  qed
  show "s = 0 \<and> x = 0" if z: "uadd_carry s x = 0"
  proof (cases "uint s + uint x \<ge> 2 ^ 32")
    case True
    with z have "uint (s + x + 1) = 0" by (simp add: uadd_carry_def)
    with big [OF True] True show ?thesis by simp
  next
    case False
    with z have "uint (s + x) = 0" by (simp add: uadd_carry_def)
    with small [OF False] b have "uint s = 0 \<and> uint x = 0" by linarith
    thus ?thesis by (simp add: word_uint_eq_iff)
  qed
qed

lemma four_induct [case_names more few]:
  assumes "\<And>a b c d bs. P bs \<Longrightarrow> P (a # b # c # d # bs)" and "\<And>bs. length bs < 4 \<Longrightarrow> P bs"
  shows "P bs"
proof (induction bs rule: length_induct)
  case (1 bs)
  show ?case
  proof (cases "length bs < 4")
    case False
    then obtain a b c d bs' where "bs = a # b # c # d # bs'"
      by (cases bs; cases "tl bs"; cases "tl (tl bs)"; cases "tl (tl (tl bs))") auto
    with 1 assms(1) show ?thesis by simp
  qed (rule assms(2))
qed

lemma csum_words32_few: "length bs < 4 \<Longrightarrow> csum_words32 swap bs s = (s, bs)"
  by (cases "(swap, bs, s)" rule: csum_words32.cases) auto

section \<open>The checksum units\<close>

text \<open>What the last up to three bytes add.\<close>

definition tail_sum :: "(u16 \<Rightarrow> u16) \<Rightarrow> u8 list \<Rightarrow> int" where
  "tail_sum swap16 bs = (case bs of [a, b, c] \<Rightarrow> uint (swap16 (le16 [a, b])) + uint (swap16 (ucast c))
     | [a, b] \<Rightarrow> uint (swap16 (le16 [a, b])) | [a] \<Rightarrow> uint (swap16 (ucast a)) | _ \<Rightarrow> 0)"

text \<open>
  The additions of the first and the last units lose a carry when they overflow; the condition says that
  they do not.
\<close>

definition carry_free :: "(u16 \<Rightarrow> u16) \<Rightarrow> (u32 \<Rightarrow> u32) \<Rightarrow> nat \<Rightarrow> u8 list \<Rightarrow> u32 \<Rightarrow> bool" where
  "carry_free swap16 swap32 addr bs s \<longleftrightarrow>
     (length bs \<ge> 2 \<and> addr mod 4 \<noteq> 0 \<longrightarrow> uint s + uint (swap16 (le16 bs)) < 2 ^ 32) \<and>
     (let (s', rest) = (case csum_align swap16 addr bs s of (s1, bs1) \<Rightarrow> csum_words32 swap32 bs1 s1)
      in uint s' + tail_sum swap16 rest < 2 ^ 32)"

definition csum_no_overflow :: "nat \<Rightarrow> u8 list \<Rightarrow> u32 \<Rightarrow> bool" where
  "csum_no_overflow addr bs s = (case bs of [] \<Rightarrow> True
     | b # bs' \<Rightarrow> (if addr mod 2 = 1
                   then uint s + uint b < 2 ^ 32 \<and> carry_free bswap_16 bswap_32 (addr + 1) bs' (s + ucast b)
                   else carry_free id id addr bs s))"

text \<open>
  The contract between the loops and the swaps they apply: the words and bytes that are added up amount to the reference sum,
  multiplied by the weight of the position (1 for an even, 256 for an odd start).
\<close>

locale csum_units =
  fixes swap16 :: "u16 \<Rightarrow> u16" and swap32 :: "u32 \<Rightarrow> u32" and w :: int
  assumes unit16: "cong1 (uint (swap16 (le16 [a, b]))) (w * (uint a + 256 * uint b))"
    and unit32: "cong1 (uint (swap32 (u32_of_bytes [a, b, c, d]))) (w * (uint a + 256 * uint b + uint c + 256 * uint d))"
    and zero16: "swap16 x = 0 \<Longrightarrow> x = 0"
    and zero32: "swap32 y = 0 \<Longrightarrow> y = 0"
begin

lemma unit8: "cong1 (uint (swap16 (ucast (a :: u8)))) (w * uint a)"
  using unit16 [of a 0] by (simp add: le16_byte)

lemma zero_pair: "swap16 (le16 [a, b]) = 0 \<Longrightarrow> a = 0 \<and> b = 0"
proof -
  assume "swap16 (le16 [a, b]) = 0"
  hence "le16 [a, b] = 0" by (rule zero16)
  hence "uint (le16 [a, b]) = 0" by (simp only: unsigned_0)
  hence "uint a = 0 \<and> uint b = 0" unfolding uint_le16 by (simp add: add_nonneg_eq_0_iff)
  thus ?thesis by (simp add: word_uint_eq_iff)
qed

lemma uint_zero_pair: "uint (swap16 (le16 [a, b])) = 0 \<Longrightarrow> uint a = 0 \<and> uint b = 0"
  using zero_pair [of a b] by (auto simp: uint_0_iff)

lemma words32:
  "csum_words32 swap32 bs s = (s', rest) \<Longrightarrow> cong1 (uint s' + w * csum_ref rest) (uint s + w * csum_ref bs)
     \<and> length rest < 4 \<and> (s' = 0 \<longrightarrow> s = 0 \<and> (csum_ref rest = 0 \<longrightarrow> csum_ref bs = 0))"
proof (induction bs arbitrary: s rule: four_induct)
  case (more a b c d bs)
  let ?x = "swap32 (u32_of_bytes [a, b, c, d])"
  have ih: "cong1 (uint s' + w * csum_ref rest) (uint (uadd_carry s ?x) + w * csum_ref bs)" "length rest < 4"
      "s' = 0 \<Longrightarrow> uadd_carry s ?x = 0 \<and> (csum_ref rest = 0 \<longrightarrow> csum_ref bs = 0)"
    using more.IH [of "uadd_carry s ?x"] more.prems by auto
  have "cong1 (uint (uadd_carry s ?x) + w * csum_ref bs)
      ((uint s + w * (uint a + 256 * uint b + uint c + 256 * uint d)) + w * csum_ref bs)"
    using cong1_trans [OF uadd_carry_cong cong1_add [OF cong1_refl unit32]] by (intro cong1_add) simp_all
  hence "cong1 (uint s' + w * csum_ref rest) (uint s + w * csum_ref (a # b # c # d # bs))"
    using cong1_trans [OF ih(1)] by (simp add: algebra_simps)
  moreover have "s = 0 \<and> (csum_ref rest = 0 \<longrightarrow> csum_ref (a # b # c # d # bs) = 0)" if "s' = 0"
  proof -
    have "s = 0" "u32_of_bytes [a, b, c, d] = 0" using ih(3) [OF that] uadd_carry_zero zero32 by blast+
    hence "uint a = 0 \<and> uint b = 0 \<and> uint c = 0 \<and> uint d = 0"
      using uint_u32_of_bytes [of a b c d] by (simp add: add_nonneg_eq_0_iff)
    thus ?thesis using ih(3) [OF that] \<open>s = 0\<close> by simp
  qed
  ultimately show ?case using ih(2) by blast
next
  case (few bs)
  thus ?case using csum_words32_few [of bs swap32 s] by simp
qed

lemma tail:
  assumes "length bs < 4" and "uint s + tail_sum swap16 bs < 2 ^ 32"
  defines "r \<equiv> (let (s', bs') = csum_words16 swap16 bs s in
                 if length bs' = 1 then s' + ucast (swap16 (ucast (hd bs'))) else s')"
  shows "uint r = uint s + tail_sum swap16 bs" and "cong1 (tail_sum swap16 bs) (w * csum_ref bs)"
    and "tail_sum swap16 bs = 0 \<Longrightarrow> csum_ref bs = 0"
proof -
  consider "bs = []" | a where "bs = [a]" | a b where "bs = [a, b]" | a b c where "bs = [a, b, c]"
    using assms(1) by (cases "(swap32, bs, s)" rule: csum_words32.cases) auto
  note cases = this
  show "uint r = uint s + tail_sum swap16 bs"
  proof (cases rule: cases)
    case (4 a b c)
    let ?x = "swap16 (le16 [a, b])" and ?y = "swap16 (ucast c)"
    have f: "uint s + uint ?x + uint ?y < 2 ^ 32" using assms(2) 4 by (simp add: tail_sum_def)
    hence "uint s + uint ?x < 2 ^ 32" using unsigned_greater_eq [of ?y, where 'a = int] by linarith
    from word_plus_fits [OF this] f have "uint (s + ucast ?x + ucast ?y) = uint s + uint ?x + uint ?y"
      using word_plus_fits [of "s + ucast ?x" ?y] by simp
    thus ?thesis unfolding r_def by (simp add: 4 tail_sum_def)
  qed (use assms(2) in \<open>auto simp: r_def tail_sum_def word_plus_fits\<close>)
  show "cong1 (tail_sum swap16 bs) (w * csum_ref bs)"
    using unit16 unit8 cong1_add [OF unit16 unit8] by (cases rule: cases) (auto simp: tail_sum_def distrib_left)
  show "csum_ref bs = 0" if "tail_sum swap16 bs = 0"
    using that by (cases rule: cases) (auto simp: tail_sum_def le16_byte add_nonneg_eq_0_iff dest!: uint_zero_pair)
qed

lemma half:
  assumes "carry_free swap16 swap32 addr bs s"
  shows "cong1 (uint (csum_half swap16 swap32 addr bs s)) (uint s + w * csum_ref bs)
     \<and> (csum_half swap16 swap32 addr bs s = 0 \<longrightarrow> s = 0 \<and> csum_ref bs = 0)"
proof -
  obtain s1 bs1 where a: "csum_align swap16 addr bs s = (s1, bs1)" by (metis surj_pair)
  obtain s2 bs2 where b: "csum_words32 swap32 bs1 s1 = (s2, bs2)" by (metis surj_pair)
  have c1: "cong1 (uint s1 + w * csum_ref bs1) (uint s + w * csum_ref bs)"
      and z1: "s1 = 0 \<Longrightarrow> s = 0 \<and> (csum_ref bs1 = 0 \<longrightarrow> csum_ref bs = 0)"
  proof (atomize (full), cases "length bs \<ge> 2 \<and> addr mod 4 \<noteq> 0")
    case True
    then obtain x y bs' where bs: "bs = x # y # bs'" by (cases bs; cases "tl bs") auto
    have fits: "uint s + uint (swap16 (le16 [x, y])) < 2 ^ 32"
      using assms True by (simp add: carry_free_def bs le16_def)
    have 1: "bs1 = bs'" "s1 = s + ucast (swap16 (le16 [x, y]))" using a True by (auto simp: csum_align_def bs le16_def)
    have s1: "uint s1 = uint s + uint (swap16 (le16 [x, y]))" using word_plus_fits [OF fits] 1 by simp
    have "cong1 (uint s1 + w * csum_ref bs1) (uint s + w * csum_ref bs)"
      using cong1_add [OF cong1_refl unit16 [of x y], of "uint s + w * csum_ref bs'"]
      by (simp add: s1 1(1) bs algebra_simps)
    moreover have "s1 = 0 \<longrightarrow> s = 0 \<and> (csum_ref bs1 = 0 \<longrightarrow> csum_ref bs = 0)"
      using s1 zero_pair [of x y] by (auto simp: bs 1(1) add_nonneg_eq_0_iff word_uint_eq_iff)
    ultimately show "cong1 (uint s1 + w * csum_ref bs1) (uint s + w * csum_ref bs)
        \<and> (s1 = 0 \<longrightarrow> s = 0 \<and> (csum_ref bs1 = 0 \<longrightarrow> csum_ref bs = 0))" by blast
  next
    case False
    hence "s1 = s \<and> bs1 = bs" using a by (auto simp: csum_align_def)
    thus "cong1 (uint s1 + w * csum_ref bs1) (uint s + w * csum_ref bs)
        \<and> (s1 = 0 \<longrightarrow> s = 0 \<and> (csum_ref bs1 = 0 \<longrightarrow> csum_ref bs = 0))" by simp
  qed
  note w32 = words32 [OF b]
  have t: "uint s2 + tail_sum swap16 bs2 < 2 ^ 32" using assms a b by (simp add: carry_free_def)
  note tl = tail [OF _ t]
  let ?r = "csum_half swap16 swap32 addr bs s"
  have r: "uint ?r = uint s2 + tail_sum swap16 bs2"
    using tl(1) w32 by (simp add: csum_half_def a b)
  have "cong1 (uint ?r) (uint s2 + w * csum_ref bs2)" unfolding r using tl(2) w32 by (intro cong1_add) auto
  hence "cong1 (uint ?r) (uint s + w * csum_ref bs)" using c1 w32 cong1_trans by blast
  moreover have "s = 0 \<and> csum_ref bs = 0" if "?r = 0"
  proof -
    have "0 \<le> tail_sum swap16 bs2" by (auto simp: tail_sum_def split: list.splits)
    moreover have "uint s2 + tail_sum swap16 bs2 = 0" using r that by simp
    ultimately have "uint s2 = 0" "tail_sum swap16 bs2 = 0" by (auto simp: add_nonneg_eq_0_iff)
    hence "s2 = 0" "csum_ref bs2 = 0" using tl(3) w32 by (auto simp: word_uint_eq_iff)
    thus ?thesis using w32 z1 by blast
  qed
  ultimately show ?thesis by blast
qed

end

text \<open>The two branches of the routine.\<close>

lemma bswap_zero: "bswap_16 x = 0 \<Longrightarrow> x = 0" "bswap_32 y = 0 \<Longrightarrow> y = 0"
proof -
  show "bswap_16 x = 0 \<Longrightarrow> x = 0" using bswap_16_bswap_16 [of x] by (simp add: bswap_16_def)
  have "bswap_32 0 = 0" by code_simp
  thus "bswap_32 y = 0 \<Longrightarrow> y = 0" using bswap_32_bswap_32 [of y] by simp
qed

lemma cong1_65536: "cong1 (65536 * x) x"
  using cong1_add_multiple(1) [of x x] by simp

interpretation even_start: csum_units id id 1
proof
  fix a b c d :: u8
  show "cong1 (uint (id (le16 [a, b]))) (1 * (uint a + 256 * uint b))" by (simp add: uint_le16)
  have "uint (u32_of_bytes [a, b, c, d]) = (uint a + 256 * uint b) + 65536 * (uint c + 256 * uint d)"
    by (simp add: uint_u32_of_bytes)
  also have "cong1 \<dots> ((uint a + 256 * uint b) + (uint c + 256 * uint d))"
    by (intro cong1_add cong1_65536 cong1_refl)
  finally show "cong1 (uint (id (u32_of_bytes [a, b, c, d]))) (1 * (uint a + 256 * uint b + uint c + 256 * uint d))"
    by (simp add: add.assoc)
qed simp_all

interpretation odd_start: csum_units bswap_16 bswap_32 256
proof
  fix a b c d :: u8
  have pair: "cong1 (256 * uint x + uint y) (256 * (uint x + 256 * uint y))" for x y :: u8
    by (rule cong1_sym [OF cong1_256])
  show "cong1 (uint (bswap_16 (le16 [a, b]))) (256 * (uint a + 256 * uint b))"
    using pair [of a b] by (simp add: bswap_16_le16 uint_le16 add.commute)
  have "uint (bswap_32 (u32_of_bytes [a, b, c, d])) = 65536 * (256 * uint a + uint b) + (256 * uint c + uint d)"
    by (simp add: bswap_32_bytes uint_u32_of_bytes)
  also have "cong1 \<dots> (256 * (uint a + 256 * uint b) + 256 * (uint c + 256 * uint d))"
    using cong1_trans [OF cong1_65536 pair] by (intro cong1_add pair) blast
  finally show "cong1 (uint (bswap_32 (u32_of_bytes [a, b, c, d]))) (256 * (uint a + 256 * uint b + uint c + 256 * uint d))"
    by (simp add: algebra_simps)
qed (simp_all add: bswap_zero)

lemma csum_partial_cong:
  assumes "csum_no_overflow addr bs s"
  shows "cong1 (uint (csum_partial addr bs s)) (uint s + csum_ref bs)"
    and "csum_partial addr bs s = 0 \<Longrightarrow> s = 0 \<and> csum_ref bs = 0"
proof -
  have "cong1 (uint (csum_partial addr bs s)) (uint s + csum_ref bs)
      \<and> (csum_partial addr bs s = 0 \<longrightarrow> s = 0 \<and> csum_ref bs = 0)"
  proof (cases bs)
    case (Cons b bs')
    show ?thesis
    proof (cases "addr mod 2 = 1")
      case True
      have f: "uint s + uint b < 2 ^ 32" "carry_free bswap_16 bswap_32 (addr + 1) bs' (s + ucast b)"
        using assms True Cons by (simp_all add: csum_no_overflow_def)
      have sb: "uint (s + ucast b) = uint s + uint b" using word_plus_fits [OF f(1)] by simp
      note h = odd_start.half [OF f(2)]
      have "cong1 (uint s + uint b + 256 * csum_ref bs') (uint s + csum_ref (b # bs'))"
        using cong1_add [OF cong1_refl cong1_sym [OF csum_ref_Cons [of b bs']], of "uint s"] by (simp add: add.assoc)
      hence "cong1 (uint (csum_partial addr bs s)) (uint s + csum_ref bs)"
        using cong1_trans [OF conjunct1 [OF h, unfolded sb]] True by (simp add: csum_partial_def Cons)
      moreover have "s = 0 \<and> csum_ref bs = 0" if "csum_partial addr bs s = 0"
      proof -
        have "uint (s + ucast b) = 0" "csum_ref bs' = 0" using that h True by (auto simp: csum_partial_def Cons)
        hence "uint s = 0" "uint b = 0" using sb by (auto simp: add_nonneg_eq_0_iff)
        thus ?thesis using \<open>csum_ref bs' = 0\<close> by (auto simp: uint_0_iff csum_ref_zero Cons)
      qed
      ultimately show ?thesis by blast
    next
      case False
      with assms Cons even_start.half [of addr bs s] show ?thesis
        by (simp add: csum_no_overflow_def csum_partial_def)
    qed
  qed (simp add: csum_partial_def)
  thus "cong1 (uint (csum_partial addr bs s)) (uint s + csum_ref bs)"
    and "csum_partial addr bs s = 0 \<Longrightarrow> s = 0 \<and> csum_ref bs = 0" by auto
qed

section \<open>Folding\<close>

lemma fold_step: "uint ((s AND 0xffff) + drop_bit 16 s :: u32) = uint s mod 65536 + uint s div 65536"
proof -
  have "uint (s AND 0xffff) = uint s mod 65536"
    by (simp add: unsigned_and_eq and_65535)
  moreover have "uint (drop_bit 16 s) = uint s div 65536" by (simp add: drop_bit_eq_div uint_div)
  moreover have "uint s < 4294967296" using uint_lt2p [of s] by simp
  hence "uint s div 65536 < 65536" by linarith
  hence "(uint s mod 65536 + uint s div 65536) mod 4294967296 = uint s mod 65536 + uint s div 65536"
    using pos_mod_bound [of 65536 "uint s"] pos_imp_zdiv_nonneg_iff [of 65536 "uint s"]
    by (intro mod_pos_pos_trivial) auto
  ultimately show ?thesis by (simp add: uint_word_ariths)
qed

lemma fold_cong: "cong1 (x mod 65536 + x div 65536) x"
proof -
  have "x = (x mod 65536 + x div 65536) + 65535 * (x div 65536)" using div_mult_mod_eq [of x 65536] by linarith
  thus ?thesis using cong1_add_multiple(1) cong1_sym by metis
qed

lemma csum_fold_sum:
  "\<exists>f. 0 \<le> f \<and> f \<le> 65535 \<and> cong1 f (uint s) \<and> (f = 0 \<longleftrightarrow> s = 0) \<and> csum_fold s = bswap_16 (word_of_int (65535 - f))"
proof -
  define a where "a = (s AND 0xffff) + drop_bit 16 s"
  define b where "b = (a AND 0xffff) + drop_bit 16 a"
  have ua: "uint a = uint s mod 65536 + uint s div 65536" unfolding a_def by (rule fold_step)
  have ub: "uint b = uint a mod 65536 + uint a div 65536" unfolding b_def by (rule fold_step)
  have "uint s < 4294967296" using uint_lt2p [of s] by simp
  hence "uint s div 65536 \<le> 65535" by linarith
  hence "uint a \<le> 131070" unfolding ua using pos_mod_bound [of 65536 "uint s"] by linarith
  hence b: "uint b \<le> 65535" unfolding ub using div_mult_mod_eq [of "uint a" 65536] pos_mod_bound [of 65536 "uint a"] by linarith
  have c: "cong1 (uint b) (uint s)"
    using cong1_trans [OF fold_cong [of "uint a", folded ub] fold_cong [of "uint s", folded ua]] .
  have z: "uint b = 0 \<longleftrightarrow> s = 0"
  proof -
    have "x mod 65536 + x div 65536 = 0 \<longleftrightarrow> x = 0" if "0 \<le> x" for x :: int
      using that div_mult_mod_eq [of x 65536] pos_imp_zdiv_nonneg_iff [of 65536 x] pos_mod_sign [of 65536 x] by linarith
    from this [of "uint a", folded ub] this [of "uint s", folded ua] show ?thesis by (simp add: uint_0_iff)
  qed
  have "ucast (NOT b) = (word_of_int (65535 - uint b) :: u16)"
  proof -
    have "NOT b = - 1 - b" by (simp add: not_eq_complement)
    moreover have "uint (- 1 - b) = (uint (- 1 :: u32) - uint b) mod 4294967296" by (subst uint_word_ariths) simp
    moreover have "uint (- 1 :: u32) = 4294967295" by (simp add: unsigned_minus_1_eq_mask mask_eq_exp_minus_1)
    moreover have "(4294967295 - uint b) mod 4294967296 = 4294967295 - uint b"
      using b unsigned_greater_eq [of b, where 'a = int] by (intro mod_pos_pos_trivial) linarith+
    ultimately have "uint (NOT b) = 4294967295 - uint b" by simp
    moreover have "(65535 - uint b) mod 65536 = 65535 - uint b"
      using b unsigned_greater_eq [of b, where 'a = int] by (intro mod_pos_pos_trivial) linarith+
    moreover have "(65535 - uint b + 65536 * 65535) mod 65536 = (65535 - uint b) mod 65536" by (rule mod_mult_self2)
    moreover have "uint (ucast (NOT b) :: u16) = uint (NOT b) mod 65536" by (simp add: unsigned_ucast_eq take_bit_eq_mod)
    moreover have "uint (word_of_int k :: u16) = k mod 65536" for k by (simp add: uint_word_of_int)
    ultimately show ?thesis unfolding word_uint_eq_iff by (simp only:) (simp add: algebra_simps)
  qed
  hence "csum_fold s = bswap_16 (word_of_int (65535 - uint b))"
    by (simp add: csum_fold_def Let_def a_def [symmetric] b_def [symmetric] ntohs_def)
  thus ?thesis using b c z by (intro exI [of _ "uint b"]) simp
qed

lemma csum_fold_zero: "csum_fold s = 0 \<longleftrightarrow> s \<noteq> 0 \<and> cong1 (uint s) 0"
proof -
  obtain f where f: "0 \<le> f" "f \<le> 65535" "cong1 f (uint s)" "f = 0 \<longleftrightarrow> s = 0"
      "csum_fold s = bswap_16 (word_of_int (65535 - f))" using csum_fold_sum [of s] by blast
  have "bswap_16 0 = 0" by (simp add: bswap_16_def)
  hence sw: "bswap_16 x = 0 \<longleftrightarrow> x = 0" for x using bswap_zero(1) by metis
  have "csum_fold s = 0 \<longleftrightarrow> (word_of_int (65535 - f) :: u16) = 0" unfolding f(5) by (rule sw)
  also have "\<dots> \<longleftrightarrow> (65535 - f) mod 65536 = 0"
  proof -
    have "uint (word_of_int k :: u16) = k mod 65536" for k by (simp add: uint_word_of_int)
    from this [of "65535 - f"] show ?thesis by (simp only: uint_0_iff [symmetric])
  qed
  also have "\<dots> \<longleftrightarrow> f = 65535"
  proof -
    have "(65535 - f) mod 65536 = 65535 - f" using f(1,2) by (intro mod_pos_pos_trivial) linarith+
    thus ?thesis by simp
  qed
  also have "\<dots> \<longleftrightarrow> f \<noteq> 0 \<and> cong1 f 0"
  proof (cases "f = 65535")
    case False
    hence "f mod 65535 = f" using f(1,2) by (intro mod_pos_pos_trivial) auto
    with False show ?thesis by (simp add: cong1_def)
  qed (simp add: cong1_def)
  also have "\<dots> \<longleftrightarrow> s \<noteq> 0 \<and> cong1 (uint s) 0" using f(3,4) by (simp add: cong1_def)
  finally show ?thesis .
qed

text \<open>
  C15: The checksum routine computes the Internet checksum of RFC 1071: whatever the address of the bytes, unless one of
  its 16-bit additions overflows, the 32-bit result is in ones' complement arithmetic the start value plus the sum
  of the 16-bit words of the bytes.
\<close>

theorem csum_partial_reference:
  assumes "csum_no_overflow addr bs s"
  shows "uint (csum_partial addr bs s) mod 65535 = (uint s + csum_ref bs) mod 65535"
  using csum_partial_cong(1) [OF assms] by (simp add: cong1_def)

definition ip_sample :: "u8 list" where
  "ip_sample = [0x45, 0, 0, 84, 0x12, 0x34, 0x40, 0, 64, 1, 0, 0, 192, 168, 1, 1, 192, 168, 1, 2]"

theorem csum_partial_reference_witness:
  "csum_no_overflow 14 ip_sample 0 \<and> csum_no_overflow 15 ip_sample 0
   \<and> uint (csum_partial 14 ip_sample 0) mod 65535 = csum_ref ip_sample mod 65535
   \<and> uint (csum_partial 15 ip_sample 0) mod 65535 = csum_ref ip_sample mod 65535"
proof -
  have f: "csum_no_overflow 14 ip_sample 0" "csum_no_overflow 15 ip_sample 0" by code_simp+
  from csum_partial_reference [OF f(1)] csum_partial_reference [OF f(2)] f show ?thesis by simp
qed

text \<open>
  The condition is needed: at an address of the form $4 k + 2$, where an IPv4 header lies behind an Ethernet header, the
  last two bytes are added without the carry.  The sum over this header, from 10.24.205.169 to 10.90.56.35 with
  identification 0xab7c, comes out one less than at a multiple of four.
\<close>

definition carry_sample :: "u8 list" where
  "carry_sample = [69, 0, 0, 84, 171, 124, 64, 0, 64, 17, 0, 0, 10, 24, 205, 169, 10, 90, 56, 35]"

lemma csum_partial_loses_carry:
  "csum_fold (csum_partial 14 carry_sample 0) \<noteq> csum_fold (csum_partial 16 carry_sample 0)"
  "csum_no_overflow 16 carry_sample 0"
  by code_simp+

section \<open>Round trip of link-layer addresses\<close>

lemma hex_digit_char: "n < 16 \<Longrightarrow> hex_digit (hex_char n) = Some n"
  by (auto simp: hex_digit_def hex_char_def Let_def)

lemma hex_char_plain:
  assumes "n < 16"
  shows "\<not> isspace (hex_char n)" "hex_char n \<noteq> CHR ''+''" "hex_char n \<noteq> CHR ''-''"
    "hex_char n \<noteq> CHR ''x''" "hex_char n \<noteq> CHR ''X''"
proof -
  have "\<forall>n \<in> set [0..<16]. \<not> isspace (hex_char n) \<and> hex_char n \<noteq> CHR ''+'' \<and> hex_char n \<noteq> CHR ''-''
      \<and> hex_char n \<noteq> CHR ''x'' \<and> hex_char n \<noteq> CHR ''X''" by code_simp
  moreover have "n \<in> set [0..<16]" using assms by simp
  ultimately show "\<not> isspace (hex_char n)" "hex_char n \<noteq> CHR ''+''" "hex_char n \<noteq> CHR ''-''"
    "hex_char n \<noteq> CHR ''x''" "hex_char n \<noteq> CHR ''X''"
    by blast+
qed

lemma scan_hex2_byte: "scan_hex2 (hex_byte b @ rest) = Some (b, rest)"
proof -
  have n: "unat b div 16 < 16" "unat b mod 16 < 16"
    using unsigned_less [of b, where 'a = nat] by (auto simp: less_mult_imp_div_less)
  have "16 * (unat b div 16) + unat b mod 16 = unat b" by simp
  hence b: "of_nat (16 * (unat b div 16) + unat b mod 16) = b" by simp
  show ?thesis
    using hex_char_plain [OF n(1)] hex_char_plain [OF n(2)] n b
    by (simp add: scan_hex2_def hex_byte_def hex_digit_char)
qed

text \<open>
  C34: Printing a link-layer address and parsing the text gives the address back: six bytes are printed as 17 characters,
  which fit with their NUL into the size the function asks for, and the parser returns the same six bytes.
\<close>

theorem ether_roundtrip:
  assumes "length mac = 6" and "dstsize \<ge> ETHER_ADDSTRLEN"
  shows "\<exists>str. ether_ntop mac dstsize = Some (Some str) \<and> length str + 1 = ETHER_ADDSTRLEN \<and> ether_pton str = Some mac"
proof -
  obtain a b c d e f where m: "mac = [a, b, c, d, e, f]"
    using assms(1) by (auto simp: numeral_eq_Suc length_Suc_conv)
  have c6: "colon_bytes mac = hex_byte a @ '':'' @ hex_byte b @ '':'' @ hex_byte c @ '':'' @ hex_byte d @ '':''
      @ hex_byte e @ '':'' @ hex_byte f" by (simp add: m)
  have last: "scan_hex2 (hex_byte f) = Some (f, [])" using scan_hex2_byte [of f "[]"] by simp
  have "ether_pton (colon_bytes mac) = Some mac"
    unfolding c6 by (simp add: ether_pton_def scan_hex2_byte last numeral_eq_Suc m)
  moreover have "ether_ntop mac dstsize = Some (Some (colon_bytes mac))"
    using assms by (simp add: ether_ntop_def mem_read_def)
  moreover have "length (colon_bytes mac) = 17" unfolding c6 by (simp add: hex_byte_def)
  ultimately show ?thesis by (simp add: ETHER_ADDSTRLEN_def)
qed

theorem ether_roundtrip_witness:
  "\<exists>str. ether_ntop [0x02, 0, 0xab, 0xcd, 0xef, 1] 18 = Some (Some str) \<and> ether_pton str = Some [0x02, 0, 0xab, 0xcd, 0xef, 1]"
  using ether_roundtrip [of "[0x02, 0, 0xab, 0xcd, 0xef, 1]" 18] by (auto simp: ETHER_ADDSTRLEN_def)

text \<open>
  Where the parser of addresses with a VLAN departs from its comment: text after the number and numbers beyond 16 bits
  are accepted, and without a VLAN the output is set to zero.
\<close>

lemma parse_mac_vlan_lenient:
  "parse_mac_vlan ''02:00:00:00:00:01+5 apples'' = Some (''02:00:00:00:00:01'', 5)"
  "parse_mac_vlan ''02:00:00:00:00:01+70000'' = Some (''02:00:00:00:00:01'', 70000)"
  "parse_mac_vlan ''02:00:00:00:00:01'' = Some (''02:00:00:00:00:01'', 0)"
  by code_simp+

end
