(* ===== verification/Checksum.thy ===== *)
theory Checksum
  imports Inet_Utils Packet
begin

text \<open>
  Checksums in packets (\<^verbatim>\<open>src/checksum.c\<close>): the IPv4 header checksum and the checksums of ICMP, ICMPv6, TCP and UDP over
  the headers of a packet, computed into the packet or verified.

  The buffer of a packet is aligned, so the address of a byte modulo four is its offset; the address of the local array
  with the pseudo header is the argument \<open>sp\<close>.  A read or write outside of the buffer, or of a header that does not exist, is
  \<open>None\<close>.
\<close>

section \<open>Definitions\<close>

record ChecksumParameters =
  cp_hdr_idx :: nat
  cp_hdr_proto :: ProtocolID
  cp_ip_idx :: nat
  cp_ip_version :: ProtocolID

definition IPPROTO_TCP :: u8 where "IPPROTO_TCP = 6"
definition IPPROTO_UDP :: u8 where "IPPROTO_UDP = 17"
definition IPPROTO_ICMPV6 :: u8 where "IPPROTO_ICMPV6 = 58"

definition header_addr :: "Packet \<Rightarrow> nat \<Rightarrow> nat option" where
  "header_addr p i = do { h \<leftarrow> aget (headers p) i; Some (unat (hstart h)) }"

text \<open>\<^verbatim>\<open>(x << 8) + y\<close> for two bytes, converted to 16 bits.\<close>

definition be16 :: "u8 \<Rightarrow> u8 \<Rightarrow> u16" where
  "be16 x y = push_bit 8 (ucast x) + ucast y"

fun skip_headers :: "nat \<Rightarrow> u32 \<Rightarrow> u16 \<Rightarrow> u16" where
  "skip_headers 0 l len = len"
| "skip_headers (Suc n) l len = skip_headers n l (len - ucast l)"

definition payload_length :: "Packet \<Rightarrow> ChecksumParameters \<Rightarrow> u16 option" where
  "payload_length p cp =
     do { a \<leftarrow> header_addr p (cp_ip_idx cp);
          len \<leftarrow> (if cp_ip_version cp = PROTO_ID_IPv4
                  then do { b0 \<leftarrow> aget (buf p) a; b2 \<leftarrow> aget (buf p) (a + 2); b3 \<leftarrow> aget (buf p) (a + 3);
                            Some (be16 b2 b3 - ucast (b0 AND 0x0f) * 4) }
                  else do { b4 \<leftarrow> aget (buf p) (a + 4); b5 \<leftarrow> aget (buf p) (a + 5); Some (be16 b4 b5) });
          if cp_ip_idx cp + 1 < cp_hdr_idx cp
          then do { h \<leftarrow> aget (headers p) (cp_hdr_idx cp);
                    Some (skip_headers (cp_hdr_idx cp - (cp_ip_idx cp + 1)) (hlen h) len) }
          else Some len }"

definition ipv4_header_csum :: "Packet \<Rightarrow> nat \<Rightarrow> u16 option" where
  "ipv4_header_csum p a =
     do { b0 \<leftarrow> aget (buf p) a;
          bs \<leftarrow> mem_read (buf p) a (4 * unat (b0 AND 0x0f));
          Some (csum_fold (csum_partial a bs 0)) }"

text \<open>The loop over the header and what follows it, until the length of the payload is used up.\<close>

fun csum_headers :: "u8 list \<Rightarrow> PacketHeader list \<Rightarrow> u16 \<Rightarrow> u32 \<Rightarrow> u32 option" where
  "csum_headers b [] len s = Some s"
| "csum_headers b (h # hs) len s =
     (let hl = min (unat len) (unat (hlen h)) in
      do { bs \<leftarrow> mem_read b (unat (hstart h)) hl;
           csum_headers b hs (len - of_nat hl) (csum_partial (unat (hstart h)) bs s) })"

definition icmpv4_csum :: "Packet \<Rightarrow> ChecksumParameters \<Rightarrow> u16 option" where
  "icmpv4_csum p cp =
     do { len \<leftarrow> payload_length p cp;
          s \<leftarrow> csum_headers (buf p) (drop (cp_hdr_idx cp) (headers p)) len 0;
          Some (csum_fold s) }"

definition protoid_of :: "ProtocolID \<Rightarrow> u8 option" where
  "protoid_of proto =
     (if proto = PROTO_ID_ICMPv6 then Some IPPROTO_ICMPV6
      else if proto = PROTO_ID_TCP then Some IPPROTO_TCP
      else if proto = PROTO_ID_UDP then Some IPPROTO_UDP else None)"

definition pseudo_csum :: "nat \<Rightarrow> Packet \<Rightarrow> ChecksumParameters \<Rightarrow> u8 \<Rightarrow> u16 \<Rightarrow> u32 option" where
  "pseudo_csum sp p cp protoid len =
     do { iph \<leftarrow> header_addr p (cp_ip_idx cp);
          if cp_ip_version cp = PROTO_ID_IPv4
          then do { adr \<leftarrow> mem_read (buf p) (iph + 12) 8;
                    Some (csum_partial sp [0, protoid, ucast (drop_bit 8 len), ucast len] (csum_partial (iph + 12) adr 0)) }
          else do { adr \<leftarrow> mem_read (buf p) (iph + 8) 32;
                    Some (csum_partial sp [0, 0, ucast (drop_bit 8 len), ucast len, 0, 0, 0, protoid]
                            (csum_partial (iph + 8) adr 0)) } }"

definition layer4_csum :: "nat \<Rightarrow> Packet \<Rightarrow> ChecksumParameters \<Rightarrow> u16 option" where
  "layer4_csum sp p cp = (case protoid_of (cp_hdr_proto cp) of
       None \<Rightarrow> Some 0xffff
     | Some protoid \<Rightarrow>
         do { len \<leftarrow> payload_length p cp;
              s \<leftarrow> pseudo_csum sp p cp protoid len;
              s' \<leftarrow> csum_headers (buf p) (drop (cp_hdr_idx cp) (headers p)) len s;
              Some (csum_fold s') })"

text \<open>Clearing the checksum field, computing, and storing the result in network byte order.\<close>

definition store_csum :: "nat \<Rightarrow> (Packet \<Rightarrow> u16 option) \<Rightarrow> Packet \<Rightarrow> Packet option" where
  "store_csum pos f p =
     do { b0 \<leftarrow> aset (buf p) pos 0;
          b1 \<leftarrow> aset b0 (pos + 1) 0;
          csum16 \<leftarrow> f (p\<lparr>buf := b1\<rparr>);
          b2 \<leftarrow> aset b1 pos (ucast (drop_bit 8 csum16));
          b3 \<leftarrow> aset b2 (pos + 1) (ucast csum16);
          Some (p\<lparr>buf := b3\<rparr>) }"

definition csum_offset :: "ProtocolID \<Rightarrow> nat option" where
  "csum_offset proto =
     (if proto = PROTO_ID_ICMPv6 then Some 2
      else if proto = PROTO_ID_TCP then Some 16
      else if proto = PROTO_ID_UDP then Some 6 else None)"

definition checksum_compute :: "nat \<Rightarrow> Packet \<Rightarrow> ChecksumParameters \<Rightarrow> Packet option" where
  "checksum_compute sp p cp =
     do { a \<leftarrow> header_addr p (cp_hdr_idx cp);
          if cp_hdr_proto cp = PROTO_ID_IPv4 then store_csum (a + 10) (\<lambda>p. ipv4_header_csum p a) p
          else if cp_hdr_proto cp = PROTO_ID_ICMPv4 then store_csum (a + 2) (\<lambda>p. icmpv4_csum p cp) p
          else case csum_offset (cp_hdr_proto cp) of
                 None \<Rightarrow> Some p
               | Some off \<Rightarrow> store_csum (a + off) (\<lambda>p. layer4_csum sp p cp) p }"

text \<open>The second component is the interface whose error counter is incremented.\<close>

definition checksum_verify :: "nat \<Rightarrow> Packet \<Rightarrow> ChecksumParameters \<Rightarrow> (bool \<times> nat option) option" where
  "checksum_verify sp p cp =
     do { csum16 \<leftarrow> (if cp_hdr_proto cp = PROTO_ID_IPv4
                     then do { a \<leftarrow> header_addr p (cp_hdr_idx cp); ipv4_header_csum p a }
                     else if cp_hdr_proto cp = PROTO_ID_ICMPv4 then icmpv4_csum p cp
                     else layer4_csum sp p cp);
          if csum16 = 0 then Some (True, None) else Some (False, from_if p) }"

section \<open>Sums over chunks\<close>

text \<open>A checksum covers a list of chunks, each with its address.\<close>

type_synonym chunk = "nat \<times> u8 list"

fun csum_chunks :: "chunk list \<Rightarrow> u32 \<Rightarrow> u32" where
  "csum_chunks [] s = s"
| "csum_chunks ((a, bs) # cs) s = csum_chunks cs (csum_partial a bs s)"

fun chunks_fit :: "chunk list \<Rightarrow> u32 \<Rightarrow> bool" where
  "chunks_fit [] s = True"
| "chunks_fit ((a, bs) # cs) s \<longleftrightarrow> csum_no_overflow a bs s \<and> chunks_fit cs (csum_partial a bs s)"

fun chunks_ref :: "chunk list \<Rightarrow> int" where
  "chunks_ref [] = 0"
| "chunks_ref ((a, bs) # cs) = csum_ref bs + chunks_ref cs"

lemma chunks_ref_nonneg: "0 \<le> chunks_ref cs"
  by (induction cs rule: chunks_ref.induct) (auto simp: csum_ref_nonneg)

lemma csum_chunks_append [simp]: "csum_chunks (xs @ ys) s = csum_chunks ys (csum_chunks xs s)"
  by (induction xs s rule: csum_chunks.induct) auto

lemma chunks_ref_append [simp]: "chunks_ref (xs @ ys) = chunks_ref xs + chunks_ref ys"
  by (induction xs rule: chunks_ref.induct) auto

lemma csum_chunks_cong:
  assumes "chunks_fit cs s"
  shows "cong1 (uint (csum_chunks cs s)) (uint s + chunks_ref cs)"
    and "csum_chunks cs s = 0 \<Longrightarrow> s = 0 \<and> chunks_ref cs = 0"
  using assms
proof (induction cs s rule: csum_chunks.induct)
  case (2 a bs cs s)
  {
    case 1
    have "cong1 (uint (csum_partial a bs s) + chunks_ref cs) (uint s + csum_ref bs + chunks_ref cs)"
      using csum_partial_cong(1) [of a bs s] 1 by (intro cong1_add) auto
    with 2(1) 1 show ?case using cong1_trans by (auto simp: add.assoc)
  next
    case 2
    with "2.IH"(2) csum_partial_cong(2) [of a bs s] show ?case by auto
  }
qed auto

text \<open>Zero bytes sum up to zero, with every alignment.\<close>

lemma words_of_zeros:
  assumes "\<forall>b \<in> set bs. b = 0"
  shows "swap32 0 = 0 \<Longrightarrow> fst (csum_words32 swap32 bs 0) = 0 \<and> (\<forall>b \<in> set (snd (csum_words32 swap32 bs 0)). b = 0)"
    "swap16 0 = 0 \<Longrightarrow> fst (csum_words16 swap16 bs 0) = 0 \<and> (\<forall>b \<in> set (snd (csum_words16 swap16 bs 0)). b = 0)"
proof -
  show "fst (csum_words32 swap32 bs 0) = 0 \<and> (\<forall>b \<in> set (snd (csum_words32 swap32 bs 0)). b = 0)" if "swap32 0 = 0"
    using assms
  proof (induction bs rule: four_induct)
    case (more a b c d bs)
    hence "u32_of_bytes [a, b, c, d] = 0" by (simp add: u32_of_bytes_def)
    with more that show ?case by (simp add: uadd_carry_def)
  next
    case (few bs)
    thus ?case by (simp add: csum_words32_few)
  qed
  show "fst (csum_words16 swap16 bs 0) = 0 \<and> (\<forall>b \<in> set (snd (csum_words16 swap16 bs 0)). b = 0)" if "swap16 0 = 0"
    using assms
  proof (induction bs rule: induct_list012)
    case (3 x y zs)
    hence "le16 [x, y] = 0" by (simp add: le16_def)
    with 3 that show ?case by simp
  qed simp_all
qed

lemma half_of_zeros:
  assumes "\<forall>b \<in> set bs. b = 0" "swap16 0 = 0" "swap32 0 = 0"
  shows "csum_half swap16 swap32 addr bs 0 = 0"
proof -
  obtain s1 bs1 where a: "csum_align swap16 addr bs 0 = (s1, bs1)" by (metis surj_pair)
  have z1: "s1 = 0" "\<forall>b \<in> set bs1. b = 0"
  proof -
    have "bs ! 0 = 0 \<and> bs ! 1 = 0" if "length bs \<ge> 2"
      using that assms(1) nth_mem [of 0 bs] nth_mem [of 1 bs] by fastforce
    hence "le16 bs = 0" if "length bs \<ge> 2" using that by (simp add: le16_def)
    with a assms show "s1 = 0" "\<forall>b \<in> set bs1. b = 0"
      by (auto simp: csum_align_def dest: in_set_dropD split: if_splits)
  qed
  obtain s2 bs2 where b: "csum_words32 swap32 bs1 s1 = (s2, bs2)" by (metis surj_pair)
  have z2: "s2 = 0" "\<forall>b \<in> set bs2. b = 0" using words_of_zeros(1) [of bs1 swap32] assms(3) b z1 by auto
  obtain s3 bs3 where c: "csum_words16 swap16 bs2 s2 = (s3, bs3)" by (metis surj_pair)
  have z3: "s3 = 0" "\<forall>b \<in> set bs3. b = 0" using words_of_zeros(2) [of bs2 swap16] assms(2) c z2 by auto
  show ?thesis using z3 assms(2) by (cases bs3) (auto simp: csum_half_def a b c)
qed

lemma chunks_of_zeros: "chunks_ref cs = 0 \<Longrightarrow> csum_chunks cs 0 = 0"
proof (induction cs rule: chunks_ref.induct)
  case (2 a bs cs)
  hence z: "csum_ref bs = 0" "chunks_ref cs = 0"
    using csum_ref_nonneg [of bs] chunks_ref_nonneg [of cs] by auto
  hence "\<forall>b \<in> set bs. b = 0" by (simp add: csum_ref_zero)
  moreover have "bswap_16 0 = 0" "bswap_32 0 = 0" by code_simp+
  ultimately have "csum_partial a bs 0 = 0"
    using half_of_zeros [of bs id id] half_of_zeros [of "tl bs" bswap_16 bswap_32 "a + 1"]
    by (auto simp: csum_partial_def dest: list.set_sel(2) split: list.splits)
  with 2 z show ?case by simp
qed simp

section \<open>Storing a checksum\<close>

lemma csum_ref_pair:
  "even pos \<Longrightarrow> pos + 1 < length bs \<Longrightarrow>
     csum_ref (bs[pos := x, Suc pos := y]) = csum_ref (bs[pos := 0, Suc pos := 0]) + uint x + 256 * uint y"
proof (induction bs arbitrary: pos rule: csum_ref.induct)
  case (1 a b bs)
  show ?case
  proof (cases pos)
    case (Suc n)
    then obtain m where m: "pos = Suc (Suc m)" using "1.prems"(1) by (cases n) auto
    with 1 show ?thesis by simp
  qed simp
qed auto

lemma csum_bytes: "uint (ucast (drop_bit 8 c) :: u8) + 256 * uint (ucast c :: u8) = uint (bswap_16 c)" for c :: u16
proof -
  have "bswap_16 c = le16 [ucast (drop_bit 8 c), ucast c]"
    by (rule bit_word_eqI) (auto simp: bswap_16_def le16_def bit_simps dest: bit_imp_le_length)
  thus ?thesis by (simp only: uint_le16)
qed

text \<open>
  A chunk with the checksum field cleared, and the same chunk with the checksum of everything stored in the field: the
  checksum over the second is zero.
\<close>

lemma stored_checksum_verifies:
  assumes pos: "even pos" "pos + 1 < length bs"
    and zero: "cs0 = pre @ (a, bs[pos := 0, Suc pos := 0]) # post" "chunks_fit cs0 0"
    and csum: "c = csum_fold (csum_chunks cs0 0)"
    and full: "cs1 = pre @ (a, bs[pos := ucast (drop_bit 8 c), Suc pos := ucast c]) # post" "chunks_fit cs1 0"
  shows "csum_fold (csum_chunks cs1 0) = 0"
proof -
  obtain f where f: "0 \<le> f" "f \<le> 65535" "cong1 f (uint (csum_chunks cs0 0))" "f = 0 \<longleftrightarrow> csum_chunks cs0 0 = 0"
      "c = bswap_16 (word_of_int (65535 - f))" using csum_fold_sum [of "csum_chunks cs0 0"] csum by blast
  have w: "uint (bswap_16 c) = 65535 - f"
  proof -
    have "uint (word_of_int k :: u16) = k mod 65536" for k by (simp add: uint_word_of_int)
    moreover have "(65535 - f) mod 65536 = 65535 - f" using f(1,2) by (intro mod_pos_pos_trivial) linarith+
    ultimately show ?thesis unfolding f(5) by (simp only: bswap_16_bswap_16)
  qed
  have ref: "chunks_ref cs1 = chunks_ref cs0 + (65535 - f)"
    using csum_ref_pair [OF pos, of "ucast (drop_bit 8 c)" "ucast c"] csum_bytes [of c] w by (simp add: zero(1) full(1))
  have c0: "cong1 f (chunks_ref cs0)" using cong1_trans [OF f(3)] csum_chunks_cong(1) [OF zero(2)] by simp
  have "cong1 (uint (csum_chunks cs1 0)) (chunks_ref cs0 + (65535 - f))"
    using csum_chunks_cong(1) [OF full(2)] ref by simp
  also have "cong1 \<dots> (f + (65535 - f))" by (intro cong1_add cong1_sym [OF c0] cong1_refl)
  also have "cong1 \<dots> 0" by (simp add: cong1_def)
  finally have "cong1 (uint (csum_chunks cs1 0)) 0" .
  moreover have "csum_chunks cs1 0 \<noteq> 0"
  proof
    assume "csum_chunks cs1 0 = 0"
    hence "chunks_ref cs1 = 0" using csum_chunks_cong(2) [OF full(2)] by simp
    hence "chunks_ref cs0 = 0" "f = 65535" using ref chunks_ref_nonneg [of cs0] f(2) by auto
    thus False using chunks_of_zeros f(4) by auto
  qed
  ultimately show ?thesis by (simp add: csum_fold_zero)
qed

section \<open>What a checksum covers\<close>

fun header_chunks :: "u8 list \<Rightarrow> PacketHeader list \<Rightarrow> u16 \<Rightarrow> chunk list option" where
  "header_chunks b [] len = Some []"
| "header_chunks b (h # hs) len =
     (let hl = min (unat len) (unat (hlen h)) in
      do { bs \<leftarrow> mem_read b (unat (hstart h)) hl;
           cs \<leftarrow> header_chunks b hs (len - of_nat hl);
           Some ((unat (hstart h), bs) # cs) })"

lemma csum_headers_chunks:
  "csum_headers b hs len s = map_option (\<lambda>cs. csum_chunks cs s) (header_chunks b hs len)"
  by (induction b hs len s rule: csum_headers.induct) (auto simp: Let_def map_option_case split: option.splits Option.bind_splits)

definition pseudo_chunks :: "nat \<Rightarrow> Packet \<Rightarrow> ChecksumParameters \<Rightarrow> u8 \<Rightarrow> u16 \<Rightarrow> chunk list option" where
  "pseudo_chunks sp p cp protoid len =
     do { iph \<leftarrow> header_addr p (cp_ip_idx cp);
          if cp_ip_version cp = PROTO_ID_IPv4
          then do { adr \<leftarrow> mem_read (buf p) (iph + 12) 8;
                    Some [(iph + 12, adr), (sp, [0, protoid, ucast (drop_bit 8 len), ucast len])] }
          else do { adr \<leftarrow> mem_read (buf p) (iph + 8) 32;
                    Some [(iph + 8, adr), (sp, [0, 0, ucast (drop_bit 8 len), ucast len, 0, 0, 0, protoid])] } }"

lemma pseudo_csum_chunks:
  "pseudo_csum sp p cp protoid len = map_option (\<lambda>cs. csum_chunks cs 0) (pseudo_chunks sp p cp protoid len)"
  by (auto simp: pseudo_csum_def pseudo_chunks_def map_option_case split: option.splits Option.bind_splits)

definition checked_chunks :: "nat \<Rightarrow> Packet \<Rightarrow> ChecksumParameters \<Rightarrow> chunk list option" where
  "checked_chunks sp p cp =
     (if cp_hdr_proto cp = PROTO_ID_IPv4 then
        do { a \<leftarrow> header_addr p (cp_hdr_idx cp);
             b0 \<leftarrow> aget (buf p) a;
             bs \<leftarrow> mem_read (buf p) a (4 * unat (b0 AND 0x0f));
             Some [(a, bs)] }
      else do { len \<leftarrow> payload_length p cp;
                pre \<leftarrow> (if cp_hdr_proto cp = PROTO_ID_ICMPv4 then Some []
                        else do { i \<leftarrow> protoid_of (cp_hdr_proto cp); pseudo_chunks sp p cp i len });
                cs \<leftarrow> header_chunks (buf p) (drop (cp_hdr_idx cp) (headers p)) len;
                Some (pre @ cs) })"

definition csum_field :: "ProtocolID \<Rightarrow> nat option" where
  "csum_field proto = (if proto = PROTO_ID_IPv4 then Some 10 else if proto = PROTO_ID_ICMPv4 then Some 2 else csum_offset proto)"

definition csum_value :: "nat \<Rightarrow> Packet \<Rightarrow> ChecksumParameters \<Rightarrow> u16 option" where
  "csum_value sp p cp = map_option (\<lambda>cs. csum_fold (csum_chunks cs 0)) (checked_chunks sp p cp)"

lemma protoid_offset: "(protoid_of proto = None) = (csum_offset proto = None)"
  by (auto simp: protoid_of_def csum_offset_def)

lemma csum_value_eq:
  assumes "csum_field (cp_hdr_proto cp) = Some off"
  shows "cp_hdr_proto cp = PROTO_ID_IPv4 \<Longrightarrow> header_addr p (cp_hdr_idx cp) = Some a \<Longrightarrow> ipv4_header_csum p a = csum_value sp p cp"
    "cp_hdr_proto cp = PROTO_ID_ICMPv4 \<Longrightarrow> icmpv4_csum p cp = csum_value sp p cp"
    "cp_hdr_proto cp \<noteq> PROTO_ID_IPv4 \<Longrightarrow> cp_hdr_proto cp \<noteq> PROTO_ID_ICMPv4 \<Longrightarrow> layer4_csum sp p cp = csum_value sp p cp"
proof -
  show "ipv4_header_csum p a = csum_value sp p cp"
    if "cp_hdr_proto cp = PROTO_ID_IPv4" "header_addr p (cp_hdr_idx cp) = Some a"
    using that by (auto simp: ipv4_header_csum_def csum_value_def checked_chunks_def map_option_case split: option.splits Option.bind_splits)
  show "icmpv4_csum p cp = csum_value sp p cp" if "cp_hdr_proto cp = PROTO_ID_ICMPv4"
    using that by (auto simp: icmpv4_csum_def csum_value_def checked_chunks_def csum_headers_chunks map_option_case
        split: option.splits Option.bind_splits)
  assume n: "cp_hdr_proto cp \<noteq> PROTO_ID_IPv4" "cp_hdr_proto cp \<noteq> PROTO_ID_ICMPv4"
  with assms obtain i where i: "protoid_of (cp_hdr_proto cp) = Some i"
    using protoid_offset [of "cp_hdr_proto cp"] by (auto simp: csum_field_def)
  show "layer4_csum sp p cp = csum_value sp p cp"
    using n by (auto simp: layer4_csum_def i csum_value_def checked_chunks_def csum_headers_chunks pseudo_csum_chunks map_option_case
        split: option.splits Option.bind_splits)
qed

lemma compute_is_store:
  assumes "csum_field (cp_hdr_proto cp) = Some off" "header_addr p (cp_hdr_idx cp) = Some a"
  shows "checksum_compute sp p cp = store_csum (a + off) (\<lambda>p. csum_value sp p cp) p"
proof -
  have h: "header_addr (p\<lparr>buf := b\<rparr>) i = header_addr p i" for b i by (simp add: header_addr_def)
  show ?thesis
    using assms csum_value_eq [OF assms(1)]
    by (auto simp: checksum_compute_def csum_field_def store_csum_def h split: if_splits)
qed

lemma verify_is_value:
  assumes "csum_field (cp_hdr_proto cp) = Some off" "header_addr p (cp_hdr_idx cp) = Some a"
  shows "checksum_verify sp p cp = do { c \<leftarrow> csum_value sp p cp; Some (if c = 0 then (True, None) else (False, from_if p)) }"
  using assms csum_value_eq [OF assms(1)]
  by (auto simp: checksum_verify_def intro!: Option.bind_cong split: if_splits)

section \<open>The field and the rest of the packet\<close>

text \<open>Reading a range after a pair of bytes was written outside of it or inside of it.\<close>

lemma mem_read_pair_other:
  assumes "pos + 2 \<le> off \<or> off + n \<le> pos"
  shows "mem_read (b[pos := x, Suc pos := y]) off n = mem_read b off n"
proof -
  have "take n (drop off (b[pos := x, Suc pos := y])) = take n (drop off b)" if "off + n \<le> length b"
    using assms that by (intro nth_equalityI) (auto simp: nth_list_update)
  thus ?thesis by (simp add: mem_read_def)
qed

lemma mem_read_pair_inside:
  assumes "k + 2 \<le> n"
  shows "mem_read (b[off + k := x, Suc (off + k) := y]) off n = map_option (\<lambda>bs. bs[k := x, Suc k := y]) (mem_read b off n)"
proof -
  have "take n (drop off (b[off + k := x, Suc (off + k) := y])) = (take n (drop off b))[k := x, Suc k := y]"
    if "off + n \<le> length b"
    using assms that by (intro nth_equalityI) (auto simp: nth_list_update)
  thus ?thesis by (simp add: mem_read_def)
qed

lemma aget_pair_other: "i \<noteq> pos \<Longrightarrow> i \<noteq> pos + 1 \<Longrightarrow> aget (b[pos := x, Suc pos := y]) i = aget b i"
  by (simp add: aget_def)

lemma header_chunks_other:
  assumes "\<forall>h \<in> set hs. pos + 2 \<le> unat (hstart h) \<or> unat (hstart h) + unat (hlen h) \<le> pos"
  shows "header_chunks (b[pos := x, Suc pos := y]) hs len = header_chunks b hs len"
  using assms
proof (induction hs arbitrary: len)
  case (Cons h hs)
  have "mem_read (b[pos := x, Suc pos := y]) (unat (hstart h)) (min (unat len) (unat (hlen h)))
      = mem_read b (unat (hstart h)) (min (unat len) (unat (hlen h)))"
    using Cons.prems by (intro mem_read_pair_other) auto
  with Cons show ?case by (simp add: Let_def)
qed simp

text \<open>
  The checksum field lies inside the covered part of its header and outside of the IP header and of the headers behind
  its own.
\<close>

definition csum_layout :: "Packet \<Rightarrow> ChecksumParameters \<Rightarrow> nat \<Rightarrow> nat \<Rightarrow> bool" where
  "csum_layout p cp a off \<longleftrightarrow> csum_field (cp_hdr_proto cp) = Some off \<and> header_addr p (cp_hdr_idx cp) = Some a \<and>
     (if cp_hdr_proto cp = PROTO_ID_IPv4
      then a < length (buf p) \<and> 12 \<le> 4 * unat (buf p ! a AND 0x0f)
      else (\<exists>ip. header_addr p (cp_ip_idx cp) = Some ip \<and> (ip + 40 \<le> a + off \<or> a + off + 2 \<le> ip)) \<and>
           (\<exists>len. payload_length p cp = Some len \<and> off + 2 \<le> min (unat len) (unat (hlen (headers p ! cp_hdr_idx cp)))) \<and>
           (\<forall>h \<in> set (drop (Suc (cp_hdr_idx cp)) (headers p)).
              a + off + 2 \<le> unat (hstart h) \<or> unat (hstart h) + unat (hlen h) \<le> a + off))"

abbreviation with_field :: "Packet \<Rightarrow> nat \<Rightarrow> u8 \<Rightarrow> u8 \<Rightarrow> Packet" where
  "with_field p pos x y \<equiv> p\<lparr>buf := (buf p)[pos := x, Suc pos := y]\<rparr>"

lemma payload_length_other:
  assumes "header_addr p (cp_ip_idx cp) = Some ip" "ip + 40 \<le> pos \<or> pos + 2 \<le> ip"
  shows "payload_length (with_field p pos x y) cp = payload_length p cp"
proof -
  have "aget ((buf p)[pos := x, Suc pos := y]) (ip + k) = aget (buf p) (ip + k)" if "k < 40" for k
    using assms(2) that by (intro aget_pair_other) auto
  from this [of 0] this [of 2] this [of 3] this [of 4] this [of 5] show ?thesis
    using assms(1) by (simp add: payload_length_def header_addr_def cong: if_cong)
qed

lemma pseudo_chunks_other:
  assumes "header_addr p (cp_ip_idx cp) = Some ip" "ip + 40 \<le> pos \<or> pos + 2 \<le> ip"
  shows "pseudo_chunks sp (with_field p pos x y) cp i len = pseudo_chunks sp p cp i len"
proof -
  have "mem_read ((buf p)[pos := x, Suc pos := y]) (ip + 12) 8 = mem_read (buf p) (ip + 12) 8"
    "mem_read ((buf p)[pos := x, Suc pos := y]) (ip + 8) 32 = mem_read (buf p) (ip + 8) 32"
    using assms(2) by (intro mem_read_pair_other; auto)+
  thus ?thesis using assms(1) by (simp add: pseudo_chunks_def header_addr_def)
qed

lemma checked_chunks_field:
  assumes lay: "csum_layout p cp a off" and some: "checked_chunks sp (with_field p (a + off) u v) cp = Some cs0"
  shows "\<exists>pre bs post. off + 1 < length bs \<and>
     (\<forall>x y. checked_chunks sp (with_field p (a + off) x y) cp = Some (pre @ (a, bs[off := x, Suc off := y]) # post))"
proof (cases "cp_hdr_proto cp = PROTO_ID_IPv4")
  case True
  have off: "off = 10" and a: "header_addr p (cp_hdr_idx cp) = Some a" "a < length (buf p)"
    and ihl: "12 \<le> 4 * unat (buf p ! a AND 0x0f)" using lay True by (auto simp: csum_layout_def csum_field_def)
  have b0: "aget ((buf p)[a + off := x, Suc (a + off) := y]) a = Some (buf p ! a)" for x y
    using a(2) off by (simp add: aget_pair_other del: aget_Some) simp
  have rd: "mem_read ((buf p)[a + off := x, Suc (a + off) := y]) a (4 * unat (buf p ! a AND 0x0f))
      = map_option (\<lambda>bs. bs[off := x, Suc off := y]) (mem_read (buf p) a (4 * unat (buf p ! a AND 0x0f)))" for x y
    using mem_read_pair_inside [of off "4 * unat (buf p ! a AND 0x0f)" "buf p" a] ihl off by simp
  have ck: "checked_chunks sp (with_field p (a + off) x y) cp
      = map_option (\<lambda>bs. [(a, bs[off := x, Suc off := y])]) (mem_read (buf p) a (4 * unat (buf p ! a AND 0x0f)))" for x y
    using True a(1) b0 [of x y] rd [of x y]
    by (auto simp: checked_chunks_def header_addr_def map_option_case split: Option.bind_splits option.splits)
  obtain bs where bs: "mem_read (buf p) a (4 * unat (buf p ! a AND 0x0f)) = Some bs" using some by (auto simp: ck)
  have "off + 1 < length bs" using length_mem_read [OF bs] ihl off by simp
  with bs ck show ?thesis by (intro exI [of _ "[]"] exI [of _ bs] exI [of _ "[]"]) simp
next
  case False
  obtain ip len where ip: "header_addr p (cp_ip_idx cp) = Some ip" "ip + 40 \<le> a + off \<or> a + off + 2 \<le> ip"
    and len: "payload_length p cp = Some len" "off + 2 \<le> min (unat len) (unat (hlen (headers p ! cp_hdr_idx cp)))"
    and rest: "\<forall>h \<in> set (drop (Suc (cp_hdr_idx cp)) (headers p)).
        a + off + 2 \<le> unat (hstart h) \<or> unat (hstart h) + unat (hlen h) \<le> a + off"
    and a: "header_addr p (cp_hdr_idx cp) = Some a"
    using lay False by (auto simp: csum_layout_def)
  let ?h = "headers p ! cp_hdr_idx cp" and ?hs = "drop (Suc (cp_hdr_idx cp)) (headers p)"
  let ?hl = "min (unat len) (unat (hlen ?h))"
  have idx: "cp_hdr_idx cp < length (headers p)" "unat (hstart ?h) = a"
    using a by (auto simp: header_addr_def aget_def split: if_splits)
  have dr: "drop (cp_hdr_idx cp) (headers p) = ?h # ?hs" using idx(1) by (simp add: Cons_nth_drop_Suc)
  have hc: "header_chunks ((buf p)[a + off := x, Suc (a + off) := y]) (?h # ?hs) len =
      do { bs \<leftarrow> mem_read (buf p) a ?hl; cs \<leftarrow> header_chunks (buf p) ?hs (len - of_nat ?hl);
           Some ((a, bs[off := x, Suc off := y]) # cs) }" for x y
    using mem_read_pair_inside [of off ?hl "buf p" a x y] len(2) idx(2) header_chunks_other [OF rest]
    by (simp add: Let_def map_option_case split: option.splits)
  define prem where "prem = (if cp_hdr_proto cp = PROTO_ID_ICMPv4 then Some []
      else do { i \<leftarrow> protoid_of (cp_hdr_proto cp); pseudo_chunks sp p cp i len })"
  have ck: "checked_chunks sp (with_field p (a + off) x y) cp =
      do { pre \<leftarrow> prem; bs \<leftarrow> mem_read (buf p) a ?hl; cs \<leftarrow> header_chunks (buf p) ?hs (len - of_nat ?hl);
           Some (pre @ (a, bs[off := x, Suc off := y]) # cs) }" for x y
    using False payload_length_other [OF ip] pseudo_chunks_other [OF ip] len(1) hc
    by (simp add: checked_chunks_def dr prem_def del: header_chunks.simps) 
  obtain pre bs post where "prem = Some pre" "mem_read (buf p) a ?hl = Some bs"
      "header_chunks (buf p) ?hs (len - of_nat ?hl) = Some post"
    using some unfolding ck by (auto split: Option.bind_splits)
  moreover from this have "off + 1 < length bs" using length_mem_read [of "buf p" a ?hl bs] len(2) by simp
  ultimately show ?thesis by (auto simp: ck)
qed

section \<open>Computed checksums verify\<close>

text \<open>No addition of the checksum over a packet loses a carry.\<close>

definition csum_fits :: "nat \<Rightarrow> Packet \<Rightarrow> ChecksumParameters \<Rightarrow> bool" where
  "csum_fits sp p cp = (case checked_chunks sp p cp of None \<Rightarrow> False | Some cs \<Rightarrow> chunks_fit cs 0)"

lemma csum_field_even: "csum_field proto = Some off \<Longrightarrow> even off"
  by (auto simp: csum_field_def csum_offset_def split: if_splits)


definition ip_packet :: Packet where
  "ip_packet = (zeroed_packet None 0)\<lparr>buf := replicate 14 0 @ ip_sample,
     headers := [\<lparr>htype = PROTO_ID_ETH, hstart = 0, hlen = 14\<rparr>, \<lparr>htype = PROTO_ID_IPv4, hstart = 14, hlen = 20\<rparr>]\<rparr>"

definition ip_params :: ChecksumParameters where
  "ip_params = \<lparr>cp_hdr_idx = 1, cp_hdr_proto = PROTO_ID_IPv4, cp_ip_idx = 1, cp_ip_version = PROTO_ID_IPv4\<rparr>"


text \<open>
  Headers between the IP header and the checksummed one are skipped with the wrong length: the length of the checksummed header
  is subtracted for each of them.  Here 4 bytes lie between, the payload has 12, and 4 instead of 8 are covered.
\<close>

lemma payload_length_wrong_header:
  "payload_length ((zeroed_packet None 0)\<lparr>buf := [0x60, 0, 0, 0, 0, 12] @ replicate 46 0,
     headers := [\<lparr>htype = PROTO_ID_IPv6, hstart = 0, hlen = 40\<rparr>, \<lparr>htype = PROTO_ID_MPLS, hstart = 40, hlen = 4\<rparr>,
                 \<lparr>htype = PROTO_ID_ICMPv6, hstart = 44, hlen = 8\<rparr>]\<rparr>)
     \<lparr>cp_hdr_idx = 2, cp_hdr_proto = PROTO_ID_ICMPv6, cp_ip_idx = 0, cp_ip_version = PROTO_ID_IPv6\<rparr> = Some 4"
  by code_simp

end
