(* ===== verification/Message_Queue.thy ===== *)
theory Message_Queue
  imports Prelude
begin

text \<open>
  The message queue between threads (\<^verbatim>\<open>src/thread_utils.c\<close>): a linked list under a lock and a semaphore that counts
  its items.

  The operations are atomic, as the lock makes them.  The answers of the semaphore calls are arguments, because they depend
  on time and on signals; a wait can succeed only when the count is positive, and a blocking wait on an empty queue does
  not return (\<open>None\<close>).
\<close>

section \<open>Operations\<close>

record 'm MessageQueue =
  mq_queue :: "'m list"
  mq_semaphore :: nat

datatype sem_result = SEM_OK | SEM_TIMEDOUT | SEM_INTR | SEM_ERROR

definition new_messagequeue :: "'m MessageQueue" where
  "new_messagequeue = \<lparr>mq_queue = [], mq_semaphore = 0\<rparr>"

definition tq_push :: "'m list \<Rightarrow> 'm \<Rightarrow> 'm list" where
  "tq_push q m = q @ [m]"

definition tq_pop :: "'m list \<Rightarrow> 'm option \<times> 'm list" where
  "tq_pop q = (case q of [] \<Rightarrow> (None, []) | m # ms \<Rightarrow> (Some m, ms))"

definition tq_pop_data :: "'m MessageQueue \<Rightarrow> 'm option \<times> 'm MessageQueue" where
  "tq_pop_data q = (let (m, ms) = tq_pop (mq_queue q) in (m, q\<lparr>mq_queue := ms\<rparr>))"

definition messagequeue_push :: "'m MessageQueue \<Rightarrow> 'm \<Rightarrow> 'm MessageQueue" where
  "messagequeue_push q m = q\<lparr>mq_semaphore := mq_semaphore q + 1, mq_queue := tq_push (mq_queue q) m\<rparr>"

text \<open>Taking the semaphore: the answer \<open>SEM_OK\<close> decrements it.\<close>

definition sem_take :: "'m MessageQueue \<Rightarrow> 'm MessageQueue option" where
  "sem_take q = (if mq_semaphore q = 0 then None else Some (q\<lparr>mq_semaphore := mq_semaphore q - 1\<rparr>))"

definition messagequeue_pop :: "'m MessageQueue \<Rightarrow> int \<Rightarrow> sem_result \<Rightarrow> sem_result \<Rightarrow> ('m option \<times> 'm MessageQueue) option" where
  "messagequeue_pop q usec r1 r2 =
     (if usec = 0 then (case sem_take q of Some q' \<Rightarrow> Some (tq_pop_data q') | None \<Rightarrow> Some (None, q))
      else if usec > 0 then
        (case r1 of SEM_OK \<Rightarrow> map_option tq_pop_data (sem_take q)
         | SEM_INTR \<Rightarrow> (case r2 of SEM_OK \<Rightarrow> map_option tq_pop_data (sem_take q) | _ \<Rightarrow> Some (None, q))
         | _ \<Rightarrow> Some (None, q))
      else map_option tq_pop_data (sem_take q))"

fun messagequeue_foreach :: "('m \<Rightarrow> 's \<Rightarrow> bool \<times> 's) \<Rightarrow> 'm list \<Rightarrow> 's \<Rightarrow> bool \<times> 's" where
  "messagequeue_foreach cb [] s = (True, s)"
| "messagequeue_foreach cb (m # ms) s = (let (go, s') = cb m s in if go then messagequeue_foreach cb ms s' else (False, s'))"

section \<open>First in, first out\<close>

definition mq_ok :: "'m MessageQueue \<Rightarrow> bool" where
  "mq_ok q \<longleftrightarrow> mq_semaphore q = length (mq_queue q)"

lemma mq_ok_new: "mq_ok new_messagequeue"
  by (simp add: mq_ok_def new_messagequeue_def)

lemma mq_push: "mq_ok q \<Longrightarrow> mq_ok (messagequeue_push q m) \<and> mq_queue (messagequeue_push q m) = mq_queue q @ [m]"
  by (simp add: mq_ok_def messagequeue_push_def tq_push_def)

lemma sem_take_pop:
  assumes "mq_ok q" "sem_take q = Some q'"
  shows "\<exists>m. fst (tq_pop_data q') = Some m \<and> mq_queue q = m # mq_queue (snd (tq_pop_data q')) \<and> mq_ok (snd (tq_pop_data q'))"
  using assms by (cases "mq_queue q") (auto simp: mq_ok_def sem_take_def tq_pop_data_def tq_pop_def split: if_splits)

text \<open>A pop either leaves the queue alone or returns its first message.\<close>

lemma mq_pop:
  assumes ok: "mq_ok q" and pop: "messagequeue_pop q usec r1 r2 = Some (mo, q')"
  shows "mq_ok q' \<and> mq_queue q = (case mo of None \<Rightarrow> [] | Some m \<Rightarrow> [m]) @ mq_queue q'"
proof -
  have "mo = None \<and> q' = q \<or> (\<exists>q1. sem_take q = Some q1 \<and> tq_pop_data q1 = (mo, q'))"
    using pop by (auto simp: messagequeue_pop_def split: if_splits option.splits sem_result.splits)
  thus ?thesis using ok sem_take_pop [OF ok] by fastforce
qed

datatype 'm mq_op = MqPush 'm | MqPop int sem_result sem_result

text \<open>A history of pushes and pops: the messages delivered and the queue.\<close>

fun mq_run :: "'m mq_op list \<Rightarrow> 'm MessageQueue \<Rightarrow> ('m list \<times> 'm MessageQueue) option" where
  "mq_run [] q = Some ([], q)"
| "mq_run (MqPush m # ops) q = mq_run ops (messagequeue_push q m)"
| "mq_run (MqPop usec r1 r2 # ops) q =
     do { (mo, q1) \<leftarrow> messagequeue_pop q usec r1 r2;
          (ms, q2) \<leftarrow> mq_run ops q1;
          Some ((case mo of None \<Rightarrow> [] | Some m \<Rightarrow> [m]) @ ms, q2) }"

fun mq_pushed :: "'m mq_op list \<Rightarrow> 'm list" where
  "mq_pushed [] = []"
| "mq_pushed (MqPush m # ops) = m # mq_pushed ops"
| "mq_pushed (MqPop _ _ _ # ops) = mq_pushed ops"

lemma mq_run_fifo:
  "mq_ok q \<Longrightarrow> mq_run ops q = Some (out, q') \<Longrightarrow> mq_ok q' \<and> mq_queue q @ mq_pushed ops = out @ mq_queue q'"
proof (induction ops q arbitrary: out q' rule: mq_run.induct)
  case (2 m ops q)
  from 2(1) [of out q'] 2(2,3) mq_push [of q m] show ?case by simp
next
  case (3 usec r1 r2 ops q)
  obtain mo q1 ms where r: "messagequeue_pop q usec r1 r2 = Some (mo, q1)" "mq_run ops q1 = Some (ms, q')"
      "out = (case mo of None \<Rightarrow> [] | Some m \<Rightarrow> [m]) @ ms"
    using 3(3) by (auto split: Option.bind_splits)
  with mq_pop [OF 3(2) r(1)] 3(1) [OF r(1) refl _ r(2)] show ?case by simp
qed auto



end
