(* ===== verification/Delay.thy ===== *)
theory Delay
  imports Ordered_Queue Time_Utils Message_Queue
begin

text \<open>
  The delay queue (\<^verbatim>\<open>src/delay.c\<close>): packets wait until a configured time has passed since the time stamp of their entry
  into the network.

  The pipeline iterator of a packet is a parameter of the type, and the fields that are read through it (the name of the pipeline,
  the time stamp and the delay of the packet) come with it in the message.  One round of the thread's loop is one step; the answer of
  the mailbox and the clock readings are its inputs.  The statistics are a map from pipeline names, as the hash map is, and an element
  refers to its entry by the name.  Functions that return \<^verbatim>\<open>int\<close> truncate the 64-bit difference to 32 bits.  \<open>None\<close> is an
  undefined access.
\<close>

section \<open>Data\<close>

record DelayStat =
  delayed_packets :: u64
  delay_exceeded_packets :: u64

record 'pi DelayQueue =
  dq_pi :: 'pi
  dq_deadline :: timespec
  dq_stat :: string

definition IDLE_TIMEOUT_US :: int where "IDLE_TIMEOUT_US = 60 * 1000 * 1000"
definition ALERT_COOLDOWN :: int where "ALERT_COOLDOWN = 5000000"

text \<open>An iterator in the mailbox with its pipeline name, time stamp and delay, or the flush signal.\<close>

datatype 'pi delay_msg = DelayMsg 'pi string u32 timespec | FLUSH_SIGNAL

type_synonym delay_stats = "string \<rightharpoonup> DelayStat"

definition to_int :: "int \<Rightarrow> int" where
  "to_int x = sint (word_of_int x :: u32)"

section \<open>Operations on the queue\<close>

definition queue_deadline :: "'pi DelayQueue list \<Rightarrow> timespec \<Rightarrow> int option" where
  "queue_deadline q now = (case q of [] \<Rightarrow> None | e # _ \<Rightarrow> Some (to_int (time_diff_us (dq_deadline e) now)))"

text \<open>The walk stops in front of the first element that the new deadline does not exceed.\<close>

fun delay_place :: "'pi DelayQueue \<Rightarrow> 'pi DelayQueue list \<Rightarrow> 'pi DelayQueue list" where
  "delay_place n [] = [n]"
| "delay_place n (iter # q) =
     (if timespeccmp (dq_deadline n) (dq_deadline iter) (>) then iter # delay_place n q else n # iter # q)"

definition bump_exceeded :: "string \<Rightarrow> delay_stats \<Rightarrow> delay_stats" where
  "bump_exceeded name st = (case st name of None \<Rightarrow> st
     | Some s \<Rightarrow> st(name \<mapsto> s\<lparr>delay_exceeded_packets := delay_exceeded_packets s + 1\<rparr>))"

definition bump_delayed :: "string \<Rightarrow> delay_stats \<Rightarrow> delay_stats" where
  "bump_delayed name st = (case st name of None \<Rightarrow> st
     | Some s \<Rightarrow> st(name \<mapsto> s\<lparr>delayed_packets := delayed_packets s + 1\<rparr>))"

definition queue_push :: "'pi DelayQueue list \<Rightarrow> delay_stats \<Rightarrow> 'pi \<Rightarrow> string \<Rightarrow> u32 \<Rightarrow> timespec \<Rightarrow> timespec
    \<Rightarrow> int \<times> 'pi DelayQueue list \<times> delay_stats" where
  "queue_push q stats pi name tstamp dly now =
     (let packet_enter = timespec_from_tsntstamp tstamp now;
          n = \<lparr>dq_pi = pi, dq_deadline = timespecadd packet_enter dly, dq_stat = name\<rparr>;
          stats = (if stats name = None then stats(name \<mapsto> \<lparr>delayed_packets = 0, delay_exceeded_packets = 0\<rparr>) else stats);
          q = delay_place n q;
          timeout = time_diff_us (dq_deadline (hd q)) now;
          stats = (if timeout \<le> 0 then bump_exceeded (dq_stat (hd q)) stats else stats)
      in (to_int timeout, q, stats))"

text \<open>The iterator of the first element is resumed: it is the output.\<close>

definition queue_send_first :: "'pi DelayQueue list \<Rightarrow> delay_stats \<Rightarrow> 'pi option \<times> 'pi DelayQueue list \<times> delay_stats" where
  "queue_send_first q stats = (case q of [] \<Rightarrow> (None, [], stats)
     | f # q' \<Rightarrow> (Some (dq_pi f), q', bump_delayed (dq_stat f) stats))"

fun queue_flush :: "'pi DelayQueue list \<Rightarrow> delay_stats \<Rightarrow> 'pi list \<times> delay_stats" where
  "queue_flush [] stats = ([], stats)"
| "queue_flush (f # q) stats = (let (out, st) = queue_flush q (bump_delayed (dq_stat f) stats) in (dq_pi f # out, st))"

section \<open>The thread\<close>

record 'pi delay_state =
  dl_queue :: "'pi DelayQueue list"
  dl_timeout :: int
  dl_last_alert :: timespec
  dl_stats :: delay_stats
  dl_active :: bool

definition delay_start :: "delay_stats \<Rightarrow> 'pi delay_state" where
  "delay_start stats = \<lparr>dl_queue = [], dl_timeout = IDLE_TIMEOUT_US, dl_last_alert = Timespec 0 0, dl_stats = stats, dl_active = True\<rparr>"

text \<open>What happens in a round, beside the change of the state.\<close>

record 'pi delay_out =
  sent :: "'pi list"
  alert :: "string option"
  running :: bool

text \<open>Inserting a message and the alert for a missed deadline.\<close>

definition delay_accept :: "'pi \<Rightarrow> string \<Rightarrow> u32 \<Rightarrow> timespec \<Rightarrow> timespec \<Rightarrow> timespec \<Rightarrow> 'pi delay_state \<Rightarrow> 'pi delay_out \<times> 'pi delay_state" where
  "delay_accept pi name tstamp dly now now2 st =
     (let (timeout, q, stats) = queue_push (dl_queue st) (dl_stats st) pi name tstamp dly now;
          st = st\<lparr>dl_queue := q, dl_stats := stats, dl_timeout := timeout\<rparr>
      in if timeout \<le> 0 \<and> time_diff_us now2 (dl_last_alert st) > ALERT_COOLDOWN
         then (\<lparr>sent = [], alert = Some (dq_stat (hd q)), running = True\<rparr>, st\<lparr>dl_last_alert := now2\<rparr>)
         else (\<lparr>sent = [], alert = None, running = True\<rparr>, st))"

text \<open>
  The inputs of a round: the answer of the mailbox, ignored when the thread is late, the answer of the second look into the mailbox
  before an idle thread stops, and the clock readings.
\<close>

definition delay_round :: "'pi delay_msg option \<Rightarrow> 'pi delay_msg option \<Rightarrow> timespec \<Rightarrow> timespec \<Rightarrow> 'pi delay_state
    \<Rightarrow> ('pi delay_out \<times> 'pi delay_state) option" where
  "delay_round msg late now now2 st =
     (case (if dl_timeout st > 0 then msg else None) of
        Some FLUSH_SIGNAL \<Rightarrow>
          (let (out, stats) = queue_flush (dl_queue st) (dl_stats st)
           in Some (\<lparr>sent = out, alert = None, running = False\<rparr>, st\<lparr>dl_queue := [], dl_stats := stats\<rparr>))
      | Some (DelayMsg pi name tstamp dly) \<Rightarrow> Some (delay_accept pi name tstamp dly now now2 st)
      | None \<Rightarrow>
          (case queue_send_first (dl_queue st) (dl_stats st) of
             (Some pi, q, stats) \<Rightarrow>
               (let st = st\<lparr>dl_queue := q, dl_stats := stats,
                            dl_timeout := (case queue_deadline q now of None \<Rightarrow> IDLE_TIMEOUT_US | Some t \<Rightarrow> t)\<rparr>
                in Some (\<lparr>sent = [pi], alert = None, running = True\<rparr>, st))
           | (None, _, _) \<Rightarrow>
               (if dl_active st then
                  (let st = st\<lparr>dl_active := False\<rparr> in
                   case late of
                     None \<Rightarrow> Some (\<lparr>sent = [], alert = None, running = False\<rparr>, st)
                   | Some (DelayMsg pi name tstamp dly) \<Rightarrow> Some (delay_accept pi name tstamp dly now now2 st)
                   | Some FLUSH_SIGNAL \<Rightarrow> None)
                else Some (\<lparr>sent = [], alert = None, running = False\<rparr>, st))))"

section \<open>The queue is ordered by deadline\<close>

lemma timespec_gt: "timespeccmp t u (>) \<longleftrightarrow> u < t"
  by (auto simp: less_timespec_def timespeccmp_def)

lemma delay_place_set: "set (delay_place n q) = insert n (set q)"
  by (induction q) auto

interpretation delayq: ordered_queue dq_deadline delay_place
proof
  fix e :: "'pi DelayQueue" and q
  show "mset (delay_place e q) = add_mset e (mset q)" by (induction q) auto
  show "sorted (map dq_deadline (delay_place e q))" if "sorted (map dq_deadline q)"
    using that by (induction q) (auto simp: delay_place_set timespec_gt not_less)
qed

text \<open>The invariant of the loop: the queue is sorted and every element has its statistics entry.\<close>

definition delay_inv :: "'pi delay_state \<Rightarrow> bool" where
  "delay_inv st \<longleftrightarrow> sorted (map dq_deadline (dl_queue st)) \<and> (\<forall>e \<in> set (dl_queue st). dl_stats st (dq_stat e) \<noteq> None)"

lemma delay_inv_start: "delay_inv (delay_start stats)"
  by (simp add: delay_inv_def delay_start_def)

lemma bump_dom: "bump_delayed n st k = None \<longleftrightarrow> st k = None" "bump_exceeded n st k = None \<longleftrightarrow> st k = None"
  by (auto simp: bump_delayed_def bump_exceeded_def split: option.splits)

lemma delay_accept_result:
  assumes "delay_inv st" "delay_accept pi name ts dly now now2 st = (out, st')"
  shows "delay_inv st'" "sent out = []"
    "mset (map dq_pi (dl_queue st')) = add_mset pi (mset (map dq_pi (dl_queue st)))"
    "dl_queue st' \<noteq> []" "dl_timeout st' = to_int (time_diff_us (dq_deadline (hd (dl_queue st'))) now)"
proof -
  define n where "n = \<lparr>dq_pi = pi, dq_deadline = timespecadd (timespec_from_tsntstamp ts now) dly, dq_stat = name\<rparr>"
  obtain stats where st': "dl_queue st' = delay_place n (dl_queue st)" "dl_stats st' = stats"
      "dl_timeout st' = to_int (time_diff_us (dq_deadline (hd (delay_place n (dl_queue st)))) now)"
      and st: "stats k = None \<longleftrightarrow> dl_stats st k = None \<and> k \<noteq> name" for k
    using assms(2) by (fastforce simp: delay_accept_def queue_push_def Let_def n_def bump_dom split: if_splits)
  show "delay_inv st'"
    using assms(1) delayq.ins_sorted st st' by (auto simp: delay_inv_def delay_place_set n_def)
  show "sent out = []" using assms(2) by (auto simp: delay_accept_def Let_def split: if_splits prod.splits)
  show "mset (map dq_pi (dl_queue st')) = add_mset pi (mset (map dq_pi (dl_queue st)))"
    by (simp add: st'(1) delayq.ins_mset) (simp add: n_def)
  show "dl_queue st' \<noteq> []" by (simp add: st'(1) delayq.ins_not_empty)
  show "dl_timeout st' = to_int (time_diff_us (dq_deadline (hd (dl_queue st'))) now)" by (simp add: st')
qed

section \<open>Rounds and runs\<close>

text \<open>The iterator that a round takes from the mailbox.\<close>

definition accepted :: "'pi delay_msg option \<Rightarrow> 'pi delay_msg option \<Rightarrow> 'pi delay_state \<Rightarrow> 'pi list" where
  "accepted msg late st =
     (let m = (if dl_timeout st > 0 then msg else None);
          m = (if m = None \<and> dl_queue st = [] \<and> dl_active st then late else m)
      in case m of Some (DelayMsg pi _ _ _) \<Rightarrow> [pi] | _ \<Rightarrow> [])"

lemma queue_flush_sent: "fst (queue_flush q stats) = map dq_pi q"
  by (induction q stats rule: queue_flush.induct) (auto split: prod.splits)

lemma delay_round_result:
  assumes inv: "delay_inv st" and r: "delay_round msg late now now2 st = Some (out, st')"
  shows "delay_inv st'"
    "mset (sent out) + mset (map dq_pi (dl_queue st')) = mset (accepted msg late st) + mset (map dq_pi (dl_queue st))"
    "running out \<Longrightarrow> dl_queue st' \<noteq> [] \<Longrightarrow> dl_timeout st' = to_int (time_diff_us (dq_deadline (hd (dl_queue st'))) now)"
proof -
  let ?m = "if dl_timeout st > 0 then msg else None"
  have "delay_inv st' \<and> mset (sent out) + mset (map dq_pi (dl_queue st')) = mset (accepted msg late st) + mset (map dq_pi (dl_queue st))
     \<and> (running out \<longrightarrow> dl_queue st' \<noteq> [] \<longrightarrow> dl_timeout st' = to_int (time_diff_us (dq_deadline (hd (dl_queue st'))) now))"
  proof (cases ?m)
    case None
    show ?thesis
    proof (cases "dl_queue st")
      case Nil
      show ?thesis
      proof (cases "dl_active st \<and> late \<noteq> None")
        case True
        then obtain pi name ts dly where l: "late = Some (DelayMsg pi name ts dly)"
          using r None Nil by (cases late; cases "the late") (auto simp: delay_round_def queue_send_first_def Let_def)
        have a: "delay_accept pi name ts dly now now2 (st\<lparr>dl_active := False\<rparr>) = (out, st')"
          using r None Nil True l by (simp add: delay_round_def queue_send_first_def Let_def)
        have "delay_inv (st\<lparr>dl_active := False\<rparr>)" using inv by (simp add: delay_inv_def)
        from delay_accept_result [OF this a] Nil None True l show ?thesis by (simp add: accepted_def Let_def)
      next
        case False
        hence "out = \<lparr>sent = [], alert = None, running = False\<rparr> \<and> dl_queue st' = dl_queue st \<and> dl_stats st' = dl_stats st"
          using r None Nil by (auto simp: delay_round_def queue_send_first_def Let_def split: if_splits option.splits)
        with False Nil None inv show ?thesis by (auto simp: accepted_def Let_def delay_inv_def)
      qed
    next
      case (Cons e q)
      have o: "out = \<lparr>sent = [dq_pi e], alert = None, running = True\<rparr>" "dl_queue st' = q"
          "dl_stats st' = bump_delayed (dq_stat e) (dl_stats st)"
          "dl_timeout st' = (case queue_deadline q now of None \<Rightarrow> IDLE_TIMEOUT_US | Some t \<Rightarrow> t)"
        using r None Cons by (auto simp: delay_round_def queue_send_first_def Let_def)
      moreover have "delay_inv st'" using inv o Cons by (auto simp: delay_inv_def bump_dom)
      moreover have "accepted msg late st = []" using None Cons by (simp add: accepted_def Let_def)
      ultimately show ?thesis using Cons by (cases q) (auto simp: queue_deadline_def)
    qed
  next
    case (Some m)
    show ?thesis
    proof (cases m)
      case (DelayMsg pi name ts dly)
      have "delay_accept pi name ts dly now now2 st = (out, st')"
        using r Some DelayMsg by (simp add: delay_round_def)
      from delay_accept_result [OF inv this] Some DelayMsg show ?thesis by (simp add: accepted_def Let_def)
    next
      case FLUSH_SIGNAL
      hence "sent out = map dq_pi (dl_queue st)" "dl_queue st' = []"
        using r Some queue_flush_sent [of "dl_queue st" "dl_stats st"] by (auto simp: delay_round_def split: prod.splits)
      with Some FLUSH_SIGNAL show ?thesis by (simp add: accepted_def Let_def delay_inv_def)
    qed
  qed
  thus "delay_inv st'"
    "mset (sent out) + mset (map dq_pi (dl_queue st')) = mset (accepted msg late st) + mset (map dq_pi (dl_queue st))"
    "running out \<Longrightarrow> dl_queue st' \<noteq> [] \<Longrightarrow> dl_timeout st' = to_int (time_diff_us (dq_deadline (hd (dl_queue st'))) now)"
    by blast+
qed

record 'pi delay_in =
  in_msg :: "'pi delay_msg option"
  in_late :: "'pi delay_msg option"
  in_now :: timespec
  in_now2 :: timespec

text \<open>The thread until it stops or the inputs end: what it took from the mailbox, what it sent, and its state.\<close>

fun delay_run :: "'pi delay_in list \<Rightarrow> 'pi delay_state \<Rightarrow> ('pi list \<times> 'pi list \<times> 'pi delay_state) option" where
  "delay_run [] st = Some ([], [], st)"
| "delay_run (i # is) st =
     do { (out, st1) \<leftarrow> delay_round (in_msg i) (in_late i) (in_now i) (in_now2 i) st;
          let acc = accepted (in_msg i) (in_late i) st;
          if running out
          then do { (acc', out', st2) \<leftarrow> delay_run is st1; Some (acc @ acc', sent out @ out', st2) }
          else Some (acc, sent out, st1) }"

lemma delay_run_conserves:
  "delay_inv st \<Longrightarrow> delay_run is st = Some (acc, out, st') \<Longrightarrow>
     delay_inv st' \<and> mset acc + mset (map dq_pi (dl_queue st)) = mset out + mset (map dq_pi (dl_queue st'))"
proof (induction "is" st arbitrary: acc out st' rule: delay_run.induct)
  case (2 i "is" st)
  obtain o1 st1 where r: "delay_round (in_msg i) (in_late i) (in_now i) (in_now2 i) st = Some (o1, st1)"
    using 2(3) by (auto split: Option.bind_splits)
  note res = delay_round_result [OF 2(2) r]
  show ?case
  proof (cases "running o1")
    case True
    then obtain acc' out' where t: "delay_run is st1 = Some (acc', out', st')" "acc = accepted (in_msg i) (in_late i) st @ acc'"
        "out = sent o1 @ out'"
      using 2(3) r by (auto split: Option.bind_splits)
    have ih: "delay_inv st'" "mset acc' + mset (map dq_pi (dl_queue st1)) = mset out' + mset (map dq_pi (dl_queue st'))"
      using 2(1) [OF r refl refl True res(1) t(1)] by auto
    have "mset acc + mset (map dq_pi (dl_queue st))
        = (mset (accepted (in_msg i) (in_late i) st) + mset (map dq_pi (dl_queue st))) + mset acc'"
      by (simp add: t(2) ac_simps)
    also have "\<dots> = (mset (sent o1) + mset (map dq_pi (dl_queue st1))) + mset acc'" by (simp only: res(2))
    also have "\<dots> = mset (sent o1) + (mset acc' + mset (map dq_pi (dl_queue st1)))" by (simp add: ac_simps)
    also have "\<dots> = mset out + mset (map dq_pi (dl_queue st'))" by (simp only: ih(2) t(3) mset_append add.assoc)
    finally show ?thesis using ih(1) by blast
  next
    case False
    with 2(3) r res show ?thesis by simp
  qed
qed simp

lemma delay_run_total:
  assumes "\<forall>i \<in> set is. in_late i \<noteq> Some FLUSH_SIGNAL"
  shows "\<exists>r. delay_run is st = Some r"
  using assms
proof (induction "is" arbitrary: st)
  case (Cons i "is")
  have "\<exists>r. delay_round (in_msg i) (in_late i) (in_now i) (in_now2 i) st = Some r"
    using Cons.prems by (auto simp: delay_round_def Let_def split: option.splits delay_msg.splits prod.splits)
  then obtain o1 st1 where "delay_round (in_msg i) (in_late i) (in_now i) (in_now2 i) st = Some (o1, st1)" by auto
  moreover obtain r where "delay_run is st1 = Some r" using Cons by fastforce
  ultimately show ?case by (cases "running o1"; cases r) (auto simp: Let_def)
qed simp


definition sample_in :: "string delay_msg option \<Rightarrow> int \<Rightarrow> string delay_in" where
  "sample_in m ns = \<lparr>in_msg = m, in_late = None, in_now = Timespec 10 ns, in_now2 = Timespec 10 ns\<rparr>"

definition sample_msg :: "string \<Rightarrow> int \<Rightarrow> int \<Rightarrow> string delay_msg" where
  "sample_msg pi ns dly = DelayMsg pi ''pipe'' (timespec_to_tsntstamp (Timespec 10 ns)) (Timespec 0 dly)"


section \<open>No packet leaves early\<close>

lemma to_int_id: "- 2147483648 \<le> x \<Longrightarrow> x < 2147483648 \<Longrightarrow> to_int x = x"
  by (simp add: to_int_def sint_sbintrunc' signed_take_bit_int_eq_self)

text \<open>
  C11: The delay is kept: let the thread compute its timeout in a round at time \<open>now\<close>, and let the mailbox return nothing before that
  timeout has passed at time \<open>now'\<close>.  Then the thread sends the packet with the least deadline of the queue, and less than a microsecond of
  its delay is missing.
\<close>

theorem delay_not_early:
  assumes inv: "delay_inv st0" and round: "delay_round msg late now now2 st0 = Some (out, st)" "running out"
    and queue: "dl_queue st = e # q"
    and range: "\<bar>time_diff_us (dq_deadline e) now\<bar> < 2147483648"
    and wait: "ns_of now \<le> ns_of now'" "dl_timeout st \<le> 0 \<or> ns_of now + 1000 * dl_timeout st \<le> ns_of now'"
  shows "\<exists>out' st'. delay_round None late' now' now2' st = Some (out', st') \<and> sent out' = [dq_pi e]
     \<and> (\<forall>x \<in> set q. dq_deadline e \<le> dq_deadline x) \<and> ns_of (dq_deadline e) < ns_of now' + 1000"
proof -
  note res = delay_round_result [OF inv round(1)]
  have t: "dl_timeout st = time_diff_us (dq_deadline e) now"
    using res(3) [OF round(2)] queue range by (simp add: to_int_id)
  have "ns_of (dq_deadline e) - ns_of now < 1000 * dl_timeout st + 1000"
    using time_diff_us_bounds [of "dq_deadline e" now] t by (simp add: abs_less_iff)
  hence "ns_of (dq_deadline e) < ns_of now' + 1000" using wait by linarith
  moreover have "\<forall>x \<in> set q. dq_deadline e \<le> dq_deadline x" using res(1) queue by (simp add: delay_inv_def)
  ultimately show ?thesis by (simp add: delay_round_def queue queue_send_first_def Let_def)
qed

theorem delay_not_early_witness:
  "\<exists>out st. delay_round (Some (sample_msg ''p'' 0 9000000)) None (Timespec 10 1000) (Timespec 10 1000) (delay_start (\<lambda>_. None)) = Some (out, st)
     \<and> (\<exists>out' st'. delay_round None None (Timespec 10 9000000) (Timespec 10 9000000) st = Some (out', st') \<and> sent out' = [''p''])"
proof -
  let ?r = "delay_round (Some (sample_msg ''p'' 0 9000000)) None (Timespec 10 1000) (Timespec 10 1000) (delay_start (\<lambda>_. None))"
  have d: "timespecadd (timespec_from_tsntstamp (timespec_to_tsntstamp (Timespec 10 0)) (Timespec 10 1000)) (Timespec 0 9000000) = Timespec 10 9000000"
    by code_simp
  have i: "time_diff_us (Timespec 10 9000000) (Timespec 10 1000) = 8999" "to_int 8999 = 8999" by code_simp+
  obtain out st where r: "?r = Some (out, st)" "running out" "dl_timeout st = 8999"
      "dl_queue st = [\<lparr>dq_pi = ''p'', dq_deadline = Timespec 10 9000000, dq_stat = ''pipe''\<rparr>]"
    by (simp add: delay_round_def delay_start_def sample_msg_def IDLE_TIMEOUT_US_def delay_accept_def queue_push_def Let_def d i)
  from delay_not_early [OF delay_inv_start r(1,2,4), of "Timespec 10 9000000" None "Timespec 10 9000000"] r i
  show ?thesis by (auto simp: ns_of_def)
qed

text \<open>The bound on the time difference is needed: a delay of an hour overflows the \<^verbatim>\<open>int\<close> and the packet is due at once.\<close>

lemma long_delay_ignored:
  "to_int (time_diff_us (timespecadd (Timespec 10 0) (Timespec 3600 0)) (Timespec 10 0)) < 0"
  by code_simp

text \<open>
  The flush signal in the window between an idle thread giving up its mailbox and its last look into it is taken for an iterator.
\<close>

lemma late_flush_crashes:
  "dl_queue st = [] \<Longrightarrow> dl_active st \<Longrightarrow> delay_round None (Some FLUSH_SIGNAL) now now2 st = None"
  by (simp add: delay_round_def queue_send_first_def)

end
