(* ===== verification/Action.thy ===== *)
theory Action
  imports Header Checksum Delay Seq_Recov Seq_Gen Pof
begin

text \<open>
  The actions of a pipeline (\<^verbatim>\<open>src/action.c\<close>), as far as they work on one packet: what each action reads and writes in the
  packet and the result it returns.  Actions that use a pipeline object, another pipeline, an interface or a maintenance point
  are completed in the theory of pipelines.

  A protocol stack is the array of protocols of a stream including its terminator \<open>PROTO_ID_PAYLOAD\<close>, which is zero in C.
  \<open>None\<close> is an access outside of the packet's buffer or of its headers.
\<close>

section \<open>Types of actions\<close>

datatype ActionType = ACTION_ADD | ACTION_CHECKSUM | ACTION_DEL | ACTION_DELAY | ACTION_DROP | ACTION_EDIT | ACTION_ELIM
  | ACTION_FILTEROAM | ACTION_OAMINJECT | ACTION_OAMRECEIVE | ACTION_POF | ACTION_READSEQ | ACTION_READTSTAMP | ACTION_REPL
  | ACTION_SEND | ACTION_SEQGEN | ACTION_SETLENGTH | ACTION_TTLCHECK | ACTION_TTLREDUCE | ACTION_VERIFY | ACTION_WRITESEQ
  | ACTION_WRITETSTAMP

fun action_name_from_type :: "ActionType \<Rightarrow> string" where
  "action_name_from_type ACTION_ADD = ''Add''"
| "action_name_from_type ACTION_CHECKSUM = ''Checksum''"
| "action_name_from_type ACTION_DEL = ''Del''"
| "action_name_from_type ACTION_DELAY = ''Delay''"
| "action_name_from_type ACTION_DROP = ''Drop''"
| "action_name_from_type ACTION_EDIT = ''Edit''"
| "action_name_from_type ACTION_ELIM = ''Eliminate''"
| "action_name_from_type ACTION_FILTEROAM = ''FilterOAM''"
| "action_name_from_type ACTION_OAMINJECT = ''OAMInject''"
| "action_name_from_type ACTION_OAMRECEIVE = ''OAMReceive''"
| "action_name_from_type ACTION_POF = ''POF''"
| "action_name_from_type ACTION_READSEQ = ''ReadSeq''"
| "action_name_from_type ACTION_READTSTAMP = ''ReadTstamp''"
| "action_name_from_type ACTION_REPL = ''Replicate''"
| "action_name_from_type ACTION_SEND = ''Send''"
| "action_name_from_type ACTION_SEQGEN = ''SeqGen''"
| "action_name_from_type ACTION_SETLENGTH = ''Setlength''"
| "action_name_from_type ACTION_TTLCHECK = ''TTLCheck''"
| "action_name_from_type ACTION_TTLREDUCE = ''TTLReduce''"
| "action_name_from_type ACTION_VERIFY = ''Verify''"
| "action_name_from_type ACTION_WRITESEQ = ''WriteSeq''"
| "action_name_from_type ACTION_WRITETSTAMP = ''WriteTstamp''"

section \<open>Detecting OAM packets\<close>

record StackInfo =
  rtag_index :: nat
  last_index :: nat
  ethertype_offset :: nat

text \<open>A loop over the stack from index \<open>i\<close> on that ends at the terminator.\<close>

fun stack_loop :: "(ProtocolID \<Rightarrow> bool) \<Rightarrow> nat \<Rightarrow> ProtocolID list \<Rightarrow> nat option" where
  "stack_loop P i [] = None"
| "stack_loop P i (x # xs) = (if x = PROTO_ID_PAYLOAD then None else if P x then Some i else stack_loop P (i + 1) xs)"

definition analyze_protostack :: "ProtocolID list \<Rightarrow> StackInfo option" where
  "analyze_protostack stack =
     (let none = \<lparr>rtag_index = 0, last_index = 0, ethertype_offset = 0\<rparr> in
      do { first \<leftarrow> aget stack 0;
           if first \<noteq> PROTO_ID_ETH then Some none
           else case stack_loop (\<lambda>x. x = PROTO_ID_RTAG) 1 (tl stack) of
             Some i \<Rightarrow> Some (none\<lparr>rtag_index := i\<rparr>)
           | None \<Rightarrow> (case stack_loop (\<lambda>x. x = PROTO_ID_PAYLOAD) 1 (tl stack) of
               None \<Rightarrow> Some none
             | Some i \<Rightarrow> do { ethertype \<leftarrow> protocol_get_field_by_type (stack ! (i - 1)) PFTYPE_NEXTHEADER;
                            Some (none\<lparr>last_index := i - 1, ethertype_offset := bitoffset ethertype div 8\<rparr>) }) })"

definition hdr_byte :: "Packet \<Rightarrow> nat \<Rightarrow> nat \<Rightarrow> u8 option" where
  "hdr_byte p i k = do { a \<leftarrow> header_addr p i; aget (buf p) (a + k) }"

definition packet_is_oam :: "Packet \<Rightarrow> ProtocolID list option \<Rightarrow> StackInfo \<Rightarrow> bool option" where
  "packet_is_oam p protostack si = (case protostack of
       None \<Rightarrow> Some False
     | Some stack \<Rightarrow> do {
         first \<leftarrow> aget stack 0;
         if first = PROTO_ID_ETH then
            (if rtag_index si \<noteq> 0 then
               do { x \<leftarrow> hdr_byte p (rtag_index si) 0; Some (x AND 0xf0 = 0x10) }
             else do { x \<leftarrow> hdr_byte p (last_index si) (ethertype_offset si);
                       y \<leftarrow> hdr_byte p (last_index si) (ethertype_offset si + 1);
                       Some (x = ucast (drop_bit 8 ETH_P_CFM) \<and> y = ucast ETH_P_CFM) })
         else if first = PROTO_ID_MPLS then
            do { x \<leftarrow> hdr_byte p 1 0; Some (x AND 0xf0 = 0x10) }
         else if first = PROTO_ID_IPv6 then
            do { x \<leftarrow> hdr_byte p 0 36; Some (x AND 1 = 1) }
         else Some False })"

section \<open>Actions on headers\<close>

record AddData =
  add_idx :: u32
  add_type :: ProtocolID
  add_len :: u32

definition action_ADD_execute :: "AddData \<Rightarrow> Packet \<Rightarrow> ActionResult \<times> Packet" where
  "action_ADD_execute ad p = (ACR_CONTINUE, snd (packet_add_header p (add_idx ad) (add_type ad) (add_len ad)))"

definition action_CHECKSUM_execute :: "nat \<Rightarrow> ChecksumParameters \<Rightarrow> Packet \<Rightarrow> (ActionResult \<times> Packet) option" where
  "action_CHECKSUM_execute sp cp p = do { p' \<leftarrow> checksum_compute sp p cp; Some (ACR_CONTINUE, p') }"

definition action_DEL_execute :: "u32 \<Rightarrow> Packet \<Rightarrow> ActionResult \<times> Packet" where
  "action_DEL_execute idx p = (ACR_CONTINUE, packet_del_header p idx)"

record DelayData =
  dd_delay :: timespec
  dd_offload :: bool

text \<open>Unless the delay is offloaded to the interface, the iterator goes to the delay queue.\<close>

definition action_DELAY_execute :: "DelayData \<Rightarrow> Packet \<Rightarrow> ActionResult \<times> Packet" where
  "action_DELAY_execute dd p =
     (let p = p\<lparr>delay := dd_delay dd\<rparr>
      in if dd_offload dd then (ACR_CONTINUE, p\<lparr>offload := True\<rparr>) else (ACR_HOLD, p))"

definition action_DROP_execute :: "Packet \<Rightarrow> ActionResult \<times> Packet" where
  "action_DROP_execute p = (ACR_DONE, p)"

record EditAssign =
  ea_write :: value_consumer
  ea_write_state :: HeaderField
  ea_read :: "(value_producer \<times> HeaderField) option"
  ea_constant :: Value

fun action_EDIT_execute :: "EditAssign list \<Rightarrow> Packet \<Rightarrow> (ActionResult \<times> Packet) option" where
  "action_EDIT_execute [] p = Some (ACR_CONTINUE, p)"
| "action_EDIT_execute (a # as) p =
     do { p' \<leftarrow> (case ea_read a of
                   Some (read, read_state) \<Rightarrow> read read_state (ea_write a) (ea_write_state a) p
                 | None \<Rightarrow> ea_write a (ea_write_state a) (ea_constant a) p);
          action_EDIT_execute as p' }"

text \<open>\<^verbatim>\<open>memcpy\<close> of the field into a 32-bit variable: only the bytes of the field are replaced.\<close>

definition field_into_u32 :: "HeaderField \<Rightarrow> Packet \<Rightarrow> u32 \<Rightarrow> u32 option" where
  "field_into_u32 f p x =
     do { a \<leftarrow> field_addr f p;
          bs \<leftarrow> mem_read (buf p) a (fbitcount f div 8);
          bs' \<leftarrow> mem_write (bytes_of_u32 x) 0 bs;
          Some (u32_of_bytes bs') }"

text \<open>The variable is not initialised before the copy: a field of less than four bytes leaves it undefined.\<close>

definition action_FILTEROAM_execute :: "HeaderField \<Rightarrow> Packet \<Rightarrow> (ActionResult \<times> Packet) option" where
  "action_FILTEROAM_execute f p =
     (if fbitcount f div 8 < 4 then None
      else do { seq \<leftarrow> field_into_u32 f p 0;
                Some (if SEQ_IS_OAM seq then ACR_DONE else ACR_CONTINUE, p) })"

definition action_OAMINJECT_execute :: "Packet \<Rightarrow> ActionResult \<times> Packet" where
  "action_OAMINJECT_execute p = (ACR_CONTINUE, p)"

text \<open>The handling of the first byte is that of SRv6, whose sequence field has 28 bits.\<close>

definition action_READSEQ_execute :: "HeaderField \<Rightarrow> Packet \<Rightarrow> (ActionResult \<times> Packet) option" where
  "action_READSEQ_execute f p =
     do { h \<leftarrow> aget (headers p) (header_idx f);
          if htype h = PROTO_ID_IPv6
          then do { a \<leftarrow> field_addr f p;
                    bs \<leftarrow> mem_read (buf p) a 4;
                    Some (ACR_CONTINUE, p\<lparr>sequence := u32_of_bytes [bs ! 0 AND 0x0f, bs ! 1, bs ! 2, bs ! 3]\<rparr>) }
          else do { s \<leftarrow> field_into_u32 f p (sequence p); Some (ACR_CONTINUE, p\<lparr>sequence := s\<rparr>) } }"

definition action_READTSTAMP_execute :: "HeaderField \<Rightarrow> Packet \<Rightarrow> (ActionResult \<times> Packet) option" where
  "action_READTSTAMP_execute f p =
     do { t \<leftarrow> field_into_u32 f p (timestamp p); Some (ACR_CONTINUE, p\<lparr>timestamp := t\<rparr>) }"

record SetlengthData =
  sl_field :: HeaderField
  sl_baselen :: u32
  sl_payload_idx :: nat

definition action_SETLENGTH_execute :: "SetlengthData \<Rightarrow> Packet \<Rightarrow> (ActionResult \<times> Packet) option" where
  "action_SETLENGTH_execute sd p =
     do { a \<leftarrow> field_addr (sl_field sd) p;
          h \<leftarrow> aget (headers p) (sl_payload_idx sd);
          let len = (ucast (sl_baselen sd + hlen h) :: u16);
          b1 \<leftarrow> aset (buf p) a (ucast (drop_bit 8 len));
          b2 \<leftarrow> aset b1 (a + 1) (ucast len);
          Some (ACR_CONTINUE, p\<lparr>buf := b2\<rparr>) }"

definition action_TTLCHECK_execute :: "Packet \<Rightarrow> ActionResult \<times> Packet" where
  "action_TTLCHECK_execute p = (if ttl p = 0 then ACR_DONE else ACR_CONTINUE, p)"

record TtlData =
  td_field :: HeaderField
  td_csum :: "HeaderField option"
  td_decrement :: u16

definition create_action_ttlreduce :: "HeaderField \<Rightarrow> HeaderField option \<Rightarrow> TtlData" where
  "create_action_ttlreduce ttlfield csumfield =
     \<lparr>td_field = ttlfield, td_csum = csumfield,
      td_decrement = (if csumfield = None then 0 else if odd (fbitoffset ttlfield div 8) then 1 else 256)\<rparr>"

definition action_TTLREDUCE_execute :: "TtlData \<Rightarrow> Packet \<Rightarrow> (ActionResult \<times> Packet) option" where
  "action_TTLREDUCE_execute td p =
     do { a \<leftarrow> field_addr (td_field td) p;
          t \<leftarrow> aget (buf p) a;
          let t' = (if t > 0 then t - 1 else t);
          b \<leftarrow> aset (buf p) a t';
          let p1 = p\<lparr>buf := b, ttl := ucast t'\<rparr>;
          case td_csum td of
            None \<Rightarrow> Some (ACR_CONTINUE, p1)
          | Some cf \<Rightarrow>
              (if header_idx cf = header_idx (td_field td)
               then do { c \<leftarrow> field_addr cf p1;
                         hi \<leftarrow> aget b c; lo \<leftarrow> aget b (c + 1);
                         let csum16 = NOT (be16 hi lo);
                         let csum16 = NOT (csum16 - td_decrement td);
                         b1 \<leftarrow> aset b c (ucast (drop_bit 8 csum16));
                         b2 \<leftarrow> aset b1 (c + 1) (ucast csum16);
                         Some (ACR_CONTINUE, p1\<lparr>buf := b2\<rparr>) }
               else Some (ACR_CONTINUE, p1)) }"

text \<open>The third component is the interface whose error counter is incremented.\<close>

definition action_VERIFY_execute :: "nat \<Rightarrow> ChecksumParameters \<Rightarrow> Packet \<Rightarrow> (ActionResult \<times> Packet \<times> nat option) option" where
  "action_VERIFY_execute sp cp p =
     do { (ok, err) \<leftarrow> checksum_verify sp p cp; Some (if ok then ACR_CONTINUE else ACR_DONE, p, err) }"

definition action_WRITESEQ_execute :: "HeaderField \<Rightarrow> Packet \<Rightarrow> (ActionResult \<times> Packet) option" where
  "action_WRITESEQ_execute f p =
     do { h \<leftarrow> aget (headers p) (header_idx f);
          a \<leftarrow> field_addr f p;
          let src = bytes_of_u32 (sequence p);
          if htype h = PROTO_ID_IPv6
          then do { d \<leftarrow> aget (buf p) a;
                    b \<leftarrow> mem_write (buf p) a [(d AND 0xf1) OR (src ! 0 AND 0x0f), src ! 1, src ! 2, src ! 3];
                    Some (ACR_CONTINUE, p\<lparr>buf := b\<rparr>) }
          else do { b \<leftarrow> mem_write (buf p) a src; Some (ACR_CONTINUE, p\<lparr>buf := b\<rparr>) } }"

definition action_WRITETSTAMP_execute :: "HeaderField \<Rightarrow> Packet \<Rightarrow> (ActionResult \<times> Packet) option" where
  "action_WRITETSTAMP_execute f p =
     do { a \<leftarrow> field_addr f p;
          bs \<leftarrow> mem_read (bytes_of_u32 (timestamp p)) 0 (fbitcount f div 8);
          b \<leftarrow> mem_write (buf p) a bs;
          Some (ACR_CONTINUE, p\<lparr>buf := b\<rparr>) }"

section \<open>The session of an OAM packet\<close>

text \<open>Printing an unsigned number in decimal.\<close>

definition digit_char :: "int \<Rightarrow> char" where
  "digit_char d = char_of (48 + nat d)"

function print_uint :: "int \<Rightarrow> string" where
  "print_uint n = (if n < 10 then [digit_char n] else print_uint (n div 10) @ [digit_char (n mod 10)])"
  by pat_completeness auto

termination print_uint
  by (relation "measure nat") auto

text \<open>
  What the elimination does with a packet: an OAM packet goes to the recovery of its session, an OAM packet that is not
  contiguous in memory passes, and anything else is a data packet.
\<close>

datatype elim_way = ELIM_DATA | ELIM_PASS | ELIM_OAM string u8

definition session_name :: "string \<Rightarrow> u8 \<Rightarrow> u8 \<Rightarrow> string" where
  "session_name node session level = node @ '':'' @ print_uint (uint session) @ '':'' @ print_uint (uint level)"

definition tsn_session :: "nat \<Rightarrow> Packet \<Rightarrow> elim_way option" where
  "tsn_session rtag p =
     do { a \<leftarrow> header_addr p 0; smac \<leftarrow> mem_read (buf p) (a + 6) 6;
          seq \<leftarrow> hdr_byte p rtag 1; sid \<leftarrow> hdr_byte p rtag 3; lev \<leftarrow> hdr_byte p (rtag + 1) 0;
          smac_str \<leftarrow> ether_ntop smac ETHER_ADDSTRLEN; node \<leftarrow> smac_str;
          Some (ELIM_OAM (session_name node (sid AND 0x0f) (drop_bit 5 lev)) seq) }"

definition dach_session :: "Packet \<Rightarrow> elim_way option" where
  "dach_session p =
     do { seq \<leftarrow> hdr_byte p 1 1; h4 \<leftarrow> hdr_byte p 1 4; h5 \<leftarrow> hdr_byte p 1 5; h6 \<leftarrow> hdr_byte p 1 6; h7 \<leftarrow> hdr_byte p 1 7;
          let nodeid = push_bit 12 (uint h4) + push_bit 4 (uint h5) + drop_bit 4 (uint h6);
          Some (ELIM_OAM (session_name (print_uint nodeid) (h7 AND 0xf) (drop_bit 1 h6 AND 0x7)) seq) }"

definition srv6_session :: "Packet \<Rightarrow> elim_way option" where
  "srv6_session p =
     do { h23 \<leftarrow> hdr_byte p 1 23; h22 \<leftarrow> hdr_byte p 1 22;
          let node_id = (push_bit 8 (uint h23) OR uint h22);
          let icmp6 = bytelength (protocol_from_id PROTO_ID_IPv6);
          i5 \<leftarrow> hdr_byte p 1 (icmp6 + 5); seq \<leftarrow> hdr_byte p 1 (icmp6 + 7);
          Some (ELIM_OAM (session_name (print_uint node_id) (i5 AND 0x0f) (drop_bit 4 i5 AND 0x07)) seq) }"

definition if_linear :: "Packet \<Rightarrow> elim_way option \<Rightarrow> elim_way option" where
  "if_linear p way = do { lin \<leftarrow> packet_is_linear p; if lin then way else Some ELIM_PASS }"

definition action_ELIM_way :: "ProtocolID list option \<Rightarrow> StackInfo \<Rightarrow> Packet \<Rightarrow> elim_way option" where
  "action_ELIM_way protostack si p = (case protostack of
       None \<Rightarrow> Some ELIM_DATA
     | Some stack \<Rightarrow> do {
         first \<leftarrow> aget stack 0;
         if first = PROTO_ID_ETH then
           (if rtag_index si \<noteq> 0 then
              do { x \<leftarrow> hdr_byte p (rtag_index si) 0;
                   if x AND 0xf0 = 0x10 then if_linear p (tsn_session (rtag_index si) p) else Some ELIM_DATA }
            else Some ELIM_DATA)
         else if first = PROTO_ID_MPLS then
           (if SEQ_IS_OAM (sequence p) then if_linear p (dach_session p) else Some ELIM_DATA)
         else if first = PROTO_ID_IPv6 then
           (if ntohl (sequence p) AND 0x01000000 \<noteq> 0 then if_linear p (srv6_session p) else Some ELIM_DATA)
         else Some ELIM_DATA })"

section \<open>Stacks\<close>

lemma stack_loop_payload [simp]: "stack_loop (\<lambda>x. x = PROTO_ID_PAYLOAD) i xs = None"
  by (induction xs arbitrary: i) auto

lemma stack_loop_first:
  "stack_loop P i xs = Some k \<Longrightarrow> i \<le> k \<and> k - i < length xs \<and> P (xs ! (k - i)) \<and> (\<forall>j < k - i. xs ! j \<noteq> PROTO_ID_PAYLOAD \<and> \<not> P (xs ! j))"
proof (induction xs arbitrary: i)
  case (Cons x xs)
  show ?case
  proof (cases "x = PROTO_ID_PAYLOAD \<or> P x")
    case False
    hence IH: "Suc i \<le> k \<and> k - Suc i < length xs \<and> P (xs ! (k - Suc i))
       \<and> (\<forall>j < k - Suc i. xs ! j \<noteq> PROTO_ID_PAYLOAD \<and> \<not> P (xs ! j))"
      using Cons.IH [of "Suc i"] Cons.prems by simp
    then obtain d where "k = Suc i + d" using le_Suc_ex by blast
    with IH False show ?thesis by (auto simp: less_Suc_eq_0_disj)
  qed (use Cons.prems in \<open>auto split: if_splits\<close>)
qed simp

text \<open>
  The search for the end of the stack compares with the terminator inside a loop that ends at it, so the EtherType of a stack
  without R-TAG is never found: the offset stays 0, and the packet's destination address is compared with the CFM EtherType.
\<close>

lemma ethertype_never_found:
  "analyze_protostack stack = Some si \<Longrightarrow> last_index si = 0 \<and> ethertype_offset si = 0"
  by (auto simp: analyze_protostack_def Let_def bind_eq_Some_conv split: if_splits option.splits)

section \<open>Sequence numbers in packets\<close>

lemma srv6_first_byte: "((d AND 0xf1) OR (e AND 0x0f)) AND 0x0f = (e AND 0x0f) OR (d AND 1)" for d e :: u8
proof -
  have "(d AND 0xf1) AND 0x0f = d AND 1" by (simp only: and.assoc) simp
  moreover have "(e AND 0x0f) AND 0x0f = e AND 0x0f" by simp
  ultimately show ?thesis by (simp only: bit.conj_disj_distrib2 or.commute)
qed

lemma field_bytes_32: "fbitcount f = 32 \<Longrightarrow> fbitoffset f mod 8 = 0 \<Longrightarrow> field_bytes f = 4"
  by (simp add: field_bytes_def)

text \<open>Four bytes stored at the address of a field and read back.\<close>

lemma mem_write_4:
  assumes "length bs = 4" "a + 4 \<le> length b"
  obtains b' where "mem_write b a bs = Some b'" "mem_read b' a 4 = Some bs" "length b' = length b"
    "\<And>i. i < length b \<Longrightarrow> i < a \<or> a + 4 \<le> i \<Longrightarrow> b' ! i = b ! i"
proof -
  obtain b' where b': "mem_write b a bs = Some b'" using assms by (auto simp: mem_write_def)
  have "b' ! i = b ! i" if "i < length b" "i < a \<or> a + 4 \<le> i" for i
    using nth_mem_write [OF b' that(1)] that(2) assms(1) by auto
  with that [OF b'] mem_read_write [OF b'] length_mem_write [OF b'] assms(1) show thesis by auto
qed

definition seq_packet :: "ProtocolID \<Rightarrow> Packet" where
  "seq_packet t = sample_packet\<lparr>buf := replicate 16 0, sequence := 0x0500000a,
     headers := [\<lparr>htype = PROTO_ID_MPLS, hstart = 0, hlen = 4\<rparr>, \<lparr>htype = t, hstart = 4, hlen = 4\<rparr>]\<rparr>"



section \<open>Time to live\<close>

lemma not_minus: "NOT (NOT c - d) = c + d" for c d :: u16
  by (simp add: not_eq_complement)

lemma swap_cong: "cong1 (uint (bswap_16 c)) (256 * uint c)" for c :: u16
proof -
  have high: "k div 256 < 256" if "k < 65536" for k :: int using that by presburger
  have "uint (bswap_16 c) = uint (ucast (drop_bit 8 c) :: u8) + 256 * uint (ucast c :: u8)" by (simp only: csum_bytes)
  also have "uint (ucast (drop_bit 8 c) :: u8) = uint c div 256"
    using high [of "uint c"] unsigned_less [of c, where 'a = int]
    by (simp add: unsigned_ucast_eq drop_bit_eq_div uint_div take_bit_int_eq_self_iff pos_imp_zdiv_nonneg_iff)
  also have "uint (ucast c :: u8) = uint c mod 256" by (simp add: unsigned_ucast_eq take_bit_eq_mod)
  finally have "256 * uint c - uint (bswap_16 c) = 65535 * (uint c div 256)"
    using div_mult_mod_eq [of "uint c" 256] by linarith
  thus ?thesis unfolding cong1_def by (metis dvd_triv_left mod_eq_dvd_iff)
qed

lemma csum_ref_update:
  "i < length bs \<Longrightarrow> csum_ref (bs[i := x]) = csum_ref bs + (if even i then 1 else 256) * (uint x - uint (bs ! i))"
proof (induction bs arbitrary: i rule: csum_ref.induct)
  case (1 a b bs)
  consider "i = 0" | "i = 1" | m where "i = Suc (Suc m)" by (metis One_nat_def nat.exhaust)
  thus ?case using 1 by cases auto
qed auto

lemma range_update: "take n (drop a (b[a + k := v])) = (take n (drop a b))[k := v]"
  by (simp add: drop_update_swap take_update_swap)

lemma cong1_shift: "cong1 (x - y) k \<Longrightarrow> cong1 (r - k + x - y) r"
  by (simp add: cong1_def mod_eq_dvd_iff algebra_simps)

text \<open>The fields of a TTL reduction inside a header: \<open>n\<close> bytes at address \<open>a\<close> hold the TTL at offset \<open>t\<close> and the checksum at \<open>c\<close>.\<close>

definition ttl_layout :: "Packet \<Rightarrow> HeaderField \<Rightarrow> HeaderField \<Rightarrow> nat \<Rightarrow> nat \<Rightarrow> bool" where
  "ttl_layout p tf cf a n \<longleftrightarrow> header_idx tf = header_idx cf \<and> header_addr p (header_idx tf) = Some a \<and> a + n \<le> length (buf p)
     \<and> fbitoffset tf div 8 < n \<and> fbitoffset cf div 8 + 1 < n \<and> even (fbitoffset cf div 8)
     \<and> fbitoffset tf div 8 \<noteq> fbitoffset cf div 8 \<and> fbitoffset tf div 8 \<noteq> fbitoffset cf div 8 + 1"

lemma ttlreduce_result:
  fixes tf cf :: HeaderField
  defines "t \<equiv> fbitoffset tf div 8" and "c \<equiv> fbitoffset cf div 8"
  assumes "ttl_layout p tf cf a n"
  defines "ttl0 \<equiv> buf p ! (a + t)" and "sum0 \<equiv> be16 (buf p ! (a + c)) (buf p ! (a + c + 1))"
  defines "ttl1 \<equiv> if ttl0 > 0 then ttl0 - 1 else ttl0" and "sum1 \<equiv> sum0 + (if odd t then 1 else 256)"
  shows "action_TTLREDUCE_execute (create_action_ttlreduce tf (Some cf)) p = Some (ACR_CONTINUE,
      p\<lparr>ttl := ucast ttl1, buf := (buf p)[a + t := ttl1, a + c := ucast (drop_bit 8 sum1), a + c + 1 := ucast sum1]\<rparr>)"
proof -
  have addr: "field_addr tf p = Some (a + t)" "field_addr cf (p\<lparr>buf := b, ttl := x\<rparr>) = Some (a + c)" for b x
    using assms(3) by (auto simp: ttl_layout_def header_addr_def field_addr_def t_def c_def bind_eq_Some_conv)
  have bound: "a + t < length (buf p)" "a + c + 1 < length (buf p)" and other: "a + t \<noteq> a + c" "a + t \<noteq> a + c + 1"
    using assms(3) by (auto simp: ttl_layout_def t_def c_def)
  have "header_idx cf = header_idx tf" using assms(3) by (simp add: ttl_layout_def)
  thus ?thesis using addr bound other
    by (simp add: action_TTLREDUCE_execute_def create_action_ttlreduce_def not_minus ttl0_def [symmetric] ttl1_def [symmetric]
        t_def [symmetric] sum0_def sum1_def Let_def)
qed

lemma be16_bytes: "uint hi + 256 * uint lo = uint (bswap_16 (be16 hi lo))"
proof -
  have "be16 hi lo = push_bit 8 (ucast hi) OR ucast lo"
    unfolding be16_def by (rule disjunctive_add) (auto simp: bit_simps)
  hence "ucast (drop_bit 8 (be16 hi lo)) = hi" "ucast (be16 hi lo) = lo"
    by (auto intro!: bit_word_eqI simp: bit_simps)
  thus ?thesis using csum_bytes [of "be16 hi lo"] by simp
qed

text \<open>
  C19: Reducing the TTL keeps the header checksum: on a header with the TTL and the checksum at the configured fields, with a positive TTL and
  as long as the addition to the stored checksum does not overflow, the TTL is one less in the packet and in its
  header, and the ones' complement sum of the header is what it was, so a valid header stays valid.
\<close>

theorem ttlreduce_keeps_checksum:
  fixes tf cf :: HeaderField
  assumes lay: "ttl_layout p tf cf a n" and pos: "buf p ! (a + fbitoffset tf div 8) > 0"
    and fit: "uint (be16 (buf p ! (a + fbitoffset cf div 8)) (buf p ! (a + fbitoffset cf div 8 + 1)))
           + uint (td_decrement (create_action_ttlreduce tf (Some cf))) < 65536"
  shows "\<exists>p'. action_TTLREDUCE_execute (create_action_ttlreduce tf (Some cf)) p = Some (ACR_CONTINUE, p')
     \<and> buf p' ! (a + fbitoffset tf div 8) = buf p ! (a + fbitoffset tf div 8) - 1
     \<and> ttl p' = ucast (buf p ! (a + fbitoffset tf div 8) - 1) 
     \<and> cong1 (csum_ref (take n (drop a (buf p')))) (csum_ref (take n (drop a (buf p))))"
proof -
  define t c where "t = fbitoffset tf div 8" and "c = fbitoffset cf div 8"
  define d :: u16 where "d = (if odd t then 1 else 256)"
  let ?bs = "take n (drop a (buf p))" and ?old = "be16 (buf p ! (a + c)) (buf p ! (a + c + 1))"
  let ?bs' = "?bs[t := buf p ! (a + t) - 1, c := ucast (drop_bit 8 (?old + d)), c + 1 := ucast (?old + d)]"
  have l: "t < length ?bs" "c + 1 < length ?bs" "t \<noteq> c" "t \<noteq> c + 1" "even c"
    using lay by (auto simp: ttl_layout_def t_def c_def)
  have nth: "?bs ! i = buf p ! (a + i)" if "i < length ?bs" for i using that lay by (simp add: ttl_layout_def nth_drop)
  have t1: "uint (buf p ! (a + t) - 1) = uint (buf p ! (a + t)) - 1"
    using uint_sub_lem [of 1 "buf p ! (a + t)"] pos by (simp add: t_def word_less_def)
  have sum: "uint (?old + d) = uint ?old + uint d"
    using uint_add_lem [of ?old d] fit by (simp add: d_def [symmetric] create_action_ttlreduce_def t_def [symmetric] c_def [symmetric])
  have "csum_ref ?bs' = csum_ref ?bs - (if odd t then 256 else 1)
      + (uint (ucast (drop_bit 8 (?old + d)) :: u8) + 256 * uint (ucast (?old + d) :: u8))
      - (uint (buf p ! (a + c)) + 256 * uint (buf p ! (a + c + 1)))"
    using l t1 nth [of t] nth [of c] nth [of "c + 1"] by (simp add: csum_ref_update algebra_simps)
  also have "\<dots> = csum_ref ?bs - (if odd t then 256 else 1) + uint (bswap_16 (?old + d)) - uint (bswap_16 ?old)"
    by (simp only: csum_bytes [of "?old + d"] be16_bytes [of "buf p ! (a + c)"])
  finally have ref: "csum_ref ?bs' = csum_ref ?bs - (if odd t then 256 else 1) + uint (bswap_16 (?old + d)) - uint (bswap_16 ?old)" .
  have "cong1 (uint (bswap_16 (?old + d)) - uint (bswap_16 ?old)) (256 * uint (?old + d) - 256 * uint ?old)"
    using mod_diff_cong [OF swap_cong [unfolded cong1_def] swap_cong [unfolded cong1_def]] by (simp only: cong1_def)
  moreover have "cong1 (256 * uint (?old + d) - 256 * uint ?old) (if odd t then 256 else 1)"
    unfolding sum by (simp add: cong1_def d_def)
  ultimately have "cong1 (csum_ref ?bs') (csum_ref ?bs)"
    unfolding ref by (intro cong1_shift) (rule cong1_trans)
  moreover have "take n (drop a ((buf p)[a + t := x, a + c := y, a + c + 1 := z])) = ?bs[t := x, c := y, c + 1 := z]" for x y z
    using range_update [of n a _ "c + 1" z] by (simp only: range_update add.assoc)
  moreover note ttlreduce_result [OF lay, folded t_def c_def, folded d_def]
  ultimately show ?thesis
    using pos lay l by (auto simp: t_def [symmetric] ttl_layout_def)
qed


definition ttl_packet :: "u8 list \<Rightarrow> Packet" where
  "ttl_packet b = sample_packet\<lparr>buf := b, headers := [\<lparr>htype = PROTO_ID_IPv4, hstart = 0, hlen = 20\<rparr>]\<rparr>"

theorem ttlreduce_keeps_checksum_witness:
  "\<exists>p'. action_TTLREDUCE_execute (create_action_ttlreduce (sample_field 0 64 8) (Some (sample_field 0 80 16))) (ttl_packet ip_sample)
         = Some (ACR_CONTINUE, p')
     \<and> buf p' ! 8 = 63 \<and> ttl p' = 63 \<and> cong1 (csum_ref (take 20 (buf p'))) (csum_ref (take 20 ip_sample))"
proof -
  have "ttl_layout (ttl_packet ip_sample) (sample_field 0 64 8) (sample_field 0 80 16) 0 20"
    by (simp add: ttl_layout_def ttl_packet_def sample_field_def header_addr_def ip_sample_def)
  from ttlreduce_keeps_checksum [OF this] show ?thesis
    by (simp add: ttl_packet_def sample_field_def ip_sample_def be16_def create_action_ttlreduce_def)
qed

text \<open>
  Otherwise the checksum breaks.  With a checksum from \<open>0xff00\<close> on, the subtraction borrows, which in ones' complement arithmetic is one
  more to subtract: a valid header with such a checksum has an invalid one after the reduction.
\<close>

definition borrow_header :: "u8 list" where
  "borrow_header = [0x45, 0, 0, 0x54, 0, 0, 0x40, 0, 0x40, 1, 0xff, 0x40, 10, 0, 0, 1, 0x31, 0x68, 0, 0]"

lemma ttlreduce_borrow:
  "cong1 (csum_ref borrow_header) 0
   \<and> (case action_TTLREDUCE_execute (create_action_ttlreduce (sample_field 0 64 8) (Some (sample_field 0 80 16)))
          (ttl_packet borrow_header) of
        None \<Rightarrow> False | Some (r, p') \<Rightarrow> \<not> cong1 (csum_ref (buf p')) 0)"
  by code_simp

text \<open>The same happens when the TTL is 0: it stays 0, but the checksum is updated as if it had changed.\<close>

lemma ttlreduce_expired:
  assumes "ttl_layout p tf cf a n" "buf p ! (a + fbitoffset tf div 8) = 0"
  shows "\<exists>p'. action_TTLREDUCE_execute (create_action_ttlreduce tf (Some cf)) p = Some (ACR_CONTINUE, p')
    \<and> ttl p' = 0 \<and> fst (action_TTLCHECK_execute p') = ACR_DONE"
  using ttlreduce_result [OF assms(1)] assms(2) by (simp add: action_TTLCHECK_execute_def)

end
