(* ===== verification/Pipeline.thy ===== *)
theory Pipeline
  imports Action
begin

text \<open>
  Pipelines (\<^verbatim>\<open>src/pipeline.c\<close>, \<^verbatim>\<open>src/object.c\<close>, \<^verbatim>\<open>src/replicate.c\<close>) and the actions of
  \<^verbatim>\<open>src/action.c\<close> that use an object, an interface, a maintenance point or other pipelines.

  The action array of a pipeline never changes after its creation and a Replicate action owns its member
  pipelines, so pipelines and actions are a nested datatype.  What does change lives in the \<open>world\<close>: the reference count and
  the mask of every pipeline by its identity, the pipeline objects, the counters of the interfaces, and the packet
  allocator.  What leaves the module is recorded in order in \<open>out\<close>: packets sent, iterators held by the delay
  queue, a packet ordering function or a maintenance point, and deletions.

  \<open>run_env\<close> holds what the code gets from the system, by the number of the executed action: the clock, whether
  a thread could be started, the address of a local variable (it decides the alignment of checksums) and the memory the
  allocator returns.  \<open>None\<close> is an invalid memory access, or a deletion that never returns.
\<close>

section \<open>Data\<close>

datatype BasicAction =
    ActAdd AddData
  | ActChecksum ChecksumParameters
  | ActDel u32
  | ActDelay DelayData
  | ActDrop
  | ActEdit "EditAssign list"
  | ActElim nat "ProtocolID list option" StackInfo
  | ActFilterOam HeaderField
  | ActOamInject nat
  | ActOamReceive nat "ProtocolID list" StackInfo
  | ActPof nat
  | ActReadSeq HeaderField
  | ActReadTstamp HeaderField
  | ActSend nat
  | ActSeqgen nat
  | ActSetlength SetlengthData
  | ActTtlcheck
  | ActTtlreduce TtlData
  | ActVerify ChecksumParameters
  | ActWriteSeq HeaderField
  | ActWriteTstamp HeaderField

text \<open>Replicate is the action that contains pipelines: its branches, its object, and what it needs to detect OAM packets.\<close>

datatype Action =
    Act BasicAction
  | ActRepl "Pipeline list" "nat option" "ProtocolID list option" StackInfo
and Pipeline = Pipeline (pipe_id: nat) (pipe_name: string) (pipe_actions: "Action list")

fun basic_type :: "BasicAction \<Rightarrow> ActionType" where
  "basic_type (ActAdd _) = ACTION_ADD"
| "basic_type (ActChecksum _) = ACTION_CHECKSUM"
| "basic_type (ActDel _) = ACTION_DEL"
| "basic_type (ActDelay _) = ACTION_DELAY"
| "basic_type ActDrop = ACTION_DROP"
| "basic_type (ActEdit _) = ACTION_EDIT"
| "basic_type (ActElim _ _ _) = ACTION_ELIM"
| "basic_type (ActFilterOam _) = ACTION_FILTEROAM"
| "basic_type (ActOamInject _) = ACTION_OAMINJECT"
| "basic_type (ActOamReceive _ _ _) = ACTION_OAMRECEIVE"
| "basic_type (ActPof _) = ACTION_POF"
| "basic_type (ActReadSeq _) = ACTION_READSEQ"
| "basic_type (ActReadTstamp _) = ACTION_READTSTAMP"
| "basic_type (ActSend _) = ACTION_SEND"
| "basic_type (ActSeqgen _) = ACTION_SEQGEN"
| "basic_type (ActSetlength _) = ACTION_SETLENGTH"
| "basic_type ActTtlcheck = ACTION_TTLCHECK"
| "basic_type (ActTtlreduce _) = ACTION_TTLREDUCE"
| "basic_type (ActVerify _) = ACTION_VERIFY"
| "basic_type (ActWriteSeq _) = ACTION_WRITESEQ"
| "basic_type (ActWriteTstamp _) = ACTION_WRITETSTAMP"

fun action_type :: "Action \<Rightarrow> ActionType" where
  "action_type (Act a) = basic_type a"
| "action_type (ActRepl _ _ _ _) = ACTION_REPL"

record PipelineIterator =
  it_packet :: Packet
  it_pipe :: Pipeline
  it_pos :: nat

record Replicate =
  rep_pipes :: "Pipeline list"
  rep_packets_passed :: u64
  rep_octets_passed :: u64

datatype PipelineObject =
    PIPEOBJ_SEQGEN SequenceGenerator
  | PIPEOBJ_SEQREC SequenceRecovery oam_recoveries
  | PIPEOBJ_POF "PipelineIterator Pof"
  | PIPEOBJ_REPL Replicate

datatype PipelineObjectType = OBJ_SEQGEN | OBJ_SEQREC | OBJ_POF | OBJ_REPL

fun object_type :: "PipelineObject \<Rightarrow> PipelineObjectType" where
  "object_type (PIPEOBJ_SEQGEN _) = OBJ_SEQGEN"
| "object_type (PIPEOBJ_SEQREC _ _) = OBJ_SEQREC"
| "object_type (PIPEOBJ_POF _) = OBJ_POF"
| "object_type (PIPEOBJ_REPL _) = OBJ_REPL"

fun pipelineobject_name_from_type :: "PipelineObjectType \<Rightarrow> string" where
  "pipelineobject_name_from_type OBJ_SEQGEN = ''SeqGen''"
| "pipelineobject_name_from_type OBJ_SEQREC = ''SeqRcvy''"
| "pipelineobject_name_from_type OBJ_POF = ''Pof''"
| "pipelineobject_name_from_type OBJ_REPL = ''Replicate''"

datatype holder = DELAY_QUEUE | POF_QUEUE nat | OAM_MP nat

datatype event =
    EvSend nat Packet
  | EvHold holder PipelineIterator
  | EvOamCount nat u32
  | EvPipeDeleted nat
  | EvObjDeleted nat
  | EvMpUnref nat
  | EvIfaceDeleted nat
  | EvMask nat bool

record world =
  psys :: packet_sys
  pipe_refs :: "nat \<Rightarrow> int"
  pipe_mask :: "nat \<Rightarrow> bool"
  objects :: "nat \<Rightarrow> PipelineObject option"
  obj_refs :: "nat \<Rightarrow> int"
  iface_refs :: "nat \<Rightarrow> int"
  sender_count :: "nat \<Rightarrow> int"
  checksum_errors :: "nat \<Rightarrow> u64"
  step_no :: nat
  out :: "event list"

record run_env =
  now_at :: "nat \<Rightarrow> timespec"
  launched_at :: "nat \<Rightarrow> bool"
  stack_at :: "nat \<Rightarrow> nat"
  mem_at :: "nat \<Rightarrow> u8 list"
  packet_trace :: bool

definition emit :: "event \<Rightarrow> world \<Rightarrow> world" where
  "emit e w = w\<lparr>out := out w @ [e]\<rparr>"

definition with_psys :: "packet_sys \<Rightarrow> world \<Rightarrow> world" where
  "with_psys s w = w\<lparr>psys := s\<rparr>"

section \<open>References\<close>

definition pipeline_ref :: "nat \<Rightarrow> world \<Rightarrow> world" where
  "pipeline_ref i w = w\<lparr>pipe_refs := (pipe_refs w)(i := pipe_refs w i + 1)\<rparr>"

definition pipeline_object_ref :: "nat \<Rightarrow> world \<Rightarrow> world" where
  "pipeline_object_ref i w = w\<lparr>obj_refs := (obj_refs w)(i := obj_refs w i + 1)\<rparr>"

text \<open>Deleting an ordering function waits for its worker.\<close>

definition pipeline_object_unref :: "nat \<Rightarrow> world \<Rightarrow> world option" where
  "pipeline_object_unref i w =
     do { obj \<leftarrow> objects w i;
          let w1 = w\<lparr>obj_refs := (obj_refs w)(i := obj_refs w i - 1)\<rparr>;
          if obj_refs w1 i = 0
          then do { _ \<leftarrow> (case obj of PIPEOBJ_POF pof \<Rightarrow> map_option (\<lambda>_. ()) (delete_pof pof) | _ \<Rightarrow> Some ());
                    Some (emit (EvObjDeleted i) (w1\<lparr>objects := (objects w)(i := None)\<rparr>)) }
          else Some w1 }"

definition iface_add_sender :: "nat \<Rightarrow> world \<Rightarrow> world" where
  "iface_add_sender i w = w\<lparr>sender_count := (sender_count w)(i := sender_count w i + 1)\<rparr>"

definition iface_del_sender :: "nat \<Rightarrow> world \<Rightarrow> world" where
  "iface_del_sender i w =
     (let w1 = w\<lparr>sender_count := (sender_count w)(i := sender_count w i - 1)\<rparr> in
      if sender_count w1 i = 0
      then (if iface_refs w1 i > 0 then w1 else emit (EvIfaceDeleted i) w1)
      else w1)"

fun pipeline_ref_send_interfaces :: "Pipeline \<Rightarrow> world \<Rightarrow> world"
  and ref_send_actions :: "Action list \<Rightarrow> world \<Rightarrow> world"
  and ref_send_list :: "Pipeline list \<Rightarrow> world \<Rightarrow> world" where
  "pipeline_ref_send_interfaces (Pipeline i name acts) w = ref_send_actions acts w"
| "ref_send_actions [] w = w"
| "ref_send_actions (Act (ActSend i) # as) w = ref_send_actions as (iface_add_sender i w)"
| "ref_send_actions (ActRepl pipes ro st si # as) w = ref_send_actions as (ref_send_list pipes w)"
| "ref_send_actions (_ # as) w = ref_send_actions as w"
| "ref_send_list [] w = w"
| "ref_send_list (p # ps) w = ref_send_list ps (pipeline_ref_send_interfaces p w)"

fun unref_send_interfaces :: "Action list \<Rightarrow> world \<Rightarrow> world" where
  "unref_send_interfaces [] w = w"
| "unref_send_interfaces (Act (ActSend i) # as) w = unref_send_interfaces as (iface_del_sender i w)"
| "unref_send_interfaces (_ # as) w = unref_send_interfaces as w"

text \<open>The last reference deletes the pipeline and with it the actions, which give up what they refer to.\<close>

fun delete_basic :: "BasicAction \<Rightarrow> world \<Rightarrow> world option" where
  "delete_basic (ActElim obj st si) w = pipeline_object_unref obj w"
| "delete_basic (ActPof obj) w = pipeline_object_unref obj w"
| "delete_basic (ActSeqgen obj) w = pipeline_object_unref obj w"
| "delete_basic (ActOamInject mp) w = Some (emit (EvMpUnref mp) w)"
| "delete_basic (ActOamReceive mp st si) w = Some (emit (EvMpUnref mp) w)"
| "delete_basic _ w = Some w"

fun pipeline_unref :: "Pipeline \<Rightarrow> world \<Rightarrow> world option"
  and delete_actions :: "Action list \<Rightarrow> world \<Rightarrow> world option"
  and delete_action :: "Action \<Rightarrow> world \<Rightarrow> world option"
  and unref_pipes :: "Pipeline list \<Rightarrow> world \<Rightarrow> world option" where
  "pipeline_unref (Pipeline i name acts) w =
     (let w1 = w\<lparr>pipe_refs := (pipe_refs w)(i := pipe_refs w i - 1)\<rparr> in
      if pipe_refs w1 i = 0
      then delete_actions acts (unref_send_interfaces acts (emit (EvPipeDeleted i) w1))
      else Some w1)"
| "delete_actions [] w = Some w"
| "delete_actions (a # as) w = do { w1 \<leftarrow> delete_action a w; delete_actions as w1 }"
| "delete_action (ActRepl pipes replobj st si) w =
     do { w1 \<leftarrow> unref_pipes pipes w;
          case replobj of None \<Rightarrow> Some w1 | Some obj \<Rightarrow> pipeline_object_unref obj w1 }"
| "delete_action (Act a) w = delete_basic a w"
| "unref_pipes [] w = Some w"
| "unref_pipes (p # ps) w = do { w1 \<leftarrow> pipeline_unref p w; unref_pipes ps w1 }"

definition delete_iterator :: "Pipeline \<Rightarrow> Packet option \<Rightarrow> world \<Rightarrow> world option" where
  "delete_iterator pipe po w = do { w1 \<leftarrow> pipeline_unref pipe w; Some (with_psys (delete_packet po (psys w1)) w1) }"

definition pipe_set_mask :: "Pipeline \<Rightarrow> bool \<Rightarrow> world \<Rightarrow> bool \<times> world" where
  "pipe_set_mask pipe new_mask w =
     (if pipe_mask w (pipe_id pipe) \<noteq> new_mask
      then (True, emit (EvMask (pipe_id pipe) new_mask) (w\<lparr>pipe_mask := (pipe_mask w)(pipe_id pipe := new_mask)\<rparr>))
      else (False, w))"

section \<open>Objects\<close>

definition new_replicate :: Replicate where
  "new_replicate = \<lparr>rep_pipes = [], rep_packets_passed = 0, rep_octets_passed = 0\<rparr>"

definition store_replication_pipelines :: "Replicate \<Rightarrow> Pipeline list \<Rightarrow> Replicate" where
  "store_replication_pipelines r pipes = r\<lparr>rep_pipes := pipes\<rparr>"

definition replicate_packet_passed :: "Replicate \<Rightarrow> Packet \<Rightarrow> ActionResult \<times> Replicate" where
  "replicate_packet_passed r p =
     (ACR_CONTINUE, r\<lparr>rep_packets_passed := rep_packets_passed r + 1,
                      rep_octets_passed := rep_octets_passed r + ucast (packet_length p)\<rparr>)"

definition set_object :: "nat \<Rightarrow> PipelineObject \<Rightarrow> world \<Rightarrow> world" where
  "set_object i obj w = w\<lparr>objects := (objects w)(i := Some obj)\<rparr>"

text \<open>The method \<open>process_packet\<close> of an object; an object that was deleted is gone.\<close>

definition process_packet :: "run_env \<Rightarrow> nat \<Rightarrow> PipelineIterator \<Rightarrow> world \<Rightarrow> (ActionResult \<times> Packet \<times> world) option" where
  "process_packet env i pi w =
     do { obj \<leftarrow> objects w i;
          let p = it_packet pi;
          case obj of
            PIPEOBJ_SEQGEN gen \<Rightarrow>
              (let (r, gen', p') = seq_generator gen p in Some (r, p', set_object i (PIPEOBJ_SEQGEN gen') w))
          | PIPEOBJ_SEQREC rec recs \<Rightarrow>
              do { (r, rec') \<leftarrow> seq_recovery rec p; Some (r, p, set_object i (PIPEOBJ_SEQREC rec' recs) w) }
          | PIPEOBJ_POF pof \<Rightarrow>
              (let (r, pof') = pof_insert pof pi (sequence p) (now_at env (step_no w));
                   w' = set_object i (PIPEOBJ_POF pof') w
               in Some (r, p, if r = ACR_HOLD then emit (EvHold (POF_QUEUE i) pi) w' else w'))
          | PIPEOBJ_REPL rep \<Rightarrow>
              (let (r, rep') = replicate_packet_passed rep p in Some (r, p, set_object i (PIPEOBJ_REPL rep') w)) }"

section \<open>Executing actions\<close>

definition action_ELIM_execute ::
  "run_env \<Rightarrow> nat \<Rightarrow> ProtocolID list option \<Rightarrow> StackInfo \<Rightarrow> PipelineIterator \<Rightarrow> world \<Rightarrow> (ActionResult \<times> Packet \<times> world) option" where
  "action_ELIM_execute env i protostack si pi w =
     do { way \<leftarrow> action_ELIM_way protostack si (it_packet pi);
          case way of
            ELIM_PASS \<Rightarrow> Some (ACR_CONTINUE, it_packet pi, w)
          | ELIM_OAM session seq \<Rightarrow>
              do { obj \<leftarrow> objects w i;
                   case obj of
                     PIPEOBJ_SEQREC rec recs \<Rightarrow>
                       (let (r, recs') = oam_recovery (launched_at env (step_no w)) recs session seq
                        in Some (r, it_packet pi, set_object i (PIPEOBJ_SEQREC rec recs') w))
                   | _ \<Rightarrow> None }
          | ELIM_DATA \<Rightarrow> process_packet env i pi w }"

definition action_OAMRECEIVE_execute ::
  "nat \<Rightarrow> ProtocolID list \<Rightarrow> StackInfo \<Rightarrow> PipelineIterator \<Rightarrow> world \<Rightarrow> (ActionResult \<times> Packet \<times> world) option" where
  "action_OAMRECEIVE_execute mp protostack si pi w =
     do { is_oam \<leftarrow> packet_is_oam (it_packet pi) (Some protostack) si;
          Some (if is_oam then (ACR_HOLD, it_packet pi, emit (EvHold (OAM_MP mp) pi) w)
                else (ACR_CONTINUE, it_packet pi, emit (EvOamCount mp (packet_length (it_packet pi))) w)) }"

definition count_error :: "nat option \<Rightarrow> world \<Rightarrow> world" where
  "count_error err w = (case err of None \<Rightarrow> w
     | Some i \<Rightarrow> w\<lparr>checksum_errors := (checksum_errors w)(i := checksum_errors w i + 1)\<rparr>)"

definition keep_world :: "world \<Rightarrow> ActionResult \<times> Packet \<Rightarrow> ActionResult \<times> Packet \<times> world" where
  "keep_world w rp = (fst rp, snd rp, w)"

text \<open>Every action but Replicate.\<close>

fun execute :: "run_env \<Rightarrow> BasicAction \<Rightarrow> PipelineIterator \<Rightarrow> world \<Rightarrow> (ActionResult \<times> Packet \<times> world) option" where
  "execute env (ActAdd ad) pi w = Some (keep_world w (action_ADD_execute ad (it_packet pi)))"
| "execute env (ActChecksum cp) pi w =
     map_option (keep_world w) (action_CHECKSUM_execute (stack_at env (step_no w)) cp (it_packet pi))"
| "execute env (ActDel idx) pi w = Some (keep_world w (action_DEL_execute idx (it_packet pi)))"
| "execute env (ActDelay dd) pi w =
     (let (r, p) = action_DELAY_execute dd (it_packet pi)
      in Some (r, p, if r = ACR_HOLD then emit (EvHold DELAY_QUEUE (pi\<lparr>it_packet := p\<rparr>)) w else w))"
| "execute env ActDrop pi w = Some (keep_world w (action_DROP_execute (it_packet pi)))"
| "execute env (ActEdit as) pi w = map_option (keep_world w) (action_EDIT_execute as (it_packet pi))"
| "execute env (ActElim i st si) pi w = action_ELIM_execute env i st si pi w"
| "execute env (ActFilterOam f) pi w = map_option (keep_world w) (action_FILTEROAM_execute f (it_packet pi))"
| "execute env (ActOamInject mp) pi w = Some (keep_world w (action_OAMINJECT_execute (it_packet pi)))"
| "execute env (ActOamReceive mp st si) pi w = action_OAMRECEIVE_execute mp st si pi w"
| "execute env (ActPof i) pi w = process_packet env i pi w"
| "execute env (ActReadSeq f) pi w = map_option (keep_world w) (action_READSEQ_execute f (it_packet pi))"
| "execute env (ActReadTstamp f) pi w = map_option (keep_world w) (action_READTSTAMP_execute f (it_packet pi))"
| "execute env (ActSend i) pi w = Some (ACR_CONTINUE, it_packet pi, emit (EvSend i (it_packet pi)) w)"
| "execute env (ActSeqgen i) pi w = process_packet env i pi w"
| "execute env (ActSetlength sd) pi w = map_option (keep_world w) (action_SETLENGTH_execute sd (it_packet pi))"
| "execute env ActTtlcheck pi w = Some (keep_world w (action_TTLCHECK_execute (it_packet pi)))"
| "execute env (ActTtlreduce td) pi w = map_option (keep_world w) (action_TTLREDUCE_execute td (it_packet pi))"
| "execute env (ActVerify cp) pi w =
     do { (r, p, err) \<leftarrow> action_VERIFY_execute (stack_at env (step_no w)) cp (it_packet pi); Some (r, p, count_error err w) }"
| "execute env (ActWriteSeq f) pi w = map_option (keep_world w) (action_WRITESEQ_execute f (it_packet pi))"
| "execute env (ActWriteTstamp f) pi w = map_option (keep_world w) (action_WRITETSTAMP_execute f (it_packet pi))"

definition log_action :: "run_env \<Rightarrow> Action \<Rightarrow> Packet \<Rightarrow> Packet option" where
  "log_action env a p =
     (if packet_trace env then packet_logcat p (action_name_from_type (action_type a) @ '' '') else Some p)"

definition next_step :: "world \<Rightarrow> world" where
  "next_step w = w\<lparr>step_no := step_no w + 1\<rparr>"

text \<open>
  \<open>run_actions env pipe pos acts p w\<close> is \<open>pipe_iterator_run\<close> of an iterator of \<open>pipe\<close> with the packet \<open>p\<close> at position \<open>pos\<close>, where
  \<open>acts\<close> are the actions from there on; \<open>run_branches\<close> is the loop of the Replicate action, which hands the packet to the last branch
  and copies to the others.
\<close>

fun run_actions :: "run_env \<Rightarrow> Pipeline \<Rightarrow> nat \<Rightarrow> Action list \<Rightarrow> Packet \<Rightarrow> world \<Rightarrow> world option"
  and run_branches :: "run_env \<Rightarrow> Pipeline list \<Rightarrow> ProtocolID list option \<Rightarrow> StackInfo \<Rightarrow> Packet \<Rightarrow> bool option \<Rightarrow> world \<Rightarrow> world option"
  and run_pipe :: "run_env \<Rightarrow> Pipeline \<Rightarrow> Packet \<Rightarrow> world \<Rightarrow> world option" where
  "run_actions env pipe pos [] p w = delete_iterator pipe (Some p) w"
| "run_actions env pipe pos (a # as) p w =
     do { p1 \<leftarrow> log_action env a p;
          let pi = \<lparr>it_packet = p1, it_pipe = pipe, it_pos = pos\<rparr>;
          case a of
            ActRepl pipes replobj st si \<Rightarrow>
              do { w1 \<leftarrow> (case replobj of None \<Rightarrow> Some w
                           | Some i \<Rightarrow> map_option (\<lambda>(r, p, w). w) (process_packet env i pi w));
                   w2 \<leftarrow> run_branches env pipes st si p1 None (next_step w1);
                   delete_iterator pipe None w2 }
          | Act b \<Rightarrow>
              do { (r, p2, w1) \<leftarrow> execute env b pi w;
                   (case r of ACR_CONTINUE \<Rightarrow> run_actions env pipe (pos + 1) as p2 (next_step w1)
                    | ACR_DONE \<Rightarrow> delete_iterator pipe (Some p2) (next_step w1)
                    | ACR_HOLD \<Rightarrow> Some (next_step w1)) } }"
| "run_branches env [] st si p is_oam w = Some w"
| "run_branches env (b # bs) st si p is_oam w =
     do { oam \<leftarrow> (if pipe_mask w (pipe_id b)
                 then (case is_oam of None \<Rightarrow> map_option Some (packet_is_oam p st si) | Some x \<Rightarrow> Some (Some x))
                 else Some is_oam);
          if pipe_mask w (pipe_id b) \<and> oam = Some False
          then (if bs = [] then Some (with_psys (delete_packet (Some p) (psys w)) w)
                else run_branches env bs st si p oam w)
          else if bs = [] then run_pipe env b p w
          else do { (q, s) \<leftarrow> copy_packet (mem_at env (step_no w)) p (psys w);
                    w1 \<leftarrow> run_pipe env b q (with_psys s w);
                    run_branches env bs st si p oam w1 } }"
| "run_pipe env (Pipeline i name acts) p w =
     (if acts = [] then Some w else run_actions env (Pipeline i name acts) 0 acts p (pipeline_ref i w))"

definition pipeline_process :: "run_env \<Rightarrow> Pipeline \<Rightarrow> nat \<Rightarrow> Packet \<Rightarrow> world \<Rightarrow> (bool \<times> world) option" where
  "pipeline_process env pipe index p w =
     (if index \<ge> length (pipe_actions pipe) then Some (False, w)
      else map_option (Pair True)
             (run_actions env pipe index (drop index (pipe_actions pipe)) p (pipeline_ref (pipe_id pipe) w)))"

definition new_pipe_iterator :: "Pipeline \<Rightarrow> Packet \<Rightarrow> world \<Rightarrow> PipelineIterator \<times> world" where
  "new_pipe_iterator pipe p w = (\<lparr>it_packet = p, it_pipe = pipe, it_pos = 0\<rparr>, pipeline_ref (pipe_id pipe) w)"

definition pipe_iterator_run :: "run_env \<Rightarrow> PipelineIterator \<Rightarrow> world \<Rightarrow> world option" where
  "pipe_iterator_run env pi w =
     run_actions env (it_pipe pi) (it_pos pi) (drop (it_pos pi) (pipe_actions (it_pipe pi))) (it_packet pi) w"

definition pipe_iterator_resume :: "run_env \<Rightarrow> PipelineIterator \<Rightarrow> world \<Rightarrow> world option" where
  "pipe_iterator_resume env pi w = pipe_iterator_run env (pi\<lparr>it_pos := it_pos pi + 1\<rparr>) w"

definition pipe_iterator_cancel :: "PipelineIterator \<Rightarrow> world \<Rightarrow> world option" where
  "pipe_iterator_cancel pi w = delete_iterator (it_pipe pi) (Some (it_packet pi)) w"

lemma run_pipe_process: "run_pipe env b p w = map_option snd (pipeline_process env b 0 p w)"
  by (cases b) (simp add: pipeline_process_def option.map_comp comp_def option.map_ident)

end
