(* ===== verification/Pipeline_Balance.thy ===== *)
theory Pipeline_Balance
  imports Pipeline
begin

text \<open>
  Ownership in pipelines: a run of an iterator gives up the packet and the reference to its pipeline that the
  iterator owned, or passes them on to whoever holds the iterator; nothing is lost, and no pipeline is deleted while
  it is in use.
\<close>

section \<open>Events of a run\<close>

fun held :: "event list \<Rightarrow> PipelineIterator list" where
  "held [] = []"
| "held (EvHold h pi # es) = pi # held es"
| "held (_ # es) = held es"

fun deleted :: "event list \<Rightarrow> nat list" where
  "deleted [] = []"
| "deleted (EvPipeDeleted i # es) = i # deleted es"
| "deleted (_ # es) = deleted es"

lemma held_append [simp]: "held (es @ fs) = held es @ held fs"
  by (induction es rule: held.induct) auto

lemma deleted_append [simp]: "deleted (es @ fs) = deleted es @ deleted fs"
  by (induction es rule: deleted.induct) auto

text \<open>Packets with a buffer of their own among held iterators, and iterators of a pipeline.\<close>

definition live :: "PipelineIterator list \<Rightarrow> u32" where
  "live its = of_nat (length (filter (\<lambda>it. \<not> dummy (it_packet it)) its))"

definition holders :: "nat \<Rightarrow> PipelineIterator list \<Rightarrow> int" where
  "holders i its = int (length (filter (\<lambda>it. pipe_id (it_pipe it) = i) its))"

lemma live_simps [simp]: "live [] = 0" "live (it # its) = (if dummy (it_packet it) then 0 else 1) + live its"
  "live (xs @ ys) = live xs + live ys"
  by (simp_all add: live_def)

lemma holders_simps [simp]: "holders i [] = 0" "holders i (it # its) = (if pipe_id (it_pipe it) = i then 1 else 0) + holders i its"
  "holders i (xs @ ys) = holders i xs + holders i ys"
  by (simp_all add: holders_def)

lemma holders_nonneg [simp]: "0 \<le> holders i its"
  by (simp add: holders_def)

section \<open>Well-formed pipelines\<close>

text \<open>
  Replicate has branches and every branch has actions: a packet that reaches an empty one is owned by nobody.  The functions of an
  assignment are those that the selection of \<^verbatim>\<open>src/header.c\<close> returns.
\<close>

definition assign_wf :: "EditAssign \<Rightarrow> bool" where
  "assign_wf a \<longleftrightarrow> (ea_write a = write_bytes \<or> ea_write a = write_bits \<or> ea_write a = write_generic)
     \<and> (case ea_read a of None \<Rightarrow> True | Some (read, st) \<Rightarrow> read = read_bytes)"

fun basic_wf :: "BasicAction \<Rightarrow> bool" where
  "basic_wf (ActEdit as) = list_all assign_wf as"
| "basic_wf _ = True"

fun action_wf :: "Action \<Rightarrow> bool" and pipe_wf :: "Pipeline \<Rightarrow> bool" where
  "action_wf (Act a) = basic_wf a"
| "action_wf (ActRepl pipes ro st si) = (pipes \<noteq> [] \<and> list_all pipe_wf pipes)"
| "pipe_wf (Pipeline i name acts) = (acts \<noteq> [] \<and> list_all action_wf acts)"

text \<open>The pipelines inside an action and inside a pipeline, itself included.\<close>

fun action_ids :: "Action \<Rightarrow> nat set" and pipe_ids :: "Pipeline \<Rightarrow> nat set" where
  "action_ids (Act a) = {}"
| "action_ids (ActRepl pipes ro st si) = \<Union> (set (map pipe_ids pipes))"
| "pipe_ids (Pipeline i name acts) = insert i (\<Union> (set (map action_ids acts)))"

text \<open>The objects of the Replicate actions, and the types of all objects.\<close>

fun action_repls :: "Action \<Rightarrow> nat set" and pipe_repls :: "Pipeline \<Rightarrow> nat set" where
  "action_repls (Act a) = {}"
| "action_repls (ActRepl pipes ro st si) = set_option ro \<union> \<Union> (set (map pipe_repls pipes))"
| "pipe_repls (Pipeline i name acts) = \<Union> (set (map action_repls acts))"

definition kinds :: "world \<Rightarrow> nat \<Rightarrow> PipelineObjectType option" where
  "kinds w = (\<lambda>i. map_option object_type (objects w i))"

section \<open>Actions keep the buffer\<close>

lemma writers_keep_dummy:
  "write_bytes f v p = Some p' \<Longrightarrow> dummy p' = dummy p"
  "write_bits f v p = Some p' \<Longrightarrow> dummy p' = dummy p"
  "write_generic f v p = Some p' \<Longrightarrow> dummy p' = dummy p"
  unfolding write_bytes_def write_bits_def write_generic_def Let_def bind_eq_Some_conv option.inject
  by (elim exE conjE, hypsubst, simp (no_asm))+

lemma edit_keeps_dummy:
  "list_all assign_wf as \<Longrightarrow> action_EDIT_execute as p = Some (r, p') \<Longrightarrow> dummy p' = dummy p \<and> r = ACR_CONTINUE"
proof (induction as arbitrary: p)
  case (Cons a as)
  from Cons.prems(2) obtain p1 where p1:
      "(case ea_read a of Some (read, read_state) \<Rightarrow> read read_state (ea_write a) (ea_write_state a) p
          | None \<Rightarrow> ea_write a (ea_write_state a) (ea_constant a) p) = Some p1"
      "action_EDIT_execute as p1 = Some (r, p')" by (auto simp: bind_eq_Some_conv)
  have "dummy p1 = dummy p" using Cons.prems(1) p1(1)
    by (auto simp: assign_wf_def read_bytes_def bind_eq_Some_conv dest: writers_keep_dummy split: option.splits)
  with Cons.IH [OF _ p1(2)] Cons.prems(1) show ?case by simp
qed simp

text \<open>What an action may do: the allocator, the references and the masks stay, and an iterator is held exactly when the result says so.\<close>

definition quiet :: "ActionResult \<Rightarrow> PipelineIterator \<Rightarrow> Packet \<Rightarrow> world \<Rightarrow> world \<Rightarrow> bool" where
  "quiet r pi p w w' \<longleftrightarrow> dummy p = dummy (it_packet pi) \<and> psys w' = psys w \<and> pipe_refs w' = pipe_refs w \<and> pipe_mask w' = pipe_mask w
     \<and> kinds w' = kinds w \<and> (\<exists>es. out w' = out w @ es \<and> deleted es = []
          \<and> held es = (if r = ACR_HOLD then [pi\<lparr>it_packet := p\<rparr>] else []))"

lemma quiet_packet: "dummy p = dummy (it_packet pi) \<Longrightarrow> r \<noteq> ACR_HOLD \<Longrightarrow> quiet r pi p w w"
  by (simp add: quiet_def)

lemma readseq_updates: "action_READSEQ_execute f p = Some (r, p') \<Longrightarrow> \<exists>s. r = ACR_CONTINUE \<and> p' = p\<lparr>sequence := s\<rparr>"
  unfolding action_READSEQ_execute_def bind_eq_Some_conv
  by (elim exE conjE, simp only: bind_eq_Some_conv option.inject prod.inject split: if_splits) blast+

lemma packet_actions_quiet:
  "quiet (fst (action_ADD_execute ad (it_packet pi))) pi (snd (action_ADD_execute ad (it_packet pi))) w w"
  "action_CHECKSUM_execute sp cp (it_packet pi) = Some (r, p) \<Longrightarrow> quiet r pi p w w"
  "quiet (fst (action_DEL_execute i (it_packet pi))) pi (snd (action_DEL_execute i (it_packet pi))) w w"
  "action_FILTEROAM_execute f (it_packet pi) = Some (r, p) \<Longrightarrow> quiet r pi p w w"
  "action_READSEQ_execute f (it_packet pi) = Some (r, p) \<Longrightarrow> quiet r pi p w w"
  "action_READTSTAMP_execute f (it_packet pi) = Some (r, p) \<Longrightarrow> quiet r pi p w w"
  "action_SETLENGTH_execute sd (it_packet pi) = Some (r, p) \<Longrightarrow> quiet r pi p w w"
  "action_TTLREDUCE_execute td (it_packet pi) = Some (r, p) \<Longrightarrow> quiet r pi p w w"
  "action_WRITESEQ_execute f (it_packet pi) = Some (r, p) \<Longrightarrow> quiet r pi p w w"
  "action_WRITETSTAMP_execute f (it_packet pi) = Some (r, p) \<Longrightarrow> quiet r pi p w w"
  subgoal by (auto intro!: quiet_packet simp: action_ADD_execute_def packet_add_header_def scratch_alloc_def Let_def split: prod.splits if_splits)
  subgoal by (auto intro!: quiet_packet simp: action_CHECKSUM_execute_def checksum_compute_def store_csum_def bind_eq_Some_conv Let_def split: option.splits if_splits)
  subgoal by (auto intro!: quiet_packet simp: action_DEL_execute_def packet_del_header_def)
  subgoal by (auto intro!: quiet_packet simp: action_FILTEROAM_execute_def bind_eq_Some_conv split: if_splits)
  subgoal by (auto intro!: quiet_packet dest!: readseq_updates)
  subgoal by (auto intro!: quiet_packet simp: action_READTSTAMP_execute_def bind_eq_Some_conv)
  subgoal by (auto intro!: quiet_packet simp: action_SETLENGTH_execute_def bind_eq_Some_conv Let_def)
  subgoal by (auto intro!: quiet_packet simp: action_TTLREDUCE_execute_def bind_eq_Some_conv Let_def split: option.splits if_splits)
  subgoal by (auto intro!: quiet_packet simp: action_WRITESEQ_execute_def bind_eq_Some_conv Let_def split: if_splits)
  subgoal by (auto intro!: quiet_packet simp: action_WRITETSTAMP_execute_def bind_eq_Some_conv)
  done

lemma process_packet_quiet:
  assumes "process_packet env i pi w = Some (r, p, w')"
  shows "quiet r pi p w w'"
proof -
  obtain obj where obj: "objects w i = Some obj" using assms by (auto simp: process_packet_def bind_eq_Some_conv)
  show ?thesis
  proof (cases obj)
    case (PIPEOBJ_SEQGEN gen)
    with obj assms show ?thesis
      by (auto simp: process_packet_def quiet_def kinds_def fun_eq_iff seq_generator_def set_object_def split: prod.splits)
  next
    case (PIPEOBJ_SEQREC rec recs)
    with obj assms show ?thesis
      by (auto simp: process_packet_def quiet_def kinds_def fun_eq_iff seq_recovery_def set_object_def bind_eq_Some_conv Let_def split: prod.splits if_splits)
  next
    case (PIPEOBJ_POF pof)
    with obj assms show ?thesis
      by (auto simp: process_packet_def quiet_def kinds_def fun_eq_iff set_object_def emit_def Let_def split: prod.splits if_splits)
  next
    case (PIPEOBJ_REPL rep)
    with obj assms show ?thesis
      by (auto simp: process_packet_def quiet_def kinds_def fun_eq_iff replicate_packet_passed_def set_object_def Let_def)
  qed
qed

lemma oam_recovery_decides: "oam_recovery l recs session seq = (r, recs') \<Longrightarrow> r \<noteq> ACR_HOLD"
  by (auto simp: oam_recovery_def split: option.splits prod.splits if_splits)

lemma elim_quiet:
  assumes "action_ELIM_execute env i st si pi w = Some (r, p, w')"
  shows "quiet r pi p w w'"
proof -
  obtain way where way: "action_ELIM_way st si (it_packet pi) = Some way"
    using assms by (auto simp: action_ELIM_execute_def bind_eq_Some_conv)
  show ?thesis
  proof (cases way)
    case (ELIM_OAM session seq)
    with assms way obtain obj where obj: "objects w i = Some obj"
      by (auto simp: action_ELIM_execute_def bind_eq_Some_conv)
    with assms way ELIM_OAM obtain rec recs where rec: "obj = PIPEOBJ_SEQREC rec recs"
      by (cases obj) (auto simp: action_ELIM_execute_def)
    show ?thesis
      by (cases "oam_recovery (launched_at env (step_no w)) recs session seq")
        (use assms way ELIM_OAM obj rec oam_recovery_decides in \<open>auto simp: action_ELIM_execute_def quiet_def kinds_def fun_eq_iff set_object_def\<close>)
  qed (use assms way process_packet_quiet quiet_packet in \<open>auto simp: action_ELIM_execute_def\<close>)
qed

lemma oamreceive_quiet: "action_OAMRECEIVE_execute mp st si pi w = Some (r, p, w') \<Longrightarrow> quiet r pi p w w'"
  by (auto simp: action_OAMRECEIVE_execute_def quiet_def kinds_def emit_def bind_eq_Some_conv split: if_splits)

lemma verify_quiet: "action_VERIFY_execute sp cp (it_packet pi) = Some (r, p, err) \<Longrightarrow> quiet r pi p w (count_error err w)"
  by (auto simp: action_VERIFY_execute_def quiet_def kinds_def count_error_def bind_eq_Some_conv split: option.splits if_splits)

lemma execute_quiet: "basic_wf a \<Longrightarrow> execute env a pi w = Some (r, p, w') \<Longrightarrow> quiet r pi p w w'"
proof (induction env a pi w rule: execute.induct)
  case (4 env dd pi w)
  thus ?case by (auto simp: action_DELAY_execute_def quiet_def kinds_def emit_def Let_def split: if_splits)
next
  case (6 env as pi w)
  thus ?case by (auto simp: keep_world_def intro!: quiet_packet dest: edit_keeps_dummy)
next
  case (14 env i pi w)
  thus ?case by (auto simp: quiet_def kinds_def emit_def)
qed (auto simp: keep_world_def action_DROP_execute_def action_OAMINJECT_execute_def action_TTLCHECK_execute_def
    bind_eq_Some_conv intro: quiet_packet elim_quiet oamreceive_quiet verify_quiet process_packet_quiet packet_actions_quiet)

section \<open>Runs\<close>

text \<open>
  \<open>spends k n w w'\<close>: from \<open>w\<close> to \<open>w'\<close> exactly \<open>n\<close> packets and, if \<open>k\<close> names a pipeline, one reference to it were given up, where
  every iterator that is held since then keeps its packet and its reference; no pipeline was deleted.
\<close>

definition spends :: "nat option \<Rightarrow> u32 \<Rightarrow> world \<Rightarrow> world \<Rightarrow> bool" where
  "spends k n w w' \<longleftrightarrow> pipe_mask w' = pipe_mask w \<and> kinds w' = kinds w \<and> (\<exists>es. out w' = out w @ es \<and> deleted es = []
     \<and> packet_count (psys w') + n = packet_count (psys w) + live (held es)
     \<and> (\<forall>i. pipe_refs w' i + (if k = Some i then 1 else 0) = pipe_refs w i + holders i (held es)))"

definition packet_cost :: "Packet \<Rightarrow> u32" where
  "packet_cost p = (if dummy p then 0 else 1)"

lemma spends_refl [simp]: "spends None 0 w w"
  by (auto simp: spends_def)

lemma spends_trans:
  assumes "spends None m w w1" "spends k n w1 w2"
  shows "spends k (m + n) w w2"
proof -
  from assms obtain es fs where es: "out w1 = out w @ es" "deleted es = []" "packet_count (psys w1) + m = packet_count (psys w) + live (held es)"
      "\<And>i. pipe_refs w1 i = pipe_refs w i + holders i (held es)"
    and fs: "out w2 = out w1 @ fs" "deleted fs = []" "packet_count (psys w2) + n = packet_count (psys w1) + live (held fs)"
      "\<And>i. pipe_refs w2 i + (if k = Some i then 1 else 0) = pipe_refs w1 i + holders i (held fs)"
    and mask: "pipe_mask w2 = pipe_mask w" "kinds w2 = kinds w"
    by (auto simp: spends_def)
  have "packet_count (psys w2) + (m + n) = (packet_count (psys w2) + n) + m" by simp
  also have "\<dots> = (packet_count (psys w1) + m) + live (held fs)" unfolding fs(3) by simp
  also have "\<dots> = packet_count (psys w) + live (held (es @ fs))" unfolding es(3) by simp
  finally have "packet_count (psys w2) + (m + n) = packet_count (psys w) + live (held (es @ fs))" .
  moreover have "pipe_refs w2 i + (if k = Some i then 1 else 0) = pipe_refs w i + holders i (held (es @ fs))" for i
    using es(4) [of i] fs(4) [of i] by simp
  ultimately show ?thesis using es(1,2) fs(1,2) mask unfolding spends_def by (intro conjI exI [of _ "es @ fs"]) auto
qed

lemma spends_refs: "spends None n w w' \<Longrightarrow> pipe_refs w i \<le> pipe_refs w' i"
  by (auto simp: spends_def)

lemma spends_pipe_refs:
  assumes "spends k n w w'" "k \<noteq> Some i"
  shows "pipe_refs w i \<le> pipe_refs w' i"
proof -
  obtain es where "pipe_refs w' i + (if k = Some i then 1 else 0) = pipe_refs w i + holders i (held es)"
    using assms(1) by (auto simp: spends_def)
  with assms(2) holders_nonneg [of i "held es"] show ?thesis by simp
qed

lemma next_step_spends [simp]: "spends k n w (next_step w') = spends k n w w'" "spends k n (next_step w) w' = spends k n w w'"
  by (simp_all add: spends_def kinds_def next_step_def)

lemma next_step_refs [simp]: "pipe_refs (next_step w) = pipe_refs w" "pipe_mask (next_step w) = pipe_mask w" "psys (next_step w) = psys w" "kinds (next_step w) = kinds w"
  by (simp_all add: next_step_def kinds_def)

lemma pipeline_unref_alive:
  "1 < pipe_refs w (pipe_id pipe) \<Longrightarrow>
     pipeline_unref pipe w = Some (w\<lparr>pipe_refs := (pipe_refs w)(pipe_id pipe := pipe_refs w (pipe_id pipe) - 1)\<rparr>)"
  by (cases pipe) simp

lemma delete_iterator_spends:
  assumes "delete_iterator pipe po w = Some w'" "1 < pipe_refs w (pipe_id pipe)"
  shows "spends (Some (pipe_id pipe)) (case po of None \<Rightarrow> 0 | Some p \<Rightarrow> packet_cost p) w w'"
  using assms
  by (auto simp: delete_iterator_def pipeline_unref_alive with_psys_def spends_def kinds_def delete_packet_def packet_cost_def split: option.splits)

lemma delete_packet_spends: "spends None (packet_cost p) w (with_psys (delete_packet (Some p) (psys w)) w)"
  by (auto simp: with_psys_def spends_def kinds_def delete_packet_def packet_cost_def)

lemma quiet_spends:
  assumes "quiet r pi p w w'"
  shows "r \<noteq> ACR_HOLD \<Longrightarrow> spends None 0 w w'"
    and "r = ACR_HOLD \<Longrightarrow> spends (Some (pipe_id (it_pipe pi))) (packet_cost p) w w'"
  using assms by (auto simp: quiet_def spends_def packet_cost_def)

lemma packet_logcat_keeps:
  assumes "packet_logcat p msg = Some p'"
  shows "\<exists>b. p' = p\<lparr>logbuf := b\<rparr>"
proof -
  obtain c where c: "aget (logbuf p) (PACKET_LOG_BUF_SIZE - 2) = Some c"
    using assms by (auto simp: packet_logcat_def bind_eq_Some_conv)
  show ?thesis
  proof (cases "c = CHR 0x00")
    case False
    with c assms have "p' = p\<lparr>logbuf := logbuf p\<rparr>" by (simp add: packet_logcat_def)
    thus ?thesis ..
  next
    case True
    with c assms show ?thesis
      unfolding packet_logcat_def Let_def by (simp only: bind.bind_lunit simp_thms if_False bind_eq_Some_conv option.inject) blast
  qed
qed

lemma log_action_dummy: "log_action env a p = Some p' \<Longrightarrow> dummy p' = dummy p"
  by (auto simp: log_action_def split: if_splits dest: packet_logcat_keeps)

lemma copy_packet_spends:
  assumes "copy_packet mem p (psys w) = Some (q, s)"
  shows "packet_cost q = 1" "spends k (n + 1) (with_psys s w) w' \<Longrightarrow> spends k n w w'"
proof -
  have s: "packet_count s = packet_count (psys w) + 1" and q: "\<not> dummy q"
    using assms by (auto simp: copy_packet_def bind_eq_Some_conv)
  show "packet_cost q = 1" using q by (simp add: packet_cost_def)
  assume "spends k (n + 1) (with_psys s w) w'"
  moreover have "a + (n + 1) = (b + 1) + c \<longleftrightarrow> a + n = b + c" for a b c :: u32
    by (simp only: add.assoc [symmetric] add.commute [of _ 1] add.left_commute [of _ 1] add_left_cancel) (simp only: add.assoc add_left_cancel)
  ultimately show "spends k n w w'" using s by (simp add: spends_def kinds_def with_psys_def)
qed


lemma spends_kinds: "spends k n w w' \<Longrightarrow> kinds w' = kinds w"
  by (simp add: spends_def)

text \<open>A step of the iterator.\<close>

lemma step_spends:
  assumes step: "execute env a pi w = Some (r, p2, w1)" "basic_wf a" "1 < pipe_refs w (pipe_id (it_pipe pi))"
  shows "r = ACR_CONTINUE \<Longrightarrow> spends (Some (pipe_id (it_pipe pi))) (packet_cost p2) w1 w' \<Longrightarrow>
           spends (Some (pipe_id (it_pipe pi))) (packet_cost (it_packet pi)) w w'"
    and "r = ACR_DONE \<Longrightarrow> delete_iterator (it_pipe pi) (Some p2) (next_step w1) = Some w' \<Longrightarrow>
           spends (Some (pipe_id (it_pipe pi))) (packet_cost (it_packet pi)) w w'"
    and "r = ACR_HOLD \<Longrightarrow> spends (Some (pipe_id (it_pipe pi))) (packet_cost (it_packet pi)) w w1"
    and "pipe_refs w1 = pipe_refs w" "kinds w1 = kinds w"
proof -
  note q = execute_quiet [OF step(2,1)]
  have c: "packet_cost p2 = packet_cost (it_packet pi)" and refs: "pipe_refs w1 = pipe_refs w" "kinds w1 = kinds w"
    using q by (auto simp: quiet_def packet_cost_def)
  show "pipe_refs w1 = pipe_refs w" "kinds w1 = kinds w" by fact+
  show "spends (Some (pipe_id (it_pipe pi))) (packet_cost (it_packet pi)) w w'"
    if "r = ACR_CONTINUE" "spends (Some (pipe_id (it_pipe pi))) (packet_cost p2) w1 w'"
    using spends_trans [OF quiet_spends(1) [OF q] that(2)] that(1) c by simp
  show "spends (Some (pipe_id (it_pipe pi))) (packet_cost (it_packet pi)) w w1" if "r = ACR_HOLD"
    using quiet_spends(2) [OF q that] c by simp
  show "spends (Some (pipe_id (it_pipe pi))) (packet_cost (it_packet pi)) w w'"
    if "r = ACR_DONE" "delete_iterator (it_pipe pi) (Some p2) (next_step w1) = Some w'"
    using spends_trans [OF quiet_spends(1) [OF q]] delete_iterator_spends [OF that(2)] that(1) c step(3) refs by simp
qed

text \<open>The object of a Replicate action counts the packet and leaves the iterator alone.\<close>

lemma repl_object_spends:
  assumes "(case ro of None \<Rightarrow> Some w | Some i \<Rightarrow> map_option (\<lambda>(r, p, w). w) (process_packet env i pi w)) = Some w1"
    and "\<forall>i \<in> set_option ro. kinds w i = Some OBJ_REPL"
  shows "spends None 0 w w1" "pipe_refs w1 = pipe_refs w" "kinds w1 = kinds w"
proof -
  have "spends None 0 w w1 \<and> pipe_refs w1 = pipe_refs w \<and> kinds w1 = kinds w"
  proof (cases ro)
    case (Some i)
    then obtain r p where pp: "process_packet env i pi w = Some (r, p, w1)" using assms(1) by auto
    obtain rep where "objects w i = Some (PIPEOBJ_REPL rep)"
      using assms(2) Some by (auto simp: kinds_def elim: object_type.elims)
    hence "r \<noteq> ACR_HOLD" using pp by (auto simp: process_packet_def replicate_packet_passed_def Let_def)
    with quiet_spends(1) [OF process_packet_quiet [OF pp]] process_packet_quiet [OF pp] show ?thesis
      by (simp add: quiet_def)
  qed (use assms in simp)
  thus "spends None 0 w w1" "pipe_refs w1 = pipe_refs w" "kinds w1 = kinds w" by simp_all
qed

text \<open>What a run needs of the world: every pipeline it may enter is alive, and the objects of Replicate actions are of that type.\<close>

definition alive :: "nat set \<Rightarrow> nat set \<Rightarrow> world \<Rightarrow> bool" where
  "alive ids repls w \<longleftrightarrow> (\<forall>i \<in> ids. 0 < pipe_refs w i) \<and> (\<forall>i \<in> repls. kinds w i = Some OBJ_REPL)"

lemma alive_mono: "alive A B w \<Longrightarrow> A' \<subseteq> A \<Longrightarrow> B' \<subseteq> B \<Longrightarrow> alive A' B' w"
  by (auto simp: alive_def)

lemma alive_spends:
  assumes "alive A B w" "spends None n w w'"
  shows "alive A B w'"
proof -
  have "pipe_refs w i \<le> pipe_refs w' i" for i using spends_pipe_refs [OF assms(2)] by simp
  thus ?thesis using assms(1) spends_kinds [OF assms(2)] unfolding alive_def by (metis order.strict_trans2)
qed

lemma alive_psys [simp]: "alive A B (with_psys s w) = alive A B w"
  by (simp add: alive_def with_psys_def kinds_def)

abbreviation acts_ids :: "Action list \<Rightarrow> nat set" where "acts_ids acts \<equiv> \<Union> (set (map action_ids acts))"
abbreviation acts_repls :: "Action list \<Rightarrow> nat set" where "acts_repls acts \<equiv> \<Union> (set (map action_repls acts))"
abbreviation pipes_ids :: "Pipeline list \<Rightarrow> nat set" where "pipes_ids bs \<equiv> \<Union> (set (map pipe_ids bs))"
abbreviation pipes_repls :: "Pipeline list \<Rightarrow> nat set" where "pipes_repls bs \<equiv> \<Union> (set (map pipe_repls bs))"

lemma ref_spends: "spends (Some i) n (pipeline_ref i w) w' \<Longrightarrow> spends None n w w'"
  unfolding spends_def pipeline_ref_def kinds_def by (auto split: if_splits)

lemma run_spends:
  "run_actions env pipe pos acts p w = Some w' \<Longrightarrow> list_all action_wf acts \<Longrightarrow> alive (acts_ids acts) (acts_repls acts) w \<Longrightarrow>
     1 < pipe_refs w (pipe_id pipe) \<Longrightarrow> spends (Some (pipe_id pipe)) (packet_cost p) w w'"
  "run_branches env bs st si p oam w = Some w' \<Longrightarrow> bs \<noteq> [] \<Longrightarrow> list_all pipe_wf bs \<Longrightarrow> alive (pipes_ids bs) (pipes_repls bs) w \<Longrightarrow>
     spends None (packet_cost p) w w'"
  "run_pipe env b p w = Some w' \<Longrightarrow> pipe_wf b \<Longrightarrow> alive (pipe_ids b) (pipe_repls b) w \<Longrightarrow> spends None (packet_cost p) w w'"
proof (induction env pipe pos acts p w and env bs st si p oam w and env b p w arbitrary: w' and w' and w'
    rule: run_actions_run_branches_run_pipe.induct)
  case (1 env pipe pos p w)
  thus ?case using delete_iterator_spends [of pipe "Some p" w w'] by simp
next
  case (2 env pipe pos a as p w)
  obtain p1 where p1: "log_action env a p = Some p1" using "2.prems"(1) by (auto simp: bind_eq_Some_conv)
  have cost: "packet_cost p1 = packet_cost p" using log_action_dummy [OF p1] by (simp add: packet_cost_def)
  let ?pi = "\<lparr>it_packet = p1, it_pipe = pipe, it_pos = pos\<rparr>"
  show ?case
  proof (cases a)
    case (Act b)
    then obtain r p2 w1 where ex: "execute env b ?pi w = Some (r, p2, w1)"
      using "2.prems"(1) p1 by (auto simp: bind_eq_Some_conv)
    have wf: "basic_wf b" "1 < pipe_refs w (pipe_id (it_pipe ?pi))" using "2.prems"(2,4) Act by simp_all
    note step = step_spends [OF ex wf, simplified, unfolded cost]
    have al: "alive (acts_ids as) (acts_repls as) (next_step w1)"
      using "2.prems"(3) step(4,5) by (auto simp: alive_def)
    show ?thesis
    proof (cases r)
      case ACR_CONTINUE
      have "run_actions env pipe (pos + 1) as p2 (next_step w1) = Some w'"
        using "2.prems"(1) p1 Act ex ACR_CONTINUE by simp
      from "2.IH"(1) [OF p1 refl Act ex refl refl ACR_CONTINUE this _ al] "2.prems"(2,4) step(4)
      have "spends (Some (pipe_id pipe)) (packet_cost p2) w1 w'" by simp
      from step(1) [OF ACR_CONTINUE this] show ?thesis .
    next
      case ACR_DONE
      have "delete_iterator pipe (Some p2) (next_step w1) = Some w'" using "2.prems"(1) p1 Act ex ACR_DONE by simp
      from step(2) [OF ACR_DONE this] show ?thesis .
    next
      case ACR_HOLD
      have "w' = next_step w1" using "2.prems"(1) p1 Act ex ACR_HOLD by simp
      with step(3) [OF ACR_HOLD] show ?thesis by simp
    qed
  next
    case (ActRepl pipes ro st si)
    then obtain w1 w2 where w1: "(case ro of None \<Rightarrow> Some w | Some i \<Rightarrow> map_option (\<lambda>(r, p, w). w) (process_packet env i ?pi w)) = Some w1"
      and w2: "run_branches env pipes st si p1 None (next_step w1) = Some w2" and w': "delete_iterator pipe None w2 = Some w'"
      using "2.prems"(1) p1 by (auto simp: bind_eq_Some_conv)
    have "\<forall>i \<in> set_option ro. kinds w i = Some OBJ_REPL" using "2.prems"(3) ActRepl by (auto simp: alive_def)
    note obj = repl_object_spends [OF w1 this]
    have al: "alive (pipes_ids pipes) (pipes_repls pipes) (next_step w1)"
      using "2.prems"(3) obj(2,3) ActRepl by (auto simp: alive_def)
    have "spends None (packet_cost p) w1 w2"
      using "2.IH"(2) [OF p1 refl ActRepl w1 w2 _ _ al] "2.prems"(2) ActRepl cost by simp
    from spends_trans [OF obj(1) this] have br: "spends None (packet_cost p) w w2" by simp
    show ?thesis
      using spends_trans [OF br delete_iterator_spends [OF w']] spends_pipe_refs [OF br, of "pipe_id pipe"] "2.prems"(4) by simp
  qed
next
  case (4 env b bs st si p is_oam w)
  obtain oam where oam: "(if pipe_mask w (pipe_id b) then case is_oam of None \<Rightarrow> map_option Some (packet_is_oam p st si) | Some x \<Rightarrow> Some (Some x)
      else Some is_oam) = Some oam" using "4.prems"(1) by (auto simp: bind_eq_Some_conv)
  have al: "alive (pipes_ids bs) (pipes_repls bs) w" "alive (pipe_ids b) (pipe_repls b) w"
    using "4.prems"(4) by (auto simp: alive_def)
  have wf: "list_all pipe_wf bs" "pipe_wf b" using "4.prems"(3) by simp_all
  show ?case
  proof (cases "pipe_mask w (pipe_id b) \<and> oam = Some False")
    case True
    show ?thesis
    proof (cases "bs = []")
      case empty: True
      thus ?thesis using "4.prems"(1) oam True delete_packet_spends by auto
    next
      case False
      have "run_branches env bs st si p oam w = Some w'" using "4.prems"(1) oam True False by auto
      from "4.IH"(1) [OF oam True False this False wf(1) al(1)] show ?thesis .
    qed
  next
    case through: False
    show ?thesis
    proof (cases "bs = []")
      case True
      have "run_pipe env b p w = Some w'" using "4.prems"(1) oam through True by auto
      from "4.IH"(2) [OF oam through True this wf(2) al(2)] show ?thesis .
    next
      case False
      obtain q s w1 where c: "copy_packet (mem_at env (step_no w)) p (psys w) = Some (q, s)"
        "run_pipe env b q (with_psys s w) = Some w1" "run_branches env bs st si p oam w1 = Some w'"
        using "4.prems"(1) oam through False by (auto simp: bind_eq_Some_conv split: if_splits)
      have q: "spends None 0 w w1"
        using "4.IH"(3) [OF oam through False c(1) refl c(2) wf(2)] al(2) copy_packet_spends(1) [OF c(1)]
        by (intro copy_packet_spends(2) [OF c(1)]) simp
      from spends_trans [OF q "4.IH"(4) [OF oam through False c(1) refl c(2) c(3) False wf(1) alive_spends [OF al(1) q]]]
      show ?thesis by simp
    qed
  qed
next
  case (5 env i name acts p w)
  have run: "run_actions env (Pipeline i name acts) 0 acts p (pipeline_ref i w) = Some w'" and ne: "acts \<noteq> []"
    using "5.prems"(1,2) by auto
  have "alive (acts_ids acts) (acts_repls acts) (pipeline_ref i w)" "1 < pipe_refs (pipeline_ref i w) i"
    using "5.prems"(3) by (auto simp: alive_def pipeline_ref_def kinds_def)
  from "5.IH" [OF ne run _ this(1)] this(2) "5.prems"(2) show ?case by (intro ref_spends [of i]) simp
qed simp_all

section \<open>Nothing is lost\<close>

lemma wf_drop:
  assumes "pipe_wf pipe" "alive (pipe_ids pipe) (pipe_repls pipe) w"
  shows "list_all action_wf (drop n (pipe_actions pipe))"
    "alive (acts_ids (drop n (pipe_actions pipe))) (acts_repls (drop n (pipe_actions pipe))) w"
proof -
  obtain i name acts where pipe: "pipe = Pipeline i name acts" by (cases pipe)
  show "list_all action_wf (drop n (pipe_actions pipe))"
    using assms(1) by (auto simp: pipe list_all_iff dest: in_set_dropD)
  show "alive (acts_ids (drop n (pipe_actions pipe))) (acts_repls (drop n (pipe_actions pipe))) w"
    using assms(2) set_drop_subset [of n acts] unfolding alive_def by (auto simp: pipe)
qed


definition sample_world :: world where
  "sample_world = \<lparr>psys = \<lparr>packet_count = 1, next_packet_id = 1, dummybuf = []\<rparr>, pipe_refs = (\<lambda>_. 2), pipe_mask = (\<lambda>_. False),
     objects = (\<lambda>_. None), obj_refs = (\<lambda>_. 0), iface_refs = (\<lambda>_. 1), sender_count = (\<lambda>_. 1), checksum_errors = (\<lambda>_. 0),
     step_no = 0, out = []\<rparr>"

definition sample_env :: run_env where
  "sample_env = \<lparr>now_at = (\<lambda>_. Timespec 0 0), launched_at = (\<lambda>_. True), stack_at = (\<lambda>_. 0), mem_at = (\<lambda>_. replicate 16 0), packet_trace = False\<rparr>"

definition small_packet :: Packet where
  "small_packet = (seq_packet PROTO_ID_DCW)\<lparr>pstart := 0, plen := 8\<rparr>"

definition sample_pipe :: Pipeline where
  "sample_pipe = Pipeline 0 ''s'' [Act (ActReadSeq (sample_field 1 0 32)),
     ActRepl [Pipeline 1 ''a'' [Act (ActSend 7)], Pipeline 2 ''b'' [Act (ActDelay \<lparr>dd_delay = Timespec 1 0, dd_offload = False\<rparr>), Act (ActSend 8)]]
       None None \<lparr>rtag_index = 0, last_index = 0, ethertype_offset = 0\<rparr>]"

lemma sample_run: "pipe_iterator_run sample_env \<lparr>it_packet = small_packet, it_pipe = sample_pipe, it_pos = 0\<rparr> sample_world \<noteq> None"
  by code_simp


text \<open>
  The condition on replications is needed: a Replicate action without branches takes the packet out of its iterator and
  hands it to nobody.
\<close>

lemma empty_replication_leaks:
  assumes "1 < pipe_refs w i" "\<not> packet_trace env"
  shows "\<exists>w'. pipe_iterator_run env \<lparr>it_packet = p, it_pipe = Pipeline i name [ActRepl [] None st si], it_pos = 0\<rparr> w = Some w'
     \<and> out w' = out w \<and> psys w' = psys w"
  using assms
  by (simp add: pipe_iterator_run_def log_action_def delete_iterator_def next_step_def with_psys_def delete_packet_def)

end
