(* ===== verification/Pipeline_Safety.thy ===== *)
theory Pipeline_Safety
  imports Pipeline_Balance Recovery_Life
begin

text \<open>
  Memory safety of pipelines.  Which headers a packet has at every action of a pipeline is known when the pipeline is
  configured; the check below follows the list of headers through the actions, with the number of bytes known to
  lie behind the start of each header and the scratch space in use.  A pipeline that passes the check
  runs to its end on every packet with the headers it was checked for: no action reads or writes outside of a buffer or of the header list, and no
  action uses an object of another type.
\<close>

section \<open>Header contexts\<close>

record hctx =
  hc_lens :: "nat list"
  hc_scratch :: nat

text \<open>Every header is followed by at least 64 bytes of the buffer: the longest IPv4 header, and what the detection of OAM packets looks at.\<close>

definition room :: "hctx \<Rightarrow> nat \<Rightarrow> nat" where
  "room c i = max 64 (hc_lens c ! i)"

definition header_fits :: "PacketHeader \<Rightarrow> nat \<Rightarrow> bool" where
  "header_fits h n \<longleftrightarrow> unat (hstart h) + max 64 n \<le> PACKET_BUF_LEN \<and> unat (hstart h) + unat (hlen h) \<le> PACKET_BUF_LEN"

definition fits :: "hctx \<Rightarrow> Packet \<Rightarrow> bool" where
  "fits c p \<longleftrightarrow> list_all2 header_fits (headers p) (hc_lens c) \<and> length (buf p) = PACKET_BUF_LEN \<and> log_wf (logbuf p)
     \<and> unat (scratch_len p) \<le> hc_scratch c \<and> 1024 \<le> unat (pstart p) \<and> unat (pstart p + plen p) \<le> PACKET_BUF_LEN"

lemma fitsD:
  assumes "fits c p"
  shows "length (headers p) = length (hc_lens c)" "length (buf p) = PACKET_BUF_LEN" "log_wf (logbuf p)"
    "i < length (hc_lens c) \<Longrightarrow> unat (hstart (headers p ! i)) + room c i \<le> PACKET_BUF_LEN"
    "i < length (hc_lens c) \<Longrightarrow> unat (hstart (headers p ! i)) + unat (hlen (headers p ! i)) \<le> PACKET_BUF_LEN"
  using assms by (auto simp: fits_def header_fits_def room_def list_all2_conv_all_nth)

lemma fits_simps [simp]:
  "fits c (p\<lparr>sequence := s\<rparr>) = fits c p" "fits c (p\<lparr>timestamp := s\<rparr>) = fits c p" "fits c (p\<lparr>ttl := t\<rparr>) = fits c p"
  "fits c (p\<lparr>delay := d\<rparr>) = fits c p" "fits c (p\<lparr>offload := x\<rparr>) = fits c p"
  by (simp_all add: fits_def)

lemma fits_buf: "fits c p \<Longrightarrow> length b = length (buf p) \<Longrightarrow> fits c (p\<lparr>buf := b\<rparr>)"
  by (simp add: fits_def)

lemma room_64: "64 \<le> room c i"
  by (simp add: room_def)

lemma header_addr_fits:
  assumes "fits c p" "i < length (hc_lens c)"
  shows "header_addr p i = Some (unat (hstart (headers p ! i)))"
  using fitsD(1) [OF assms(1)] assms(2) by (simp add: header_addr_def)

lemma hdr_byte_fits:
  assumes "fits c p" "i < length (hc_lens c)" "k < 64"
  shows "\<exists>x. hdr_byte p i k = Some x"
  using header_addr_fits [OF assms(1,2)] fitsD(2) [OF assms(1)] fitsD(4) [OF assms(1,2)] room_64 [of c i] assms(3)
  by (simp add: hdr_byte_def)

definition field_ok :: "hctx \<Rightarrow> HeaderField \<Rightarrow> nat \<Rightarrow> bool" where
  "field_ok c f n \<longleftrightarrow> header_idx f < length (hc_lens c) \<and> fbitoffset f div 8 + n \<le> room c (header_idx f)"

lemma field_ok_addr:
  assumes "fits c p" "field_ok c f n"
  obtains a h where "field_addr f p = Some a" "a + n \<le> length (buf p)" "aget (headers p) (header_idx f) = Some h"
proof -
  have "header_idx f < length (headers p)" using assms fitsD(1) [OF assms(1)] by (simp add: field_ok_def)
  hence "aget (headers p) (header_idx f) = Some (headers p ! header_idx f)"
    "field_addr f p = Some (unat (hstart (headers p ! header_idx f)) + fbitoffset f div 8)" by (simp_all add: field_addr_def)
  moreover have "unat (hstart (headers p ! header_idx f)) + fbitoffset f div 8 + n \<le> length (buf p)"
    using fitsD(2,4) [OF assms(1)] assms(2) by (fastforce simp: field_ok_def)
  ultimately show thesis using that by blast
qed

section \<open>Writers stay inside the buffer\<close>

definition readable :: "Value \<Rightarrow> nat \<Rightarrow> nat \<Rightarrow> bool" where
  "readable v n l \<longleftrightarrow> (\<forall>b i. length b = l \<longrightarrow> i < n \<longrightarrow> vget v b i \<noteq> None)"

lemma mask_byte_total:
  assumes "readable v n (length b)" "s < n" "d < length b"
  shows "\<exists>b'. mask_byte v s d m b = Some b' \<and> length b' = length b"
proof -
  obtain y where "vget v (b[d := b ! d AND NOT m]) s = Some y"
    using assms(1,2) unfolding readable_def by (metis length_list_update not_None_eq)
  with assms(3) show ?thesis by (simp add: mask_byte_def)
qed

lemma copy_loop_total:
  "readable v n (length b) \<Longrightarrow> s + k \<le> n \<Longrightarrow> d + k \<le> length b \<Longrightarrow> \<exists>b'. copy_loop v s d k b = Some b' \<and> length b' = length b"
proof (induction k arbitrary: s d b)
  case (Suc k)
  obtain x where "vget v b s = Some x" using Suc.prems(1,2) unfolding readable_def by (metis add_Suc_right less_add_Suc1 not_None_eq order.strict_trans2)
  moreover have "\<exists>b'. copy_loop v (s + 1) (d + 1) k (b[d := x]) = Some b' \<and> length b' = length (b[d := x])"
    using Suc.prems by (intro Suc.IH) auto
  ultimately show ?case using Suc.prems(3) by simp
qed simp

lemma writer_total:
  assumes w: "header_get_field_writer f v = Some w" and addr: "field_addr f p = Some a" and src: "readable v n (length (buf p))"
    and n: "vbitoffset v div 8 + field_bytes f \<le> n" and len: "a + field_bytes f \<le> length (buf p)"
  shows "\<exists>b. w f v p = Some (p\<lparr>buf := b\<rparr>) \<and> length b = length (buf p)"
proof -
  have cnt: "vbitcount v = fbitcount f" using w by (auto simp: header_get_field_writer_def split: if_splits)
  consider "w = write_bytes" "fbitoffset f mod 8 = 0" "fbitcount f mod 8 = 0"
    | "w = write_bits" "fbitoffset f mod 8 + fbitcount f \<le> 8" "\<not> (fbitoffset f mod 8 = 0 \<and> fbitcount f mod 8 = 0)"
    | "w = write_generic" "8 < fbitoffset f mod 8 + fbitcount f"
    using w by (auto simp: header_get_field_writer_def split: if_splits)
  thus ?thesis
  proof cases
    case 1
    hence "field_bytes f = fbitcount f div 8" by (auto simp: field_bytes_def)
    with copy_loop_total [OF src, of "vbitoffset v div 8" "fbitcount f div 8" a] n len 1 addr cnt show ?thesis
      by (auto simp: write_bytes_def)
  next
    case 2
    hence "field_bytes f = 1" by (auto simp: field_bytes_def)
    with mask_byte_total [OF src, of "vbitoffset v div 8" a "bit_mask (fbitcount f) (8 - fbitoffset f mod 8 - fbitcount f)"] n len
    obtain b where "mask_byte v (vbitoffset v div 8) a (bit_mask (fbitcount f) (8 - fbitoffset f mod 8 - fbitcount f)) (buf p) = Some b"
      "length b = length (buf p)" by auto
    with 2(1) addr show ?thesis by (intro exI [of _ b]) (simp add: write_bits_def Let_def)
  next
    case 3
    define bo s where "bo = fbitoffset f mod 8" and "s = vbitoffset v div 8"
    define rb rr where "rb = (fbitcount f - (8 - bo)) div 8" and "rr = (fbitcount f - (8 - bo)) mod 8"
    have fb: "field_bytes f = 1 + rb + (if rr = 0 then 0 else 1)"
      using generic_split(2) [OF 3(2)] by (simp add: bo_def rb_def rr_def)
    have m: "min (fbitcount f) (8 - bo) = 8 - bo" using 3(2) by (simp add: bo_def)
    obtain b1 where b1: "mask_byte v s a (bit_mask (8 - bo) (8 - bo - (8 - bo))) (buf p) = Some b1" "length b1 = length (buf p)"
      using mask_byte_total [OF src, of s a] n len fb by (auto simp: s_def)
    obtain b2 where b2: "copy_loop v (s + 1) (a + 1) rb b1 = Some b2" "length b2 = length (buf p)"
      using copy_loop_total [of v n b1 "s + 1" rb "a + 1"] src b1(2) n len fb by (auto simp: s_def)
    obtain b3 where b3: "(if rr \<noteq> 0 then mask_byte v (s + 1 + rb) (a + 1 + rb) (bit_mask rr (8 - rr)) b2 else Some b2) = Some b3"
        "length b3 = length (buf p)"
      using mask_byte_total [of v n b2 "s + 1 + rb" "a + 1 + rb"] src b2(2) n len fb by (cases "rr = 0") (auto simp: s_def)
    have "write_generic f v p = Some (p\<lparr>buf := b3\<rparr>)"
      using addr b1(1) b2(1) b3(1) unfolding write_generic_def Let_def bo_def [symmetric] s_def [symmetric]
      by (cases "rr = 0") (simp_all add: m rb_def [symmetric] rr_def [symmetric])
    with 3(1) b3(2) show ?thesis by blast
  qed
qed

section \<open>Checking actions\<close>

definition assign_ok :: "hctx \<Rightarrow> EditAssign \<Rightarrow> bool" where
  "assign_ok c a \<longleftrightarrow> field_ok c (ea_write_state a) (field_bytes (ea_write_state a)) \<and>
     (case ea_read a of
        None \<Rightarrow> header_get_field_writer (ea_write_state a) (ea_constant a) = Some (ea_write a)
          \<and> (case vptr (ea_constant a) of
               VConst bs \<Rightarrow> vbitoffset (ea_constant a) div 8 + field_bytes (ea_write_state a) \<le> length bs
             | _ \<Rightarrow> False)
      | Some (read, st) \<Rightarrow> read = read_bytes \<and> field_ok c st (field_bytes st)
          \<and> header_get_field_writer (ea_write_state a)
               \<lparr>vptr = VNull, vbitoffset = fbitoffset st mod 8, vbitcount = fbitcount st\<rparr> = Some (ea_write a))"

text \<open>The stack that decides whether a packet is an OAM packet, for the detection and for the elimination.\<close>

definition stack_ok :: "hctx \<Rightarrow> ProtocolID list option \<Rightarrow> StackInfo \<Rightarrow> bool" where
  "stack_ok c protostack si \<longleftrightarrow> (case protostack of None \<Rightarrow> True
     | Some stack \<Rightarrow> stack \<noteq> [] \<and> rtag_index si + 1 < length (hc_lens c) \<and> last_index si < length (hc_lens c)
         \<and> 1 < length (hc_lens c) \<and> length (hc_lens c) \<le> 20 \<and> ethertype_offset si < 63)"

definition csum_ok :: "hctx \<Rightarrow> ChecksumParameters \<Rightarrow> bool" where
  "csum_ok c cp \<longleftrightarrow> cp_hdr_idx cp < length (hc_lens c) \<and> cp_ip_idx cp < length (hc_lens c)"

text \<open>The result is the context behind the action; \<open>\<Gamma>\<close> gives the types of the objects.\<close>

fun check_basic :: "(nat \<Rightarrow> PipelineObjectType option) \<Rightarrow> hctx \<Rightarrow> BasicAction \<Rightarrow> hctx option" where
  "check_basic \<Gamma> c (ActAdd ad) =
     (if unat (add_idx ad) \<le> length (hc_lens c) \<and> length (hc_lens c) < PACKET_MAX_HEADER_NUM \<and> hc_scratch c + unat (add_len ad) < 1024
      then Some \<lparr>hc_lens = take (unat (add_idx ad)) (hc_lens c) @ [unat (add_len ad)] @ drop (unat (add_idx ad)) (hc_lens c),
                 hc_scratch = hc_scratch c + unat (add_len ad)\<rparr>
      else None)"
| "check_basic \<Gamma> c (ActChecksum cp) = (if csum_ok c cp then Some c else None)"
| "check_basic \<Gamma> c (ActDel idx) =
     (if unat idx < length (hc_lens c)
      then Some (c\<lparr>hc_lens := take (unat idx) (hc_lens c) @ drop (unat idx + 1) (hc_lens c)\<rparr>) else None)"
| "check_basic \<Gamma> c (ActDelay dd) = Some c"
| "check_basic \<Gamma> c ActDrop = Some c"
| "check_basic \<Gamma> c (ActEdit as) = (if list_all (assign_ok c) as then Some c else None)"
| "check_basic \<Gamma> c (ActElim i st si) = (if \<Gamma> i = Some OBJ_SEQREC \<and> stack_ok c st si then Some c else None)"
| "check_basic \<Gamma> c (ActFilterOam f) = (if field_ok c f 4 \<and> fbitcount f div 8 = 4 then Some c else None)"
| "check_basic \<Gamma> c (ActOamInject mp) = Some c"
| "check_basic \<Gamma> c (ActOamReceive mp st si) = (if stack_ok c (Some st) si then Some c else None)"
| "check_basic \<Gamma> c (ActPof i) = (if \<Gamma> i = Some OBJ_POF then Some c else None)"
| "check_basic \<Gamma> c (ActReadSeq f) = (if field_ok c f 4 \<and> fbitcount f div 8 \<le> 4 then Some c else None)"
| "check_basic \<Gamma> c (ActReadTstamp f) = (if field_ok c f 4 \<and> fbitcount f div 8 \<le> 4 then Some c else None)"
| "check_basic \<Gamma> c (ActSend i) = Some c"
| "check_basic \<Gamma> c (ActSeqgen i) = (if \<Gamma> i = Some OBJ_SEQGEN then Some c else None)"
| "check_basic \<Gamma> c (ActSetlength sd) = (if field_ok c (sl_field sd) 2 \<and> sl_payload_idx sd < length (hc_lens c) then Some c else None)"
| "check_basic \<Gamma> c ActTtlcheck = Some c"
| "check_basic \<Gamma> c (ActTtlreduce td) =
     (if field_ok c (td_field td) 1 \<and> (case td_csum td of None \<Rightarrow> True | Some cf \<Rightarrow> field_ok c cf 2) then Some c else None)"
| "check_basic \<Gamma> c (ActVerify cp) = (if csum_ok c cp then Some c else None)"
| "check_basic \<Gamma> c (ActWriteSeq f) = (if field_ok c f 4 then Some c else None)"
| "check_basic \<Gamma> c (ActWriteTstamp f) = (if field_ok c f 4 \<and> fbitcount f div 8 \<le> 4 then Some c else None)"

fun check_actions :: "(nat \<Rightarrow> PipelineObjectType option) \<Rightarrow> hctx \<Rightarrow> Action list \<Rightarrow> bool"
  and check_pipe :: "(nat \<Rightarrow> PipelineObjectType option) \<Rightarrow> hctx \<Rightarrow> Pipeline \<Rightarrow> bool" where
  "check_actions \<Gamma> c [] = True"
| "check_actions \<Gamma> c (Act a # as) = (case check_basic \<Gamma> c a of None \<Rightarrow> False | Some c' \<Rightarrow> check_actions \<Gamma> c' as)"
| "check_actions \<Gamma> c (ActRepl pipes ro st si # as) =
     (pipes \<noteq> [] \<and> (\<forall>i \<in> set_option ro. \<Gamma> i = Some OBJ_REPL) \<and> stack_ok c st si \<and> list_all (check_pipe \<Gamma> c) pipes \<and> list_all action_wf as)"
| "check_pipe \<Gamma> c (Pipeline i name acts) = (acts \<noteq> [] \<and> check_actions \<Gamma> c acts)"

section \<open>Checked actions succeed\<close>

lemma csum_headers_total:
  "\<forall>h \<in> set hs. unat (hstart h) + unat (hlen h) \<le> length b \<Longrightarrow> \<exists>s'. csum_headers b hs l s = Some s'"
proof (induction hs arbitrary: l s)
  case (Cons h hs)
  let ?n = "min (unat l) (unat (hlen h))"
  have "mem_read b (unat (hstart h)) ?n = Some (take ?n (drop (unat (hstart h)) b))"
    using Cons.prems by (auto simp: mem_read_def)
  with Cons show ?case by (simp add: Let_def)
qed simp

lemma ihl_60: "4 * unat (x AND 0x0f :: u8) \<le> 60"
proof -
  have "x AND 0x0f \<le> 0x0f" by (rule word_and_le1)
  hence "unat (x AND 0x0f) \<le> unat (0x0f :: u8)" by (simp add: word_le_nat_alt)
  thus ?thesis by simp
qed

lemma checksum_parts:
  assumes "fits c p" "csum_ok c cp"
  shows "\<exists>l. payload_length p cp = Some l"
    and "\<exists>s. ipv4_header_csum p (unat (hstart (headers p ! cp_hdr_idx cp))) = Some s"
    and "\<exists>s. pseudo_csum sp p cp protoid l = Some s"
    and "\<exists>s'. csum_headers (buf p) (drop n (headers p)) l0 s = Some s'"
proof -
  have idx: "cp_hdr_idx cp < length (hc_lens c)" "cp_ip_idx cp < length (hc_lens c)" using assms(2) by (auto simp: csum_ok_def)
  have r: "unat (hstart (headers p ! i)) + 64 \<le> length (buf p)" if "i < length (hc_lens c)" for i
    using fitsD(2,4) [OF assms(1)] that room_64 [of c i] by fastforce
  note len = fitsD(1) [OF assms(1)]
  show "\<exists>l. payload_length p cp = Some l"
    using r [OF idx(2)] idx len by (simp add: payload_length_def header_addr_def)
  show "\<exists>s. ipv4_header_csum p (unat (hstart (headers p ! cp_hdr_idx cp))) = Some s"
    using r [OF idx(1)] ihl_60 [of "buf p ! unat (hstart (headers p ! cp_hdr_idx cp))"]
    by (simp add: ipv4_header_csum_def mem_read_def)
  show "\<exists>s. pseudo_csum sp p cp protoid l = Some s"
    using r [OF idx(2)] idx len by (simp add: pseudo_csum_def header_addr_def mem_read_def)
  show "\<exists>s'. csum_headers (buf p) (drop n (headers p)) l0 s = Some s'"
  proof (rule csum_headers_total, rule ballI)
    fix h assume "h \<in> set (drop n (headers p))"
    then obtain i where "i < length (hc_lens c)" "h = headers p ! i" using len by (metis in_set_conv_nth in_set_dropD)
    thus "unat (hstart h) + unat (hlen h) \<le> length (buf p)" using fitsD(2,5) [OF assms(1)] by simp
  qed
qed

lemma csum_values:
  assumes "fits c p" "csum_ok c cp"
  shows "\<exists>s. icmpv4_csum p cp = Some s" "\<exists>s. layer4_csum sp p cp = Some s"
proof -
  obtain l where l: "payload_length p cp = Some l" using checksum_parts(1) [OF assms] by blast
  obtain s where "csum_headers (buf p) (drop (cp_hdr_idx cp) (headers p)) l 0 = Some s" using checksum_parts(4) [OF assms] by blast
  with l show "\<exists>s. icmpv4_csum p cp = Some s" by (simp add: icmpv4_csum_def)
  show "\<exists>s. layer4_csum sp p cp = Some s"
  proof (cases "protoid_of (cp_hdr_proto cp)")
    case (Some i)
    obtain s where s: "pseudo_csum sp p cp i l = Some s" using checksum_parts(3) [OF assms] by blast
    obtain s' where "csum_headers (buf p) (drop (cp_hdr_idx cp) (headers p)) l s = Some s'" using checksum_parts(4) [OF assms] by blast
    with l s Some show ?thesis by (simp add: layer4_csum_def)
  qed (simp add: layer4_csum_def)
qed

lemma store_csum_total:
  assumes "fits c p" "pos + 1 < length (buf p)" "\<And>b. length b = length (buf p) \<Longrightarrow> \<exists>s. f (p\<lparr>buf := b\<rparr>) = Some s"
  shows "\<exists>b. store_csum pos f p = Some (p\<lparr>buf := b\<rparr>) \<and> length b = length (buf p)"
proof -
  obtain s where "f (p\<lparr>buf := (buf p)[pos := 0, pos + 1 := 0]\<rparr>) = Some s" using assms(3) by force
  with assms(2) show ?thesis by (simp add: store_csum_def) (metis length_list_update)
qed

lemma checksum_compute_total:
  assumes "fits c p" "csum_ok c cp"
  shows "\<exists>p'. checksum_compute sp p cp = Some p' \<and> fits c p'"
proof -
  let ?a = "unat (hstart (headers p ! cp_hdr_idx cp))"
  have idx: "cp_hdr_idx cp < length (hc_lens c)" using assms(2) by (simp add: csum_ok_def)
  have pos: "?a + k + 1 < length (buf p)" if "k < 32" for k
    using fitsD(2) [OF assms(1)] fitsD(4) [OF assms(1) idx] room_64 [of c "cp_hdr_idx cp"] that by simp
  have st: "\<exists>p'. store_csum (?a + k) f p = Some p' \<and> fits c p'"
    if "k < 32" "\<And>q. fits c q \<Longrightarrow> headers q = headers p \<Longrightarrow> \<exists>s. f q = Some s" for k f
    using store_csum_total [OF assms(1) pos [OF that(1)], of f] that(2) fits_buf [OF assms(1)] by fastforce
  have ip: "\<exists>p'. store_csum (?a + 10) (\<lambda>p. ipv4_header_csum p ?a) p = Some p' \<and> fits c p'"
    by (rule st) (simp, metis checksum_parts(2) [OF _ assms(2)])
  have icmp: "\<exists>p'. store_csum (?a + 2) (\<lambda>p. icmpv4_csum p cp) p = Some p' \<and> fits c p'"
    using csum_values(1) [OF _ assms(2)] by (intro st) auto
  have l4: "\<exists>p'. store_csum (?a + k) (\<lambda>p. layer4_csum sp p cp) p = Some p' \<and> fits c p'" if "k < 32" for k
    using csum_values(2) [OF _ assms(2)] that by (intro st) auto
  have off: "k < 32" if "csum_offset (cp_hdr_proto cp) = Some k" for k using that by (auto simp: csum_offset_def split: if_splits)
  note addr = header_addr_fits [OF assms(1) idx]
  show ?thesis
  proof (cases "cp_hdr_proto cp = PROTO_ID_IPv4 \<or> cp_hdr_proto cp = PROTO_ID_ICMPv4")
    case True
    thus ?thesis using addr ip icmp by (auto simp: checksum_compute_def)
  next
    case False
    show ?thesis
    proof (cases "csum_offset (cp_hdr_proto cp)")
      case None
      thus ?thesis using False addr assms(1) by (simp add: checksum_compute_def)
    next
      case (Some k)
      thus ?thesis using False addr l4 [OF off [OF Some]] by (simp add: checksum_compute_def)
    qed
  qed
qed

lemma checksum_verify_total:
  assumes "fits c p" "csum_ok c cp"
  shows "\<exists>r. checksum_verify sp p cp = Some r"
proof -
  obtain x y z where "ipv4_header_csum p (unat (hstart (headers p ! cp_hdr_idx cp))) = Some x" "icmpv4_csum p cp = Some y" "layer4_csum sp p cp = Some z"
    using checksum_parts(2) [OF assms] csum_values [OF assms] by blast
  with header_addr_fits [OF assms(1)] assms(2) show ?thesis by (auto simp: checksum_verify_def csum_ok_def)
qed

lemma linear_total:
  assumes "0 < length (headers p)" "length (headers p) \<le> 20"
  shows "\<exists>x. packet_is_linear p = Some x"
proof -
  have "\<exists>x. linear_loop hs n i = Some x" if "n < length hs" for hs n i
    using that by (induction hs n i rule: linear_loop.induct) (subst linear_loop.simps, auto)
  moreover have "unat (of_nat (length (headers p)) - 1 :: u32) < length (headers p)"
  proof -
    have n: "unat (of_nat (length (headers p)) :: u32) = length (headers p)"
      using assms(2) by (simp add: unsigned_of_nat take_bit_nat_eq_self)
    hence "of_nat (length (headers p)) \<noteq> (0 :: u32)" using assms(1) by (metis less_irrefl unsigned_0)
    from unat_minus_one [OF this] n assms(1) show ?thesis by simp
  qed
  ultimately show ?thesis by (simp add: packet_is_linear_def)
qed

lemma oam_total:
  assumes "fits c p" "stack_ok c st si"
  shows "\<exists>x. packet_is_oam p st si = Some x"
proof (cases st)
  case (Some stack)
  have ok: "stack \<noteq> []" "rtag_index si < length (hc_lens c)" "last_index si < length (hc_lens c)" "1 < length (hc_lens c)" "ethertype_offset si < 63"
    using assms(2) Some by (auto simp: stack_ok_def)
  note byte = hdr_byte_fits [OF assms(1)]
  obtain a where "hdr_byte p (rtag_index si) 0 = Some a" using byte [OF ok(2), of 0] by auto
  moreover obtain b where "hdr_byte p (last_index si) (ethertype_offset si) = Some b"
    using byte [OF ok(3), of "ethertype_offset si"] ok(5) by auto
  moreover obtain b' where "hdr_byte p (last_index si) (Suc (ethertype_offset si)) = Some b'"
    using byte [OF ok(3), of "Suc (ethertype_offset si)"] ok(5) by auto
  moreover obtain d where "hdr_byte p (Suc 0) 0 = Some d" using byte [of 1 0] ok(4) by auto
  moreover obtain e where "hdr_byte p 0 36 = Some e" using byte [of 0 36] ok(4) by (cases "hc_lens c") auto
  ultimately show ?thesis using Some ok(1) by (auto simp: packet_is_oam_def)
qed (auto simp: packet_is_oam_def)

lemma session_total:
  assumes "fits c p" "stack_ok c (Some stack) si"
  shows "\<exists>x. tsn_session (rtag_index si) p = Some x" "\<exists>x. dach_session p = Some x" "\<exists>x. srv6_session p = Some x"
proof -
  have ok: "rtag_index si < length (hc_lens c)" "Suc (rtag_index si) < length (hc_lens c)" "Suc 0 < length (hc_lens c)"
    using assms(2) by (auto simp: stack_ok_def)
  note byte = hdr_byte_fits [OF assms(1)]
  have byte1: "\<exists>x. hdr_byte p (Suc 0) k = Some x" if "k < 64" for k using byte [OF ok(3) that] .
  have "0 < length (hc_lens c)" using ok(1) by linarith
  hence "header_addr p 0 = Some (unat (hstart (headers p ! 0)))" "unat (hstart (headers p ! 0)) + 6 + 6 \<le> length (buf p)"
    using header_addr_fits [OF assms(1), of 0] fitsD(2) [OF assms(1)] fitsD(4) [OF assms(1), of 0] room_64 [of c 0] by auto
  moreover obtain a b d where "hdr_byte p (rtag_index si) (Suc 0) = Some a" "hdr_byte p (rtag_index si) 3 = Some b"
      "hdr_byte p (Suc (rtag_index si)) 0 = Some d"
    using byte [OF ok(1), of "Suc 0"] byte [OF ok(1), of 3] byte [OF ok(2), of 0] by auto
  ultimately show "\<exists>x. tsn_session (rtag_index si) p = Some x"
    by (simp add: tsn_session_def mem_read_def ether_ntop_def)
  obtain a b d e f where "hdr_byte p (Suc 0) (Suc 0) = Some a" "hdr_byte p (Suc 0) 4 = Some b" "hdr_byte p (Suc 0) 5 = Some d"
      "hdr_byte p (Suc 0) 6 = Some e" "hdr_byte p (Suc 0) 7 = Some f"
    using byte1 [of "Suc 0"] byte1 [of 4] byte1 [of 5] byte1 [of 6] byte1 [of 7] by auto
  thus "\<exists>x. dach_session p = Some x" by (simp add: dach_session_def Let_def)
  have "bytelength (protocol_from_id PROTO_ID_IPv6) = 40" by code_simp
  moreover obtain a b d e where "hdr_byte p (Suc 0) 23 = Some a" "hdr_byte p (Suc 0) 22 = Some b" "hdr_byte p (Suc 0) 45 = Some d"
      "hdr_byte p (Suc 0) 47 = Some e"
    using byte1 [of 23] byte1 [of 22] byte1 [of 45] byte1 [of 47] by auto
  ultimately show "\<exists>x. srv6_session p = Some x" by (simp add: srv6_session_def Let_def)
qed

lemma elim_way_total:
  assumes "fits c p" "stack_ok c st si"
  shows "\<exists>x. action_ELIM_way st si p = Some x"
proof (cases st)
  case (Some stack)
  have ok: "stack \<noteq> []" "rtag_index si < length (hc_lens c)" "0 < length (headers p)" "length (headers p) \<le> 20"
    using assms(2) Some fitsD(1) [OF assms(1)] by (auto simp: stack_ok_def)
  obtain x where "hdr_byte p (rtag_index si) 0 = Some x" using hdr_byte_fits [OF assms(1) ok(2), of 0] by auto
  moreover have "\<exists>x. if_linear p way = Some x" if "\<exists>x. way = Some x" for way
    using linear_total [OF ok(3,4)] that by (auto simp: if_linear_def)
  ultimately show ?thesis using session_total [OF assms [unfolded Some]] Some ok(1) by (auto simp: action_ELIM_way_def)
qed (simp add: action_ELIM_way_def)

lemma edit_total:
  assumes "list_all (assign_ok c) as" "fits c p"
  shows "\<exists>p'. action_EDIT_execute as p = Some (ACR_CONTINUE, p') \<and> fits c p'"
  using assms
proof (induction as arbitrary: p)
  case (Cons a as)
  let ?f = "ea_write_state a"
  obtain d where d: "field_addr ?f p = Some d" "d + field_bytes ?f \<le> length (buf p)"
    using field_ok_addr [OF Cons.prems(2), of ?f "field_bytes ?f"] Cons.prems(1) by (auto simp: assign_ok_def)
  have "\<exists>b. (case ea_read a of Some (read, st) \<Rightarrow> read st (ea_write a) ?f p | None \<Rightarrow> ea_write a ?f (ea_constant a) p)
      = Some (p\<lparr>buf := b\<rparr>) \<and> length b = length (buf p)"
  proof (cases "ea_read a")
    case None
    then obtain bs where v: "header_get_field_writer ?f (ea_constant a) = Some (ea_write a)" "vptr (ea_constant a) = VConst bs"
        "vbitoffset (ea_constant a) div 8 + field_bytes ?f \<le> length bs"
      using Cons.prems(1) by (auto simp: assign_ok_def split: value_ptr.splits)
    have "readable (ea_constant a) (length bs) (length (buf p))" using v(2) by (simp add: readable_def vget_def)
    from writer_total [OF v(1) d(1) this v(3) d(2)] None show ?thesis by simp
  next
    case (Some rs)
    then obtain st where st: "rs = (read_bytes, st)" "field_ok c st (field_bytes st)"
        "header_get_field_writer ?f \<lparr>vptr = VNull, vbitoffset = fbitoffset st mod 8, vbitcount = fbitcount st\<rparr> = Some (ea_write a)"
      using Cons.prems(1) by (cases rs) (auto simp: assign_ok_def)
    obtain e where e: "field_addr st p = Some e" "e + field_bytes st \<le> length (buf p)"
      using field_ok_addr [OF Cons.prems(2) st(2)] by metis
    let ?v = "\<lparr>vptr = VPacket e, vbitoffset = fbitoffset st mod 8, vbitcount = fbitcount st\<rparr>"
    have same: "fbitcount st = fbitcount ?f" "fbitoffset st mod 8 = fbitoffset ?f mod 8" and w: "header_get_field_writer ?f ?v = Some (ea_write a)"
      using st(3) by (auto simp: header_get_field_writer_def split: if_splits)
    have "field_bytes st = field_bytes ?f" using same by (simp add: field_bytes_def)
    moreover have "readable ?v (field_bytes st) (length (buf p))" using e(2) by (auto simp: readable_def vget_def)
    ultimately show ?thesis using writer_total [OF w d(1)] d(2) Some st(1) e(1) by (simp add: read_bytes_def)
  qed
  then obtain b where b: "(case ea_read a of Some (read, st) \<Rightarrow> read st (ea_write a) ?f p | None \<Rightarrow> ea_write a ?f (ea_constant a) p)
      = Some (p\<lparr>buf := b\<rparr>)" "length b = length (buf p)" by blast
  with Cons.IH [of "p\<lparr>buf := b\<rparr>"] Cons.prems fits_buf [OF Cons.prems(2) b(2)] show ?case by simp
qed simp

lemma field_into_u32_total:
  assumes "fits c p" "field_ok c f 4" "fbitcount f div 8 \<le> 4"
  shows "\<exists>x. field_into_u32 f p y = Some x"
proof -
  obtain a where "field_addr f p = Some a" "a + 4 \<le> length (buf p)" using field_ok_addr [OF assms(1,2)] by metis
  with assms(3) show ?thesis by (simp add: field_into_u32_def mem_read_def mem_write_def)
qed

text \<open>The reading and writing actions.\<close>

lemma meta_actions_total:
  assumes "fits c p" "field_ok c f 4"
  shows "fbitcount f div 8 \<le> 4 \<Longrightarrow> \<exists>s. action_READSEQ_execute f p = Some (ACR_CONTINUE, p\<lparr>sequence := s\<rparr>)"
    and "fbitcount f div 8 \<le> 4 \<Longrightarrow> \<exists>t. action_READTSTAMP_execute f p = Some (ACR_CONTINUE, p\<lparr>timestamp := t\<rparr>)"
    and "\<exists>b. action_WRITESEQ_execute f p = Some (ACR_CONTINUE, p\<lparr>buf := b\<rparr>) \<and> length b = length (buf p)"
    and "fbitcount f div 8 \<le> 4 \<Longrightarrow> \<exists>b. action_WRITETSTAMP_execute f p = Some (ACR_CONTINUE, p\<lparr>buf := b\<rparr>) \<and> length b = length (buf p)"
    and "fbitcount f div 8 = 4 \<Longrightarrow> \<exists>r. action_FILTEROAM_execute f p = Some (r, p)"
proof -
  obtain a h where a: "field_addr f p = Some a" "a + 4 \<le> length (buf p)" "aget (headers p) (header_idx f) = Some h"
    using field_ok_addr [OF assms] by metis
  note into = field_into_u32_total [OF assms]
  show "\<exists>s. action_READSEQ_execute f p = Some (ACR_CONTINUE, p\<lparr>sequence := s\<rparr>)" if "fbitcount f div 8 \<le> 4"
    using into [OF that, of "sequence p"] a by (auto simp: action_READSEQ_execute_def mem_read_def)
  show "\<exists>t. action_READTSTAMP_execute f p = Some (ACR_CONTINUE, p\<lparr>timestamp := t\<rparr>)" if "fbitcount f div 8 \<le> 4"
    using into [OF that, of "timestamp p"] by (auto simp: action_READTSTAMP_execute_def)
  have wr: "\<exists>b. mem_write (buf p) a bs = Some b \<and> length b = length (buf p)" if "length bs \<le> 4" for bs
    using a(2) that by (auto simp: mem_write_def)
  show "\<exists>b. action_WRITESEQ_execute f p = Some (ACR_CONTINUE, p\<lparr>buf := b\<rparr>) \<and> length b = length (buf p)"
  proof (cases "htype h = PROTO_ID_IPv6")
    case True
    let ?src = "bytes_of_u32 (sequence p)"
    obtain b where "mem_write (buf p) a [(buf p ! a AND 0xf1) OR (?src ! 0 AND 0x0f), ?src ! 1, ?src ! 2, ?src ! 3] = Some b" "length b = length (buf p)"
      using wr [of "[(buf p ! a AND 0xf1) OR (?src ! 0 AND 0x0f), ?src ! 1, ?src ! 2, ?src ! 3]"] by auto
    with a True show ?thesis by (intro exI [of _ b]) (simp add: action_WRITESEQ_execute_def Let_def)
  next
    case False
    obtain b where "mem_write (buf p) a (bytes_of_u32 (sequence p)) = Some b" "length b = length (buf p)"
      using wr [of "bytes_of_u32 (sequence p)"] by auto
    with a False show ?thesis by (intro exI [of _ b]) (simp add: action_WRITESEQ_execute_def Let_def)
  qed
  show "\<exists>b. action_WRITETSTAMP_execute f p = Some (ACR_CONTINUE, p\<lparr>buf := b\<rparr>) \<and> length b = length (buf p)" if "fbitcount f div 8 \<le> 4"
    using wr [of "take (fbitcount f div 8) (bytes_of_u32 (timestamp p))"] a that by (auto simp: action_WRITETSTAMP_execute_def mem_read_def)
  show "\<exists>r. action_FILTEROAM_execute f p = Some (r, p)" if "fbitcount f div 8 = 4"
    using into [of 0] that by (auto simp: action_FILTEROAM_execute_def)
qed

lemma setlength_total:
  assumes "fits c p" "field_ok c (sl_field sd) 2" "sl_payload_idx sd < length (hc_lens c)"
  shows "\<exists>b. action_SETLENGTH_execute sd p = Some (ACR_CONTINUE, p\<lparr>buf := b\<rparr>) \<and> length b = length (buf p)"
proof -
  obtain a where a: "field_addr (sl_field sd) p = Some a" "a + 2 \<le> length (buf p)" using field_ok_addr [OF assms(1,2)] by metis
  with assms(3) fitsD(1) [OF assms(1)] show ?thesis
    by (simp add: action_SETLENGTH_execute_def Let_def) (metis length_list_update)
qed

lemma ttlreduce_total:
  assumes "fits c p" "field_ok c (td_field td) 1" "case td_csum td of None \<Rightarrow> True | Some cf \<Rightarrow> field_ok c cf 2"
  shows "\<exists>p'. action_TTLREDUCE_execute td p = Some (ACR_CONTINUE, p') \<and> fits c p'"
proof -
  obtain a where a: "field_addr (td_field td) p = Some a" "a + 1 \<le> length (buf p)" using field_ok_addr [OF assms(1,2)] by metis
  define t where "t = (if buf p ! a > 0 then buf p ! a - 1 else buf p ! a)"
  define p1 where "p1 = p\<lparr>buf := (buf p)[a := t], ttl := ucast t\<rparr>"
  have p1: "fits c p1" "length (buf p1) = length (buf p)" using fits_buf [OF assms(1)] by (simp_all add: p1_def)
  show ?thesis
  proof (cases "td_csum td")
    case None
    with a p1(1) show ?thesis by (intro exI [of _ p1]) (simp add: action_TTLREDUCE_execute_def Let_def t_def p1_def)
  next
    case (Some cf)
    then obtain d where d: "field_addr cf p1 = Some d" "d + 2 \<le> length (buf p)"
      using field_ok_addr [OF p1(1), of cf 2] assms(3) p1(2) by auto
    have "d < length (buf p)" "Suc d < length (buf p)" using d(2) by simp_all
    moreover have "fits c (p1\<lparr>buf := (buf p1)[d := x, Suc d := y]\<rparr>)" for x y by (rule fits_buf [OF p1(1)]) simp
    ultimately show ?thesis using a d(1) Some p1(1)
      by (auto simp: action_TTLREDUCE_execute_def Let_def t_def [symmetric] p1_def)
  qed
qed

lemma add_total:
  assumes "fits c p" "unat (add_idx ad) \<le> length (hc_lens c)" "length (hc_lens c) < PACKET_MAX_HEADER_NUM" "hc_scratch c + unat (add_len ad) < 1024"
  shows "fits \<lparr>hc_lens = take (unat (add_idx ad)) (hc_lens c) @ [unat (add_len ad)] @ drop (unat (add_idx ad)) (hc_lens c),
      hc_scratch = hc_scratch c + unat (add_len ad)\<rparr> (snd (action_ADD_execute ad p))"
proof -
  let ?k = "unat (add_idx ad)" and ?h = "\<lparr>htype = add_type ad, hstart = of_int (uint (scratch_len p)), hlen = add_len ad\<rparr>"
  have f: "list_all2 header_fits (headers p) (hc_lens c)" "unat (scratch_len p) \<le> hc_scratch c" "1024 \<le> unat (pstart p)"
    using assms(1) by (auto simp: fits_def)
  note len = list_all2_lengthD [OF f(1)]
  have sum: "unat (scratch_len p + add_len ad) = unat (scratch_len p) + unat (add_len ad)"
    using f(2) assms(4) by (intro unat_plus_simple [THEN iffD1] no_olen_add_nat [THEN iffD2]) simp
  hence "\<not> pstart p \<le> scratch_len p + add_len ad" using f(2,3) assms(4) by (simp add: word_le_nat_alt)
  hence add: "packet_add_header p (add_idx ad) (add_type ad) (add_len ad)
      = (True, p\<lparr>scratch_len := scratch_len p + add_len ad, headers := take ?k (headers p) @ [?h] @ drop ?k (headers p)\<rparr>)"
    using assms(2,3) len by (simp add: packet_add_header_def scratch_alloc_def)
  have "header_fits ?h (unat (add_len ad))" using f(2) assms(4) by (simp add: header_fits_def PACKET_BUF_LEN_def)
  hence "list_all2 header_fits (take ?k (headers p) @ [?h] @ drop ?k (headers p)) (take ?k (hc_lens c) @ [unat (add_len ad)] @ drop ?k (hc_lens c))"
    using list_all2_takeI [OF f(1)] list_all2_dropI [OF f(1)] by (intro list_all2_appendI) auto
  thus ?thesis using assms(1) sum f(2) add by (simp add: fits_def action_ADD_execute_def)
qed

lemma del_total:
  assumes "fits c p" "unat idx < length (hc_lens c)"
  shows "fits (c\<lparr>hc_lens := take (unat idx) (hc_lens c) @ drop (unat idx + 1) (hc_lens c)\<rparr>) (snd (action_DEL_execute idx p))"
  using assms fitsD(1) [OF assms(1)] unfolding fits_def
  by (auto simp: action_DEL_execute_def packet_del_header_def intro!: list_all2_appendI list_all2_takeI list_all2_dropI)

section \<open>Checked pipelines run\<close>

text \<open>The objects have their types and the recovery objects are well-formed.\<close>

definition world_ok :: "(nat \<Rightarrow> PipelineObjectType option) \<Rightarrow> world \<Rightarrow> bool" where
  "world_ok \<Gamma> w \<longleftrightarrow> kinds w = \<Gamma> \<and> (\<forall>i rec recs. objects w i = Some (PIPEOBJ_SEQREC rec recs) \<longrightarrow> rcvy_inv rec)"

lemma world_okD: "world_ok \<Gamma> w \<Longrightarrow> \<Gamma> i = Some k \<Longrightarrow> \<exists>obj. objects w i = Some obj \<and> object_type obj = k"
  by (auto simp: world_ok_def kinds_def)

lemma world_ok_simps [simp]:
  "world_ok \<Gamma> (emit e w) = world_ok \<Gamma> w" "world_ok \<Gamma> (next_step w) = world_ok \<Gamma> w" "world_ok \<Gamma> (with_psys s w) = world_ok \<Gamma> w"
  "world_ok \<Gamma> (count_error err w) = world_ok \<Gamma> w" "world_ok \<Gamma> (pipeline_ref i w) = world_ok \<Gamma> w" "world_ok \<Gamma> (w\<lparr>pipe_refs := f\<rparr>) = world_ok \<Gamma> w"
  by (auto simp: world_ok_def kinds_def emit_def next_step_def with_psys_def count_error_def pipeline_ref_def split: option.splits)

lemma world_ok_set:
  "world_ok \<Gamma> w \<Longrightarrow> \<Gamma> i = Some (object_type obj) \<Longrightarrow> (\<And>rec recs. obj = PIPEOBJ_SEQREC rec recs \<Longrightarrow> rcvy_inv rec) \<Longrightarrow> world_ok \<Gamma> (set_object i obj w)"
  by (auto simp: world_ok_def kinds_def set_object_def)

lemma seq_recovery_total:
  assumes "rcvy_inv rec"
  shows "\<exists>r rec'. seq_recovery rec p = Some (r, rec') \<and> rcvy_inv rec'"
proof -
  have "recovery_step p rec (ntohl (sequence p)) = map_option (\<lambda>(r, rec'). (r = ACR_CONTINUE, rec')) (seq_recovery rec p)"
    by (simp add: recovery_step_def htonl_def ntohl_def)
  with recovery_step_counts [OF assms, of p "ntohl (sequence p)"] show ?thesis by auto
qed

lemma process_packet_total:
  assumes "world_ok \<Gamma> w" "\<Gamma> i = Some k"
  shows "\<exists>r p w'. process_packet env i pi w = Some (r, p, w') \<and> world_ok \<Gamma> w' \<and> (fits c (it_packet pi) \<longrightarrow> fits c p)"
proof -
  obtain obj where obj: "objects w i = Some obj" "object_type obj = k" using world_okD [OF assms] by blast
  show ?thesis
  proof (cases obj)
    case (PIPEOBJ_SEQGEN gen)
    with obj assms show ?thesis
      by (auto simp: process_packet_def seq_generator_def intro: world_ok_set split: prod.splits)
  next
    case (PIPEOBJ_SEQREC rec recs)
    hence "rcvy_inv rec" using assms(1) obj by (auto simp: world_ok_def)
    from seq_recovery_total [OF this, of "it_packet pi"] PIPEOBJ_SEQREC obj assms show ?thesis
      by (auto simp: process_packet_def intro!: world_ok_set)
  next
    case (PIPEOBJ_POF pof)
    with obj assms show ?thesis
      by (auto simp: process_packet_def Let_def intro: world_ok_set split: prod.splits)
  next
    case (PIPEOBJ_REPL rep)
    with obj assms show ?thesis
      by (auto simp: process_packet_def Let_def replicate_packet_passed_def intro: world_ok_set)
  qed
qed

text \<open>An action accepted by the check succeeds and leaves a packet that fits the context behind it.\<close>

lemma elim_total:
  assumes "fits c (it_packet pi)" "stack_ok c st si" "\<Gamma> i = Some OBJ_SEQREC" "world_ok \<Gamma> w"
  shows "\<exists>r p w'. action_ELIM_execute env i st si pi w = Some (r, p, w') \<and> fits c p \<and> world_ok \<Gamma> w'"
proof -
  obtain way where way: "action_ELIM_way st si (it_packet pi) = Some way" using elim_way_total [OF assms(1,2)] by blast
  obtain rec recs where obj: "objects w i = Some (PIPEOBJ_SEQREC rec recs)"
    using world_okD [OF assms(4,3)] by (metis PipelineObjectType.distinct object_type.elims)
  hence inv: "rcvy_inv rec" using assms(4) by (auto simp: world_ok_def)
  show ?thesis
  proof (cases way)
    case (ELIM_OAM session seq)
    with way obj inv assms(1,3,4) show ?thesis
      by (auto simp: action_ELIM_execute_def split: prod.splits intro!: world_ok_set)
  next
    case ELIM_DATA
    with way process_packet_total [OF assms(4,3), of env pi c] assms(1) show ?thesis by (auto simp: action_ELIM_execute_def)
  qed (use way assms(1,4) in \<open>simp add: action_ELIM_execute_def\<close>)
qed

lemma execute_total:
  assumes "check_basic \<Gamma> c a = Some c'" and fp: "fits c (it_packet pi)" and "world_ok \<Gamma> w"
  shows "\<exists>r p w'. execute env a pi w = Some (r, p, w') \<and> fits c' p \<and> world_ok \<Gamma> w'"
proof (cases a)
  case (ActChecksum cp)
  with assms checksum_compute_total [OF fp, of cp "stack_at env (step_no w)"] show ?thesis by (auto simp: keep_world_def action_CHECKSUM_execute_def split: if_splits)
next
  case (ActEdit as)
  with assms edit_total [OF _ fp, of as] show ?thesis by (auto simp: keep_world_def split: if_splits)
next
  case (ActFilterOam f)
  with assms meta_actions_total(5) [OF fp, of f] show ?thesis by (auto simp: keep_world_def split: if_splits)
next
  case (ActOamReceive mp st si)
  with assms oam_total [OF fp, of "Some st" si] show ?thesis by (auto simp: keep_world_def action_OAMRECEIVE_execute_def split: if_splits)
next
  case (ActReadSeq f)
  with assms meta_actions_total(1) [OF fp, of f] show ?thesis by (auto simp: keep_world_def split: if_splits)
next
  case (ActReadTstamp f)
  with assms meta_actions_total(2) [OF fp, of f] show ?thesis by (auto simp: keep_world_def split: if_splits)
next
  case (ActWriteSeq f)
  with assms meta_actions_total(3) [OF fp, of f] fits_buf [OF fp] show ?thesis by (auto simp: keep_world_def split: if_splits)
next
  case (ActWriteTstamp f)
  with assms meta_actions_total(4) [OF fp, of f] fits_buf [OF fp] show ?thesis by (auto simp: keep_world_def split: if_splits)
next
  case (ActSetlength sd)
  with assms setlength_total [OF fp, of sd] fits_buf [OF fp] show ?thesis by (auto simp: keep_world_def split: if_splits)
next
  case (ActTtlreduce td)
  with assms ttlreduce_total [OF fp, of td] show ?thesis by (auto simp: keep_world_def split: if_splits)
next
  case (ActVerify cp)
  with assms checksum_verify_total [OF fp, of cp "stack_at env (step_no w)"] show ?thesis by (auto simp: keep_world_def action_VERIFY_execute_def split: if_splits)
next
  case (ActAdd ad)
  with assms add_total [OF fp, of ad] show ?thesis by (auto simp: keep_world_def split: if_splits)
next
  case (ActDel idx)
  with assms del_total [OF fp, of idx] show ?thesis by (auto simp: keep_world_def split: if_splits)
next
  case (ActElim i st si)
  with assms elim_total [OF fp, of st si \<Gamma> i w env] show ?thesis by (auto simp: keep_world_def split: if_splits)
next
  case (ActPof i)
  with assms process_packet_total [OF assms(3), of i _ env pi c] show ?thesis by (auto simp: keep_world_def split: if_splits)
next
  case (ActSeqgen i)
  with assms process_packet_total [OF assms(3), of i _ env pi c] show ?thesis by (auto simp: keep_world_def split: if_splits)
qed (use assms in \<open>auto simp: keep_world_def action_DELAY_execute_def action_DROP_execute_def action_OAMINJECT_execute_def
  action_TTLCHECK_execute_def Let_def\<close>)

lemma assign_ok_wf: "assign_ok c a \<Longrightarrow> assign_wf a"
  by (auto simp: assign_ok_def assign_wf_def header_get_field_writer_def split: option.splits if_splits)

lemma checked_wf:
  shows "check_actions \<Gamma> c acts \<Longrightarrow> list_all action_wf acts" "check_pipe \<Gamma> c b \<Longrightarrow> pipe_wf b"
proof (induction \<Gamma> c acts and \<Gamma> c b rule: check_actions_check_pipe.induct)
  case (2 \<Gamma> c a as)
  have "basic_wf a" if "check_basic \<Gamma> c a = Some c'" for c'
    using that by (cases a) (auto split: if_splits simp: list_all_iff dest: assign_ok_wf)
  with 2 show ?case by (auto split: option.splits)
qed (auto simp: list_all_iff)

lemma packet_logcat_total:
  assumes wf: "log_wf (logbuf p)"
  shows "\<exists>b. packet_logcat p msg = Some (p\<lparr>logbuf := b\<rparr>) \<and> log_wf b"
proof (cases "logbuf p ! 254 = CHR 0x00")
  case True
  show ?thesis unfolding packet_logcat_result [OF wf True]
    by (intro exI conjI refl) (auto simp: log_wf_def PACKET_LOG_BUF_SIZE_def nth_append min_def)
next
  case False
  hence "packet_logcat p msg = Some (p\<lparr>logbuf := logbuf p\<rparr>)"
    using wf by (simp add: packet_logcat_def log_wf_def PACKET_LOG_BUF_SIZE_def)
  with wf show ?thesis by blast
qed

lemma log_action_total:
  assumes "fits c p"
  shows "\<exists>p1. log_action env a p = Some p1 \<and> fits c p1"
  using packet_logcat_total [OF fitsD(3) [OF assms], of "action_name_from_type (action_type a) @ '' ''"] assms
  by (auto simp: log_action_def fits_def)

lemma copy_packet_total:
  assumes "fits c p" "length mem = PACKET_BUF_LEN"
  shows "\<exists>q s'. copy_packet mem p s = Some (q, s') \<and> fits c q"
  using assms by (auto simp: copy_packet_def mem_read_def mem_write_def fits_def)

lemma delete_iterator_total:
  assumes "world_ok \<Gamma> w" "1 < pipe_refs w (pipe_id pipe)"
  shows "\<exists>w'. delete_iterator pipe po w = Some w' \<and> world_ok \<Gamma> w'"
  using assms by (simp add: delete_iterator_def pipeline_unref_alive)

lemma run_total:
  "check_actions \<Gamma> c acts \<Longrightarrow> fits c p \<Longrightarrow> world_ok \<Gamma> w \<Longrightarrow> alive (acts_ids acts) (acts_repls acts) w \<Longrightarrow> 1 < pipe_refs w (pipe_id pipe) \<Longrightarrow>
     \<forall>k. length (mem_at env k) = PACKET_BUF_LEN \<Longrightarrow> \<exists>w'. run_actions env pipe pos acts p w = Some w' \<and> world_ok \<Gamma> w'"
  "list_all (check_pipe \<Gamma> c) bs \<Longrightarrow> fits c p \<Longrightarrow> stack_ok c st si \<Longrightarrow> world_ok \<Gamma> w \<Longrightarrow> alive (pipes_ids bs) (pipes_repls bs) w \<Longrightarrow>
     \<forall>k. length (mem_at env k) = PACKET_BUF_LEN \<Longrightarrow> \<exists>w'. run_branches env bs st si p oam w = Some w' \<and> world_ok \<Gamma> w'"
  "check_pipe \<Gamma> c b \<Longrightarrow> fits c p \<Longrightarrow> world_ok \<Gamma> w \<Longrightarrow> alive (pipe_ids b) (pipe_repls b) w \<Longrightarrow>
     \<forall>k. length (mem_at env k) = PACKET_BUF_LEN \<Longrightarrow> \<exists>w'. run_pipe env b p w = Some w' \<and> world_ok \<Gamma> w'"
proof (induction env pipe pos acts p w and env bs st si p oam w and env b p w arbitrary: c and c and c
    rule: run_actions_run_branches_run_pipe.induct)
  case (1 env pipe pos p w)
  thus ?case using delete_iterator_total by simp
next
  case (2 env pipe pos a as p w)
  obtain p1 where p1: "log_action env a p = Some p1" "fits c p1" using log_action_total [OF "2.prems"(2)] by blast
  let ?pi = "\<lparr>it_packet = p1, it_pipe = pipe, it_pos = pos\<rparr>"
  show ?case
  proof (cases a)
    case (Act b)
    then obtain c' where c': "check_basic \<Gamma> c b = Some c'" "check_actions \<Gamma> c' as" using "2.prems"(1) by (auto split: option.splits)
    obtain r p2 w1 where ex: "execute env b ?pi w = Some (r, p2, w1)" and ok: "fits c' p2" "world_ok \<Gamma> w1"
      using execute_total [OF c'(1), of ?pi w env] p1(2) "2.prems"(3) by auto
    have wf: "basic_wf b" using checked_wf(1) [OF "2.prems"(1)] Act by simp
    note step = step_spends(4,5) [OF ex wf]
    have al: "alive (acts_ids as) (acts_repls as) (next_step w1)" and refs: "1 < pipe_refs (next_step w1) (pipe_id pipe)"
      and w1: "world_ok \<Gamma> (next_step w1)" using "2.prems"(4,5) step ok by (auto simp: alive_def)
    show ?thesis
    proof (cases r)
      case ACR_CONTINUE
      from "2.IH"(1) [OF p1(1) refl Act ex refl refl ACR_CONTINUE c'(2) ok(1) w1 al refs "2.prems"(6)] Act ex p1 ACR_CONTINUE
      show ?thesis by simp
    next
      case ACR_DONE
      with Act ex p1 delete_iterator_total [OF w1 refs] show ?thesis by simp
    qed (use Act ex p1 ok in simp)
  next
    case (ActRepl pipes ro st si)
    have chk: "\<forall>i \<in> set_option ro. \<Gamma> i = Some OBJ_REPL" "stack_ok c st si" "list_all (check_pipe \<Gamma> c) pipes" "pipes \<noteq> []"
      using "2.prems"(1) ActRepl by simp_all
    obtain w1 where w1: "(case ro of None \<Rightarrow> Some w | Some i \<Rightarrow> map_option (\<lambda>(r, p, w). w) (process_packet env i ?pi w)) = Some w1" "world_ok \<Gamma> w1"
      using process_packet_total [OF "2.prems"(3), of _ OBJ_REPL env ?pi c] "2.prems"(3) chk(1) by (cases ro) fastforce+
    have "\<forall>i \<in> set_option ro. kinds w i = Some OBJ_REPL" using chk(1) "2.prems"(3) by (auto simp: world_ok_def)
    note obj = repl_object_spends [OF w1(1) this]
    have al: "alive (pipes_ids pipes) (pipes_repls pipes) (next_step w1)"
      using "2.prems"(4) obj(2,3) ActRepl by (auto simp: alive_def)
    obtain w2 where w2: "run_branches env pipes st si p1 None (next_step w1) = Some w2" "world_ok \<Gamma> w2"
      using "2.IH"(2) [OF p1(1) refl ActRepl w1(1) chk(3) p1(2) chk(2) _ al "2.prems"(6)] w1(2) by auto
    have "list_all pipe_wf pipes" using chk(3) checked_wf(2) by (auto simp: list_all_iff)
    from run_spends(2) [OF w2(1) chk(4) this al] have "spends None (packet_cost p1) w1 w2" by simp
    from spends_pipe_refs [OF this, of "pipe_id pipe"] have "1 < pipe_refs w2 (pipe_id pipe)" using obj(2) "2.prems"(5) by simp
    with delete_iterator_total [OF w2(2), of pipe None] ActRepl p1(1) w1(1) w2(1) show ?thesis by simp
  qed
next
  case (4 env b bs st si p is_oam w)
  obtain oam where oam: "(if pipe_mask w (pipe_id b) then case is_oam of None \<Rightarrow> map_option Some (packet_is_oam p st si) | Some x \<Rightarrow> Some (Some x)
      else Some is_oam) = Some oam" using oam_total [OF "4.prems"(2,3)] by (cases "pipe_mask w (pipe_id b)"; cases is_oam) auto
  have al: "alive (pipes_ids bs) (pipes_repls bs) w" "alive (pipe_ids b) (pipe_repls b) w"
    using "4.prems"(5) by (auto simp: alive_def)
  have chk: "list_all (check_pipe \<Gamma> c) bs" "check_pipe \<Gamma> c b" using "4.prems"(1) by simp_all
  show ?case
  proof (cases "pipe_mask w (pipe_id b) \<and> oam = Some False")
    case True
    with oam "4.IH"(1) [OF oam True _ chk(1) "4.prems"(2-4) al(1) "4.prems"(6)] "4.prems"(4) show ?thesis by auto
  next
    case through: False
    show ?thesis
    proof (cases "bs = []")
      case True
      with oam through "4.IH"(2) [OF oam through True chk(2) "4.prems"(2,4) al(2) "4.prems"(6)] show ?thesis by auto
    next
      case False
      obtain q s where q: "copy_packet (mem_at env (step_no w)) p (psys w) = Some (q, s)" "fits c q"
        using copy_packet_total [OF "4.prems"(2)] "4.prems"(6) by blast
      obtain w1 where w1: "run_pipe env b q (with_psys s w) = Some w1" "world_ok \<Gamma> w1"
        using "4.IH"(3) [OF oam through False q(1) refl chk(2) q(2) _ _ "4.prems"(6)] "4.prems"(4) al(2) by auto
      have "spends None 0 w w1"
        using run_spends(3) [OF w1(1) checked_wf(2) [OF chk(2)]] al(2) copy_packet_spends(1) [OF q(1)]
        by (intro copy_packet_spends(2) [OF q(1)]) simp
      from "4.IH"(4) [OF oam through False q(1) refl w1(1) chk(1) "4.prems"(2,3) w1(2) alive_spends [OF al(1) this] "4.prems"(6)]
      show ?thesis using oam through False q(1) w1(1) by auto
    qed
  qed
next
  case (5 env i name acts p w)
  have "alive (acts_ids acts) (acts_repls acts) (pipeline_ref i w)" "1 < pipe_refs (pipeline_ref i w) i"
    using "5.prems"(4) by (auto simp: alive_def pipeline_ref_def kinds_def)
  with "5.IH" [of c] "5.prems" show ?case by simp
qed simp_all


text \<open>Tagging and replicating: a sequence tag is added, numbered, written, and two branches take the packet.\<close>

definition tag_pipe :: Pipeline where
  "tag_pipe = Pipeline 0 ''tag'' [Act (ActAdd \<lparr>add_idx = 1, add_type = PROTO_ID_RTAG, add_len = 6\<rparr>), Act (ActSeqgen 0),
     Act (ActWriteSeq (sample_field 1 16 32)),
     ActRepl [Pipeline 1 ''a'' [Act (ActSend 7)], Pipeline 2 ''b'' [Act (ActSend 8)]] (Some 1) None \<lparr>rtag_index = 0, last_index = 0, ethertype_offset = 0\<rparr>]"

definition tag_world :: world where
  "tag_world = sample_world\<lparr>objects := [0 \<mapsto> PIPEOBJ_SEQGEN (new_seq_gen True True 0), 1 \<mapsto> PIPEOBJ_REPL new_replicate]\<rparr>"

definition tag_env :: run_env where
  "tag_env = sample_env\<lparr>mem_at := (\<lambda>_. replicate PACKET_BUF_LEN 0)\<rparr>"


end
