(* ===== verification/Parsetree.thy ===== *)
theory Parsetree
  imports Pipeline_Safety
begin

text \<open>
  The classification of received packets (\<^verbatim>\<open>src/parsetree.c\<close>).  A parse tree is a list of streams, each with the headers
  its packets have, conditions on their fields, and a pipeline.  The theory holds the operations of the tree, an abstract classifier over the
  bytes of a packet, and the refinement between the two.

  The tree registers itself as a source of notifications, which only reads the counters; the registration is left out.
\<close>

section \<open>Streams and trees\<close>

record Stream =
  st_headers :: "HeaderDescriptor list"
  st_pipe :: Pipeline
  match_packets :: u64
  match_octets :: u64

record ParseTree =
  pt_iface :: nat
  pt_streams :: "Stream list"
  nomatch_packets :: u64
  nomatch_octets :: u64

definition new_stream :: "HeaderDescriptor list \<Rightarrow> Pipeline \<Rightarrow> world \<Rightarrow> (Stream \<times> world) option" where
  "new_stream hs pipe w =
     do { hs' \<leftarrow> copy_header_list hs True;
          Some (\<lparr>st_headers = hs', st_pipe = pipe, match_packets = 0, match_octets = 0\<rparr>, pipeline_ref (pipe_id pipe) w) }"

definition delete_stream :: "Stream \<Rightarrow> world \<Rightarrow> world option" where
  "delete_stream s w = pipeline_unref (st_pipe s) w"

definition new_parsetree :: "nat \<Rightarrow> ParseTree" where
  "new_parsetree iface = \<lparr>pt_iface = iface, pt_streams = [], nomatch_packets = 0, nomatch_octets = 0\<rparr>"

fun delete_streams :: "Stream list \<Rightarrow> world \<Rightarrow> world option" where
  "delete_streams [] w = Some w"
| "delete_streams (s # ss) w = do { w1 \<leftarrow> delete_stream s w; delete_streams ss w1 }"

definition delete_parsetree :: "ParseTree option \<Rightarrow> world \<Rightarrow> world option" where
  "delete_parsetree pt w = (case pt of None \<Rightarrow> Some w | Some t \<Rightarrow> delete_streams (pt_streams t) w)"

definition parsetree_empty :: "ParseTree \<Rightarrow> bool" where
  "parsetree_empty pt = (pt_streams pt = [])"

abbreviation stream_name :: "Stream \<Rightarrow> string" where
  "stream_name s \<equiv> pipe_name (st_pipe s)"

definition parsetree_add_stream :: "ParseTree \<Rightarrow> HeaderDescriptor list \<Rightarrow> Pipeline \<Rightarrow> world \<Rightarrow> (bool \<times> ParseTree \<times> world) option" where
  "parsetree_add_stream pt hs pipe w =
     (if list_ex (\<lambda>s. stream_name s = pipe_name pipe) (pt_streams pt) then Some (False, pt, w)
      else do { (s, w1) \<leftarrow> new_stream hs pipe w; Some (True, pt\<lparr>pt_streams := pt_streams pt @ [s]\<rparr>, w1) })"

text \<open>Unlinking the first stream with a name.\<close>

fun unlink_stream :: "Stream list \<Rightarrow> string \<Rightarrow> (Stream \<times> Stream list) option" where
  "unlink_stream [] name = None"
| "unlink_stream (s # ss) name =
     (if stream_name s = name then Some (s, ss)
      else map_option (\<lambda>(d, ss'). (d, s # ss')) (unlink_stream ss name))"

definition parsetree_del_stream :: "ParseTree \<Rightarrow> string \<Rightarrow> world \<Rightarrow> (bool \<times> ParseTree \<times> world) option" where
  "parsetree_del_stream pt name w =
     (case unlink_stream (pt_streams pt) name of
        None \<Rightarrow> Some (False, pt, w)
      | Some (d, ss) \<Rightarrow> do { w1 \<leftarrow> delete_stream d w; Some (True, pt\<lparr>pt_streams := ss\<rparr>, w1) })"

text \<open>The old pipeline is released before the new one is taken.\<close>

fun replace_stream :: "Stream list \<Rightarrow> HeaderDescriptor list \<Rightarrow> Pipeline \<Rightarrow> world \<Rightarrow> (bool \<times> Stream list \<times> world) option" where
  "replace_stream [] hs pipe w = Some (False, [], w)"
| "replace_stream (s # ss) hs pipe w =
     (if stream_name s = pipe_name pipe
      then do { w1 \<leftarrow> pipeline_unref (st_pipe s) w;
                hs' \<leftarrow> copy_header_list hs True;
                Some (True, s\<lparr>st_headers := hs', st_pipe := pipe\<rparr> # ss, pipeline_ref (pipe_id pipe) w1) }
      else do { (ok, ss', w1) \<leftarrow> replace_stream ss hs pipe w; Some (ok, s # ss', w1) })"

definition parsetree_replace_stream :: "ParseTree \<Rightarrow> HeaderDescriptor list \<Rightarrow> Pipeline \<Rightarrow> world \<Rightarrow> (bool \<times> ParseTree \<times> world) option" where
  "parsetree_replace_stream pt hs pipe w =
     do { (ok, ss, w1) \<leftarrow> replace_stream (pt_streams pt) hs pipe w; Some (ok, pt\<lparr>pt_streams := ss\<rparr>, w1) }"

section \<open>Identifying a packet\<close>

fun parsetree_match_header :: "HeaderMatch list \<Rightarrow> Packet \<Rightarrow> bool option" where
  "parsetree_match_header [] p = Some True"
| "parsetree_match_header (f # fs) p =
     do { eq \<leftarrow> hm_comparator f (hm_field f) (hm_value f) p;
          if eq = hm_neg f then Some False else parsetree_match_header fs p }"

text \<open>The loop over the headers of a stream; on a full match it returns the offset behind the last header.\<close>

fun identify_headers :: "HeaderDescriptor list \<Rightarrow> u32 \<Rightarrow> Packet \<Rightarrow> (u32 option \<times> Packet) option" where
  "identify_headers [] offset p = Some (Some offset, p)"
| "identify_headers (h # hs) offset p =
     (let len = of_nat (bytelength (protocol_from_id (hd_id h)));
          (ok, p1) = packet_identify_header p (hd_id h) offset len
      in if \<not> ok then Some (None, packet_clear_headers p1)
         else do { m \<leftarrow> parsetree_match_header (hd_matches h) p1;
                   if \<not> m then Some (None, packet_clear_headers p1)
                   else identify_headers hs (offset + len) p1 })"

fun identify_streams :: "Stream list \<Rightarrow> Packet \<Rightarrow> ((nat \<times> u32) option \<times> Packet) option" where
  "identify_streams [] p = Some (None, p)"
| "identify_streams (s # ss) p =
     do { (r, p1) \<leftarrow> identify_headers (st_headers s) 0 p;
          case r of
            Some offset \<Rightarrow> Some (Some (0, offset), p1)
          | None \<Rightarrow> do { (r', p2) \<leftarrow> identify_streams ss p1; Some (map_option (\<lambda>(i, offset). (Suc i, offset)) r', p2) } }"

fun log_texts :: "run_env \<Rightarrow> string list \<Rightarrow> Packet \<Rightarrow> Packet option" where
  "log_texts env [] p = Some p"
| "log_texts env (t # ts) p = do { p1 \<leftarrow> (if packet_trace env then packet_logcat p t else Some p); log_texts env ts p1 }"

definition count_match :: "Packet \<Rightarrow> Stream \<Rightarrow> Stream" where
  "count_match p s = s\<lparr>match_packets := match_packets s + 1, match_octets := match_octets s + ucast (packet_length p)\<rparr>"

definition parsetree_identify :: "run_env \<Rightarrow> ParseTree \<Rightarrow> Packet \<Rightarrow> world \<Rightarrow> (PipelineIterator option \<times> Packet \<times> ParseTree \<times> world) option" where
  "parsetree_identify env pt p w =
     do { (r, p1) \<leftarrow> identify_streams (pt_streams pt) p;
          case r of
            None \<Rightarrow>
              do { p2 \<leftarrow> log_texts env [''unknown stream''] p1;
                   Some (None, p2, pt\<lparr>nomatch_packets := nomatch_packets pt + 1, nomatch_octets := nomatch_octets pt + ucast (plen p2)\<rparr>, w) }
          | Some (i, offset) \<Rightarrow>
              do { let (_, p2) = packet_identify_header p1 PROTO_ID_PAYLOAD offset (plen p1 - offset);
                   let s = pt_streams pt ! i;
                   p3 \<leftarrow> log_texts env ([stream_name s @ '' ''] @ map (\<lambda>h. ''|'' @ pname (protocol_from_id (htype h))) (headers p2) @ [''| '']) p2;
                   let (it, w1) = new_pipe_iterator (st_pipe s) p3 w;
                   Some (Some it, p3, pt\<lparr>pt_streams := (pt_streams pt)[i := count_match p3 s]\<rparr>, w1) } }"

section \<open>The classifier\<close>

text \<open>
  What a tree means, over the bytes of a packet alone.  A constraint asks for bits at a position, or for their
  absence; a packet belongs to a stream when it is long enough for its headers and all its constraints hold.  The first stream of the list wins.
\<close>

type_synonym bit_constraint = "nat \<times> bool list \<times> bool"

record stream_spec =
  sp_protos :: "ProtocolID list"
  sp_constraints :: "bit_constraint list"

abbreviation proto_len :: "ProtocolID \<Rightarrow> nat" where
  "proto_len i \<equiv> bytelength (protocol_from_id i)"

definition protos_len :: "ProtocolID list \<Rightarrow> nat" where
  "protos_len ids = sum_list (map proto_len ids)"

definition bits_at :: "u8 list \<Rightarrow> nat \<Rightarrow> nat \<Rightarrow> bool list" where
  "bits_at bs pos n = map (hbit bs) [pos ..< pos + n]"

definition constraint_holds :: "u8 list \<Rightarrow> bit_constraint \<Rightarrow> bool" where
  "constraint_holds bs c = (case c of (pos, bits, neg) \<Rightarrow> (bits_at bs pos (length bits) = bits) \<noteq> neg)"

definition belongs :: "u8 list \<Rightarrow> stream_spec \<Rightarrow> bool" where
  "belongs bs s \<longleftrightarrow> protos_len (sp_protos s) \<le> length bs \<and> list_all (constraint_holds bs) (sp_constraints s)"

fun classify :: "stream_spec list \<Rightarrow> u8 list \<Rightarrow> nat option" where
  "classify [] bs = None"
| "classify (s # ss) bs = (if belongs bs s then Some 0 else map_option Suc (classify ss bs))"

text \<open>The headers of a packet that belongs to a stream: one after the other, and the payload.\<close>

fun layout :: "u32 \<Rightarrow> nat \<Rightarrow> ProtocolID list \<Rightarrow> PacketHeader list" where
  "layout start off [] = []"
| "layout start off (i # is) = \<lparr>htype = i, hstart = start + of_nat off, hlen = of_nat (proto_len i)\<rparr> # layout start (off + proto_len i) is"

definition full_layout :: "Packet \<Rightarrow> ProtocolID list \<Rightarrow> PacketHeader list" where
  "full_layout p ids = layout (pstart p) 0 ids
     @ [\<lparr>htype = PROTO_ID_PAYLOAD, hstart = pstart p + of_nat (protos_len ids), hlen = plen p - of_nat (protos_len ids)\<rparr>]"

text \<open>The meaning of streams and trees.\<close>

definition value_bits :: "Value \<Rightarrow> bool list" where
  "value_bits v = (case vptr v of VConst bs \<Rightarrow> bits_at bs (vbitoffset v) (vbitcount v) | _ \<Rightarrow> [])"

definition abs_match :: "nat \<Rightarrow> HeaderMatch \<Rightarrow> bit_constraint" where
  "abs_match off m = (8 * off + fbitoffset (hm_field m), value_bits (hm_value m), hm_neg m)"

fun abs_headers :: "nat \<Rightarrow> HeaderDescriptor list \<Rightarrow> bit_constraint list" where
  "abs_headers off [] = []"
| "abs_headers off (h # hs) = map (abs_match off) (hd_matches h) @ abs_headers (off + proto_len (hd_id h)) hs"

definition abs_stream :: "HeaderDescriptor list \<Rightarrow> stream_spec" where
  "abs_stream hs = \<lparr>sp_protos = map hd_id hs, sp_constraints = abs_headers 0 hs\<rparr>"

definition abs_tree :: "ParseTree \<Rightarrow> stream_spec list" where
  "abs_tree pt = map (\<lambda>s. abs_stream (st_headers s)) (pt_streams pt)"

text \<open>
  What the configuration compiler makes: a condition is on a field of its own header, its value is a constant and its comparator the one selected for
  field and value.  A header list leaves room for the payload.
\<close>

definition match_wf :: "nat \<Rightarrow> ProtocolID \<Rightarrow> HeaderMatch \<Rightarrow> bool" where
  "match_wf i proto m \<longleftrightarrow> header_idx (hm_field m) = i \<and> fbitoffset (hm_field m) + fbitcount (hm_field m) \<le> 8 * proto_len proto
     \<and> header_get_field_comprator (hm_field m) (hm_value m) = Some (hm_comparator m)
     \<and> (case vptr (hm_value m) of VConst bs \<Rightarrow> const_value (hm_value m) bs | _ \<Rightarrow> False)"

fun headers_wf :: "nat \<Rightarrow> HeaderDescriptor list \<Rightarrow> bool" where
  "headers_wf i [] = (i < PACKET_MAX_HEADER_NUM)"
| "headers_wf i (h # hs) = (0 < proto_len (hd_id h) \<and> list_all (match_wf i (hd_id h)) (hd_matches h) \<and> headers_wf (i + 1) hs)"

definition tree_wf :: "ParseTree \<Rightarrow> bool" where
  "tree_wf pt \<longleftrightarrow> list_all (\<lambda>s. headers_wf 0 (st_headers s)) (pt_streams pt) \<and> distinct (map stream_name (pt_streams pt))"

section \<open>The tree implements the classifier\<close>

definition received :: "Packet \<Rightarrow> u8 list" where
  "received p = take (unat (plen p)) (drop (unat (pstart p)) (buf p))"

definition spans :: "Packet \<Rightarrow> bool" where
  "spans p \<longleftrightarrow> length (buf p) = PACKET_BUF_LEN \<and> unat (pstart p) + unat (plen p) \<le> PACKET_BUF_LEN"

lemma received_hbit: "spans p \<Longrightarrow> k < 8 * unat (plen p) \<Longrightarrow> hbit (received p) k = hbit (buf p) (8 * unat (pstart p) + k)"
  by (simp add: received_def spans_def hbit_def less_mult_imp_div_less nth_append mult.commute)

lemma length_received [simp]: "spans p \<Longrightarrow> length (received p) = unat (plen p)"
  by (auto simp: received_def spans_def)

lemma bits_at_eq: "bits_at a x n = bits_at b y n \<longleftrightarrow> (\<forall>k < n. hbit a (x + k) = hbit b (y + k))"
  by (auto simp: bits_at_def list_eq_iff_nth_eq)

lemma length_bits_at [simp]: "length (bits_at a x n) = n"
  by (simp add: bits_at_def)

lemma proto_len_le: "proto_len i \<le> 40"
  by (cases i) (simp_all add: protocol_from_id_def protocol_list_def)

lemma headers_wf_count: "headers_wf i hs \<Longrightarrow> i + length hs < PACKET_MAX_HEADER_NUM"
  by (induction i hs rule: headers_wf.induct) auto

lemma protos_len_simps [simp]: "protos_len [] = 0" "protos_len (i # is) = proto_len i + protos_len is"
  by (simp_all add: protos_len_def)

lemma field_bytes_inside:
  assumes "fbitoffset t + fbitcount t \<le> 8 * n"
  shows "fbitoffset t div 8 + field_bytes t \<le> n"
proof -
  have "fbitoffset t div 8 + field_bytes t = (8 * (fbitoffset t div 8) + (fbitoffset t mod 8 + fbitcount t + 7)) div 8"
    unfolding field_bytes_def by (subst div_mult_self4) simp_all
  also have "\<dots> = (fbitoffset t + fbitcount t + 7) div 8" by (simp flip: add.assoc)
  also have "\<dots> \<le> (8 * n + 7) div 8" using assms by (intro div_le_mono) simp
  finally show ?thesis by simp
qed

text \<open>One condition.\<close>

lemma match_step:
  assumes m: "match_wf i proto m" and p: "spans p" and i: "i < length (headers p)"
    and h: "unat (hstart (headers p ! i)) = unat (pstart p) + off" "off + proto_len proto \<le> unat (plen p)"
  shows "hm_comparator m (hm_field m) (hm_value m) p = Some (constraint_holds (received p) (abs_match off m) \<noteq> hm_neg m)"
proof -
  let ?t = "hm_field m" and ?v = "hm_value m"
  obtain bs where bs: "vptr ?v = VConst bs" "vbitoffset ?v + vbitcount ?v \<le> 8 * length bs"
    using m by (auto simp: match_wf_def const_value_def split: value_ptr.splits)
  have idx: "header_idx ?t = i" and inside: "fbitoffset ?t + fbitcount ?t \<le> 8 * proto_len proto"
    and cmp: "header_get_field_comprator ?t ?v = Some (hm_comparator m)" using m by (auto simp: match_wf_def)
  have off: "vbitoffset ?v mod 8 = fbitoffset ?t mod 8" and cnt: "vbitcount ?v = fbitcount ?t"
    using cmp by (auto simp: header_get_field_comprator_def split: if_splits)
  let ?a = "unat (pstart p) + off + fbitoffset ?t div 8"
  have addr: "field_addr ?t p = Some ?a" using i h idx by (simp add: field_addr_def)
  have "fbitoffset ?t div 8 + field_bytes ?t \<le> proto_len proto" by (rule field_bytes_inside [OF inside])
  hence len: "?a + field_bytes ?t \<le> length (buf p)" using h(2) p by (simp add: spans_def)
  have n: "vbitoffset ?v div 8 + field_bytes ?t \<le> length bs"
    using value_span [OF _ off, of "length bs"] bs(2) cnt by simp
  have vg: "\<forall>i < length bs. vget ?v (buf p) i = Some (bs ! i)" using bs by (simp add: vget_def)
  have "bits_equal (buf p) (8 * ?a + fbitoffset ?t mod 8) (fbitcount ?t) (vbitoffset ?v) bs
      \<longleftrightarrow> bits_at (received p) (8 * off + fbitoffset ?t) (fbitcount ?t) = bits_at bs (vbitoffset ?v) (fbitcount ?t)"
  proof -
    have "hbit (received p) (8 * off + fbitoffset ?t + k) = hbit (buf p) (8 * ?a + fbitoffset ?t mod 8 + k)" if "k < fbitcount ?t" for k
    proof -
      have "8 * off + fbitoffset ?t + k < 8 * unat (plen p)" using that inside h(2) by linarith
      moreover have "8 * unat (pstart p) + (8 * off + fbitoffset ?t + k) = 8 * ?a + fbitoffset ?t mod 8 + k"
        using mult_div_mod_eq [of 8 "fbitoffset ?t"] unfolding distrib_left by linarith
      ultimately show ?thesis using received_hbit [OF p] by metis
    qed
    thus ?thesis unfolding bits_equal_def bits_at_eq by auto
  qed
  with comparator_equal [OF cmp addr vg n len] bs cnt show ?thesis
    by (auto simp: constraint_holds_def abs_match_def value_bits_def)
qed

lemma match_header_spec:
  assumes "list_all (match_wf i proto) ms" "spans p" "i < length (headers p)"
    "unat (hstart (headers p ! i)) = unat (pstart p) + off" "off + proto_len proto \<le> unat (plen p)"
  shows "parsetree_match_header ms p = Some (list_all (constraint_holds (received p)) (map (abs_match off) ms))"
  using assms(1) by (induction ms) (auto simp: match_step [OF _ assms(2-5)])

text \<open>All headers of a stream.\<close>

lemma identify_headers_spec:
  assumes "headers_wf i hs" "length (headers p) = i" "spans p" "unat offset = off" "off \<le> unat (plen p)"
    and "headers p \<noteq> [] \<Longrightarrow> unat (hstart (last (headers p))) < unat (pstart p) + off"
  shows "identify_headers hs offset p =
     (if off + protos_len (map hd_id hs) \<le> unat (plen p) \<and> list_all (constraint_holds (received p)) (abs_headers off hs)
      then Some (Some (of_nat (off + protos_len (map hd_id hs))), p\<lparr>headers := headers p @ layout (pstart p) off (map hd_id hs)\<rparr>)
      else Some (None, packet_clear_headers p))"
  using assms
proof (induction hs arbitrary: i p offset off)
  case Nil
  thus ?case by auto
next
  case (Cons h hs)
  let ?n = "proto_len (hd_id h)"
  have o: "offset = of_nat off" using Cons.prems(4) by auto
  have small: "off \<le> PACKET_BUF_LEN" "?n \<le> 40" using Cons.prems(3,5) proto_len_le by (auto simp: spans_def)
  have bounds: "unat (pstart p + offset) = unat (pstart p) + off" "unat (offset + of_nat ?n) = off + ?n" "unat (of_nat ?n :: u32) = ?n"
  proof -
    show n: "unat (of_nat ?n :: u32) = ?n" using small(2) by (simp add: unat_of_nat)
    show "unat (pstart p + offset) = unat (pstart p) + off"
      using Cons.prems(3,4,5) unat_plus_le [of "pstart p" offset] by (simp add: spans_def packet_consts)
    show "unat (offset + of_nat ?n) = off + ?n"
      using small n Cons.prems(4) unat_plus_le [of offset "of_nat ?n"] by (simp add: packet_consts)
  qed
  have cnt: "header_count p < PACKET_MAX_HEADER_NUM" using headers_wf_count [OF Cons.prems(1)] Cons.prems(2) by simp
  have start: "\<not> (header_count p > 0 \<and> hstart (headers p ! (header_count p - 1)) \<ge> pstart p + offset)"
    using Cons.prems(6) bounds(1) by (auto simp: word_le_nat_alt last_conv_nth)
  let ?h = "\<lparr>htype = hd_id h, hstart = pstart p + offset, hlen = of_nat ?n\<rparr>"
  let ?p = "p\<lparr>headers := headers p @ [?h]\<rparr>"
  have clear: "packet_clear_headers ?p = packet_clear_headers p" by (simp add: packet_clear_headers_def)
  show ?case
  proof (cases "off + ?n \<le> unat (plen p)")
    case False
    hence "packet_identify_header p (hd_id h) offset (of_nat ?n) = (False, p)"
      using cnt start bounds(2) by (simp add: packet_identify_header_def word_le_nat_alt not_le word_less_nat_alt)
    with False show ?thesis by simp
  next
    case True
    hence id: "packet_identify_header p (hd_id h) offset (of_nat ?n) = (True, ?p)"
      using cnt start bounds(2) by (simp add: packet_identify_header_def word_less_nat_alt)
    have sp: "spans ?p" "received ?p = received p" using Cons.prems(3) by (simp_all add: spans_def received_def)
    have m: "parsetree_match_header (hd_matches h) ?p = Some (list_all (constraint_holds (received p)) (map (abs_match off) (hd_matches h)))"
      using match_header_spec [of i "hd_id h" "hd_matches h" ?p off] Cons.prems(1,2) sp bounds(1) True by (simp add: nth_append)
    have pre: "headers_wf (i + 1) hs" "length (headers ?p) = i + 1" "0 < ?n" using Cons.prems(1,2) by simp_all
    have last: "unat (hstart (last (headers ?p))) < unat (pstart ?p) + (off + ?n)" using bounds(1) pre(3) by simp
    note rest = Cons.IH [OF pre(1,2) sp(1) bounds(2) _ last]
    show ?thesis using True id m rest clear sp(2) by (auto simp: Let_def o add.assoc)
  qed
qed

text \<open>The streams of a tree: the first one that the packet belongs to.\<close>

definition ready :: "Packet \<Rightarrow> bool" where
  "ready p \<longleftrightarrow> spans p \<and> headers p = [] \<and> scratch_len p = 0 \<and> log_wf (logbuf p)"

lemma identify_streams_spec:
  assumes "list_all (\<lambda>s. headers_wf 0 (st_headers s)) ss" "ready p"
  shows "identify_streams ss p = Some (case classify (map (\<lambda>s. abs_stream (st_headers s)) ss) (received p) of
     None \<Rightarrow> (None, p)
   | Some i \<Rightarrow> (let ids = map hd_id (st_headers (ss ! i)) in (Some (i, of_nat (protos_len ids)), p\<lparr>headers := layout (pstart p) 0 ids\<rparr>)))"
  using assms(1)
proof (induction ss)
  case (Cons s ss)
  have p: "spans p" "headers p = []" "packet_clear_headers p = p" using assms(2) by (auto simp: ready_def packet_clear_headers_def)
  have "identify_headers (st_headers s) 0 p =
     (if belongs (received p) (abs_stream (st_headers s))
      then Some (Some (of_nat (protos_len (map hd_id (st_headers s)))), p\<lparr>headers := layout (pstart p) 0 (map hd_id (st_headers s))\<rparr>)
      else Some (None, p))"
    using identify_headers_spec [of 0 "st_headers s" p 0 0] Cons.prems p by (simp add: belongs_def abs_stream_def)
  with Cons show ?case by (auto simp: Let_def split: option.splits)
qed simp

lemma classify_less: "classify ss bs = Some i \<Longrightarrow> i < length ss \<and> belongs bs (ss ! i)"
  by (induction ss arbitrary: i) (auto split: if_splits)

lemma log_texts_total: "log_wf (logbuf p) \<Longrightarrow> \<exists>b. log_texts env ts p = Some (p\<lparr>logbuf := b\<rparr>) \<and> log_wf b"
proof (induction ts arbitrary: p)
  case Nil
  thus ?case by (intro exI [of _ "logbuf p"]) simp
next
  case (Cons t ts)
  show ?case
  proof (cases "packet_trace env")
    case True
    obtain b where b: "packet_logcat p t = Some (p\<lparr>logbuf := b\<rparr>)" "log_wf b" using packet_logcat_total [OF Cons.prems] by blast
    with Cons.IH [of "p\<lparr>logbuf := b\<rparr>"] True show ?thesis by simp
  qed (use Cons in simp)
qed

lemma layout_Nil [simp]: "layout start off ids = [] \<longleftrightarrow> ids = []"
  by (cases ids) auto

lemma layout_last:
  assumes "ids \<noteq> []"
  shows "htype (last (layout start off ids)) = last ids"
    and "hstart (last (layout start off ids)) = start + of_nat (off + protos_len (butlast ids))"
  using assms by (induction start off ids rule: layout.induct) (auto simp: add.assoc)

lemma length_layout [simp]: "length (layout start off ids) = length ids"
  by (induction start off ids rule: layout.induct) auto

lemma protos_len_append: "protos_len (xs @ ys) = protos_len xs + protos_len ys"
  by (simp add: protos_len_def)

lemma headers_wf_pos: "headers_wf i hs \<Longrightarrow> h \<in> set hs \<Longrightarrow> 0 < proto_len (hd_id h)"
  by (induction i hs rule: headers_wf.induct) auto

lemma payload_identified:
  assumes "headers_wf 0 hs" "ready p" "protos_len (map hd_id hs) \<le> unat (plen p)"
  defines "ids \<equiv> map hd_id hs"
  shows "packet_identify_header (p\<lparr>headers := layout (pstart p) 0 ids\<rparr>) PROTO_ID_PAYLOAD (of_nat (protos_len ids)) (plen p - of_nat (protos_len ids))
     = (True, p\<lparr>headers := full_layout p ids\<rparr>)"
proof -
  have sp: "spans p" "headers p = []" using assms(2) by (auto simp: ready_def)
  let ?n = "protos_len ids"
  have n: "unat (of_nat ?n :: u32) = ?n" and le: "?n \<le> PACKET_BUF_LEN"
    using assms(3) sp(1) by (auto simp: ids_def spans_def packet_consts unat_of_nat)
  have start: "unat (pstart p + of_nat m) = unat (pstart p) + m" if "m \<le> ?n" for m
    using sp(1) assms(3) that le unat_plus_le [of "pstart p" "of_nat m"] by (simp add: ids_def spans_def packet_consts unat_of_nat)
  have "\<not> (ids \<noteq> [] \<and> hstart (last (layout (pstart p) 0 ids)) \<ge> pstart p + of_nat ?n)"
  proof (cases "ids = []")
    case False
    have "?n = protos_len (butlast ids) + proto_len (last ids)"
      by (subst append_butlast_last_id [OF False, symmetric], subst protos_len_append) simp
    moreover have "0 < proto_len (last ids)"
      using headers_wf_pos [OF assms(1), of "last hs"] False by (simp add: ids_def last_map)
    ultimately have "protos_len (butlast ids) < ?n" by simp
    with start [of "protos_len (butlast ids)"] start [of ?n] layout_last(2) [OF False, of "pstart p" 0]
    show ?thesis by (simp add: word_le_nat_alt)
  qed simp
  moreover have "length ids < PACKET_MAX_HEADER_NUM" using headers_wf_count [OF assms(1)] by (simp add: ids_def)
  ultimately show ?thesis
    by (auto simp: packet_identify_header_def full_layout_def last_conv_nth)
qed

lemma parsetree_identify_spec:
  assumes "tree_wf pt" "ready p"
  shows "\<exists>b. log_wf b \<and> (case classify (abs_tree pt) (received p) of
      None \<Rightarrow> parsetree_identify env pt p w
        = Some (None, p\<lparr>logbuf := b\<rparr>, pt\<lparr>nomatch_packets := nomatch_packets pt + 1, nomatch_octets := nomatch_octets pt + ucast (plen p)\<rparr>, w)
    | Some i \<Rightarrow>
        (let s = pt_streams pt ! i; p' = p\<lparr>headers := full_layout p (sp_protos (abs_tree pt ! i)), logbuf := b\<rparr> in
         parsetree_identify env pt p w
           = Some (Some \<lparr>it_packet = p', it_pipe = st_pipe s, it_pos = 0\<rparr>, p', pt\<lparr>pt_streams := (pt_streams pt)[i := count_match p' s]\<rparr>,
                   pipeline_ref (pipe_id (st_pipe s)) w)))"
proof (cases "classify (abs_tree pt) (received p)")
  case None
  obtain b where b: "log_texts env [''unknown stream''] p = Some (p\<lparr>logbuf := b\<rparr>)" "log_wf b"
    using log_texts_total assms(2) unfolding ready_def by blast
  have "identify_streams (pt_streams pt) p = Some (None, p)"
    using identify_streams_spec [of "pt_streams pt" p] assms None by (simp add: tree_wf_def abs_tree_def)
  with None b show ?thesis by (intro exI [of _ b]) (simp add: parsetree_identify_def del: log_texts.simps)
next
  case (Some i)
  let ?s = "pt_streams pt ! i" and ?ids = "map hd_id (st_headers (pt_streams pt ! i))"
  have i: "i < length (pt_streams pt)" "protos_len ?ids \<le> unat (plen p)"
    using classify_less [OF Some] assms(2) by (auto simp: abs_tree_def abs_stream_def belongs_def ready_def)
  have ids: "sp_protos (abs_tree pt ! i) = ?ids" using i by (simp add: abs_tree_def abs_stream_def)
  have wf: "headers_wf 0 (st_headers ?s)" using assms(1) i(1) by (auto simp: tree_wf_def list_all_length)
  let ?p = "p\<lparr>headers := full_layout p ?ids\<rparr>"
  let ?ts = "[stream_name ?s @ '' ''] @ map (\<lambda>h. ''|'' @ pname (protocol_from_id (htype h))) (headers ?p) @ [''| '']"
  obtain b where b: "log_texts env ?ts ?p = Some (?p\<lparr>logbuf := b\<rparr>)" "log_wf b"
    using log_texts_total [of ?p env ?ts] assms(2) unfolding ready_def by auto
  have "identify_streams (pt_streams pt) p = Some (Some (i, of_nat (protos_len ?ids)), p\<lparr>headers := layout (pstart p) 0 ?ids\<rparr>)"
    using identify_streams_spec [of "pt_streams pt" p] assms Some by (simp add: tree_wf_def abs_tree_def Let_def)
  with Some b ids payload_identified [OF wf assms(2) i(2)] show ?thesis
    by (intro exI [of _ b]) (simp add: parsetree_identify_def new_pipe_iterator_def Let_def del: log_texts.simps)
qed

text \<open>
  C7: The parse tree refines the classifier.  On every received packet, whatever its bytes and its length, \<open>parsetree_identify\<close> decides as the
  classifier does on the bytes alone: it finds the first stream in the order of addition to which the packet belongs, and none
  exactly when the packet belongs to no stream.  A match returns an iterator at the start of the pipeline of that stream and counts the packet there and nowhere else; the headers of
  the packet lie one behind the other from its start and the payload is the rest.  Without a match the packet is counted as unknown and keeps no
  headers.  No byte outside of the packet is read.
\<close>

theorem parsetree_refines_classifier:
  assumes "tree_wf pt" "ready p"
  shows "\<exists>b. log_wf b \<and> (case classify (abs_tree pt) (received p) of
      None \<Rightarrow> parsetree_identify env pt p w
        = Some (None, p\<lparr>logbuf := b\<rparr>, pt\<lparr>nomatch_packets := nomatch_packets pt + 1, nomatch_octets := nomatch_octets pt + ucast (plen p)\<rparr>, w)
    | Some i \<Rightarrow>
        (let s = pt_streams pt ! i; p' = p\<lparr>headers := full_layout p (sp_protos (abs_tree pt ! i)), logbuf := b\<rparr> in
         parsetree_identify env pt p w
           = Some (Some \<lparr>it_packet = p', it_pipe = st_pipe s, it_pos = 0\<rparr>, p', pt\<lparr>pt_streams := (pt_streams pt)[i := count_match p' s]\<rparr>,
                   pipeline_ref (pipe_id (st_pipe s)) w)))"
  by (rule parsetree_identify_spec [OF assms])

definition ethertype_stream :: "string \<Rightarrow> nat \<Rightarrow> u8 list \<Rightarrow> Stream" where
  "ethertype_stream name i val = \<lparr>st_headers = [\<lparr>hd_name = ''eth'', hd_id = PROTO_ID_ETH, hd_matches =
       [\<lparr>hm_field = sample_field 0 96 16, hm_value = \<lparr>vptr = VConst val, vbitoffset = 0, vbitcount = 16\<rparr>, hm_comparator = compare_bytes, hm_neg = False\<rparr>]\<rparr>],
     st_pipe = Pipeline i name [Act ActDrop], match_packets = 0, match_octets = 0\<rparr>"

definition sample_tree :: ParseTree where
  "sample_tree = (new_parsetree 0)\<lparr>pt_streams := [ethertype_stream ''a'' 1 [8, 0], ethertype_stream ''b'' 2 [7, 7]]\<rparr>"

definition raw_packet :: Packet where
  "raw_packet = sample_packet\<lparr>headers := []\<rparr>"

lemma sample_tree_wf: "tree_wf sample_tree" "ready raw_packet"
  by (simp_all add: tree_wf_def sample_tree_def new_parsetree_def ethertype_stream_def match_wf_def sample_field_def const_value_def
      header_get_field_comprator_def protocol_from_id_def protocol_list_def packet_consts ready_def spans_def raw_packet_def sample_packet_def
      zeroed_packet_def log_wf_def PACKET_LOG_BUF_SIZE_def)

lemma sample_classified: "classify (abs_tree sample_tree) (received raw_packet) = Some 1"
proof -
  have r: "received raw_packet = replicate 100 7"
    by (simp add: received_def raw_packet_def sample_packet_def zeroed_packet_def packet_consts)
  have h: "hbit (received raw_packet) k = bit (7 :: u8) (7 - k mod 8)" if "k < 800" for k
    using that unfolding r by (simp add: hbit_def less_mult_imp_div_less)
  have "bits_at (received raw_packet) 96 16 = bits_at [7, 7] 0 16"
    unfolding bits_at_eq
  proof (intro allI impI)
    fix k :: nat assume "k < 16"
    moreover have "(96 + k) mod 8 = k mod 8" by (simp add: mod_add_eq [of 96, symmetric])
    moreover have "hbit [7, 7] (0 + k) = bit (7 :: u8) (7 - k mod 8)" using \<open>k < 16\<close> by (auto simp: hbit_def nth_Cons less_mult_imp_div_less split: nat.splits)
    ultimately show "hbit (received raw_packet) (96 + k) = hbit [7, 7] (0 + k)" using h [of "96 + k"] by simp
  qed
  moreover have "bits_at (received raw_packet) 96 16 \<noteq> bits_at [8, 0] 0 16"
    unfolding bits_at_eq using h [of 100] by (auto simp: hbit_def [of "[8, 0]"] bit_numeral_rec intro!: exI [of _ 4])
  ultimately show ?thesis
    by (simp add: sample_tree_def abs_tree_def abs_stream_def ethertype_stream_def belongs_def abs_match_def constraint_holds_def value_bits_def
        sample_field_def r [symmetric]) (simp add: r protocol_from_id_def protocol_list_def)
qed

theorem parsetree_refines_classifier_witness:
  "\<exists>p' pt' w'. parsetree_identify sample_env sample_tree raw_packet sample_world
     = Some (Some \<lparr>it_packet = p', it_pipe = Pipeline 2 ''b'' [Act ActDrop], it_pos = 0\<rparr>, p', pt', w')
     \<and> map hstart (headers p') = [1024, 1038] \<and> map hlen (headers p') = [14, 86]"
proof -
  have ids: "sp_protos (abs_tree sample_tree ! 1) = [PROTO_ID_ETH]"
    by (simp add: sample_tree_def abs_tree_def abs_stream_def ethertype_stream_def)
  have "map hstart (full_layout raw_packet [PROTO_ID_ETH]) = [1024, 1038]" "map hlen (full_layout raw_packet [PROTO_ID_ETH]) = [14, 86]"
    by (simp_all add: full_layout_def raw_packet_def sample_packet_def zeroed_packet_def packet_consts protocol_from_id_def protocol_list_def)
  moreover have "st_pipe (pt_streams sample_tree ! 1) = Pipeline 2 ''b'' [Act ActDrop]" by (simp add: sample_tree_def ethertype_stream_def)
  ultimately show ?thesis
    using parsetree_refines_classifier [OF sample_tree_wf, of sample_env sample_world] sample_classified ids
    by (auto simp: Let_def)
qed

section \<open>Changing the tree\<close>

text \<open>A copied stream means the same.\<close>

lemma ceil8:
  assumes "(x :: nat) \<le> 8 * m"
  shows "(x + 7) div 8 \<le> m" "x \<le> 8 * ((x + 7) div 8)"
proof -
  have "(x + 7) div 8 \<le> (8 * m + 7) div 8" using assms by (intro div_le_mono) simp
  thus "(x + 7) div 8 \<le> m" by simp
  show "x \<le> 8 * ((x + 7) div 8)"
    using div_mult_mod_eq [of "x + 7" 8] mod_less_divisor [of 8 "x + 7"] by linarith
qed

lemma copy_value_spec:
  assumes "const_value v bs"
  obtains bs' where "copy_value v = Some (v\<lparr>vptr := VConst bs'\<rparr>)" "const_value (v\<lparr>vptr := VConst bs'\<rparr>) bs'"
    "value_bits (v\<lparr>vptr := VConst bs'\<rparr>) = value_bits v"
proof
  let ?n = "(vbitoffset v + vbitcount v + 7) div 8"
  have v: "vptr v = VConst bs" "vbitoffset v + vbitcount v \<le> 8 * length bs" using assms by (auto simp: const_value_def)
  note n = ceil8 [OF v(2)]
  show "copy_value v = Some (v\<lparr>vptr := VConst (take ?n bs)\<rparr>)" using v n by (simp add: copy_value_def mem_read_def)
  show "const_value (v\<lparr>vptr := VConst (take ?n bs)\<rparr>) (take ?n bs)" using n by (simp add: const_value_def min_absorb2)
  have "hbit (take ?n bs) (vbitoffset v + k) = hbit bs (vbitoffset v + k)" if "k < vbitcount v" for k
  proof -
    have "(vbitoffset v + k) div 8 < ?n" using that n(2) by (intro less_mult_imp_div_less) simp
    thus ?thesis by (simp add: hbit_def)
  qed
  thus "value_bits (v\<lparr>vptr := VConst (take ?n bs)\<rparr>) = value_bits v" using v(1) by (simp add: value_bits_def bits_at_eq)
qed

lemma comprator_vptr: "header_get_field_comprator t (v\<lparr>vptr := x\<rparr>) = header_get_field_comprator t v"
  by (simp add: header_get_field_comprator_def)

lemma copy_match_list_spec:
  assumes "list_all (match_wf i proto) ms"
  shows "\<exists>ms'. copy_match_list ms = Some ms' \<and> list_all (match_wf i proto) ms' \<and> map (abs_match off) ms' = map (abs_match off) ms"
  using assms
proof (induction ms)
  case (Cons m ms)
  obtain bs where bs: "const_value (hm_value m) bs" using Cons.prems by (auto simp: match_wf_def split: value_ptr.splits)
  from copy_value_spec [OF bs] obtain bs' where c: "copy_value (hm_value m) = Some (hm_value m\<lparr>vptr := VConst bs'\<rparr>)"
    "const_value (hm_value m\<lparr>vptr := VConst bs'\<rparr>) bs'" "value_bits (hm_value m\<lparr>vptr := VConst bs'\<rparr>) = value_bits (hm_value m)" .
  have "match_wf i proto (m\<lparr>hm_value := hm_value m\<lparr>vptr := VConst bs'\<rparr>\<rparr>)"
    using Cons.prems c(2) comprator_vptr by (simp add: match_wf_def)
  with Cons c show ?case by (auto simp: abs_match_def)
qed simp

lemma copy_header_list_spec:
  assumes "headers_wf i hs"
  shows "\<exists>hs'. copy_header_list hs True = Some hs' \<and> headers_wf i hs' \<and> map hd_id hs' = map hd_id hs \<and> abs_headers off hs' = abs_headers off hs"
  using assms
proof (induction hs arbitrary: i off)
  case (Cons h hs)
  obtain hs' where hs': "copy_header_list hs True = Some hs'" "headers_wf (i + 1) hs'" "map hd_id hs' = map hd_id hs"
      "abs_headers (off + proto_len (hd_id h)) hs' = abs_headers (off + proto_len (hd_id h)) hs"
    using Cons.IH [of "i + 1"] Cons.prems by auto
  obtain ms where "copy_match_list (hd_matches h) = Some ms" "list_all (match_wf i (hd_id h)) ms"
      "map (abs_match off) ms = map (abs_match off) (hd_matches h)"
    using copy_match_list_spec [of i "hd_id h" "hd_matches h" off] Cons.prems by auto
  with hs' Cons.prems show ?case by simp
qed simp

lemma add_stream_spec:
  assumes "headers_wf 0 hs" "tree_wf pt" "pipe_name pipe \<notin> set (map stream_name (pt_streams pt))"
  shows "\<exists>s. parsetree_add_stream pt hs pipe w = Some (True, pt\<lparr>pt_streams := pt_streams pt @ [s]\<rparr>, pipeline_ref (pipe_id pipe) w)
     \<and> st_pipe s = pipe \<and> headers_wf 0 (st_headers s) \<and> abs_stream (st_headers s) = abs_stream hs"
proof -
  obtain hs' where "copy_header_list hs True = Some hs'" "headers_wf 0 hs'" "map hd_id hs' = map hd_id hs" "abs_headers 0 hs' = abs_headers 0 hs"
    using copy_header_list_spec [OF assms(1), of 0] by blast
  with assms(3) show ?thesis
    by (simp add: parsetree_add_stream_def new_stream_def abs_stream_def list_ex_iff) (auto simp: image_iff)
qed

lemma unlink_added:
  "name \<notin> set (map stream_name ss) \<Longrightarrow> stream_name s = name \<Longrightarrow> unlink_stream (ss @ [s]) name = Some (s, ss)"
  by (induction ss) auto

text \<open>
  C35: Streams can be added and taken away.  A stream with a new name goes to the end of the tree, where it gets the packets that belong to none of
  the earlier ones, and keeps a copy of the headers that means the same; deleting it by its name gives back the tree and the references as they were.  A name that is already used is
  refused and changes nothing.
\<close>

theorem stream_add_delete:
  assumes "headers_wf 0 hs" "tree_wf pt" "0 < pipe_refs w (pipe_id pipe)"
  shows "if pipe_name pipe \<in> set (map stream_name (pt_streams pt)) then parsetree_add_stream pt hs pipe w = Some (False, pt, w)
     else \<exists>pt' w'. parsetree_add_stream pt hs pipe w = Some (True, pt', w') \<and> tree_wf pt' \<and> abs_tree pt' = abs_tree pt @ [abs_stream hs]
        \<and> parsetree_del_stream pt' (pipe_name pipe) w' = Some (True, pt, w)"
proof (cases "pipe_name pipe \<in> set (map stream_name (pt_streams pt))")
  case True
  thus ?thesis by (auto simp: parsetree_add_stream_def list_ex_iff)
next
  case False
  obtain s where s: "parsetree_add_stream pt hs pipe w = Some (True, pt\<lparr>pt_streams := pt_streams pt @ [s]\<rparr>, pipeline_ref (pipe_id pipe) w)"
      "st_pipe s = pipe" "headers_wf 0 (st_headers s)" "abs_stream (st_headers s) = abs_stream hs"
    using add_stream_spec [OF assms(1,2) False] by blast
  have "pipeline_unref pipe (pipeline_ref (pipe_id pipe) w) = Some w"
    using assms(3) by (subst pipeline_unref_alive) (simp_all add: pipeline_ref_def)
  moreover have "unlink_stream (pt_streams pt @ [s]) (pipe_name pipe) = Some (s, pt_streams pt)"
    using unlink_added [OF False] s(2) by simp
  moreover have "tree_wf (pt\<lparr>pt_streams := pt_streams pt @ [s]\<rparr>)" using assms(2) s(2,3) False by (auto simp: tree_wf_def)
  ultimately show ?thesis using False s by (simp add: abs_tree_def parsetree_del_stream_def delete_stream_def)
qed

theorem stream_add_delete_witness:
  "\<exists>pt' w'. parsetree_add_stream sample_tree (st_headers (ethertype_stream ''c'' 3 [9, 9])) (Pipeline 3 ''c'' [Act ActDrop]) sample_world = Some (True, pt', w')
     \<and> parsetree_del_stream pt' ''c'' w' = Some (True, sample_tree, sample_world)"
proof -
  let ?hs = "st_headers (ethertype_stream ''c'' 3 [9, 9])" and ?pipe = "Pipeline 3 ''c'' [Act ActDrop]"
  have "headers_wf 0 ?hs"
    by (simp add: ethertype_stream_def match_wf_def sample_field_def const_value_def header_get_field_comprator_def protocol_from_id_def protocol_list_def packet_consts)
  moreover have "0 < pipe_refs sample_world (pipe_id ?pipe)" by (simp add: sample_world_def)
  moreover have "pipe_name ?pipe \<notin> set (map stream_name (pt_streams sample_tree))" by (simp add: sample_tree_def ethertype_stream_def)
  ultimately show ?thesis using stream_add_delete [OF _ sample_tree_wf(1), of ?hs sample_world ?pipe] by auto
qed

end
