(* ===== verification/Interface.thy ===== *)
theory Interface
  imports Parsetree
begin

text \<open>
  Interfaces (\<^verbatim>\<open>src/interface.c\<close>) and what they do with a received packet (\<open>iface_common_process\<close> of \<^verbatim>\<open>src/if_utils.c\<close>).

  An interface has an owner count, kept by the program state, and a sender count, kept by the pipelines that send on it; both are in the
  \<open>world\<close> of the pipelines.  Here are its state, its parse tree and whether its receiver thread runs.  Closing the sockets of an
  interface and freeing it is the event \<open>EvIfaceDeleted\<close>.  When the last sender of an interface without owners goes away, its
  parse tree was already deleted with the last owner, so the event is all that happens.
\<close>

section \<open>Life of an interface\<close>

datatype IfaceType = IF_ETH | IF_INTERNAL | IF_IP | IF_OAM | IF_OAM_ETH | IF_OAM_CMD | IF_UDP_IN | IF_UDP_OUT

fun iface_type_str :: "IfaceType \<Rightarrow> string" where
  "iface_type_str IF_ETH = ''Ethernet''"
| "iface_type_str IF_INTERNAL = ''Internal''"
| "iface_type_str IF_IP = ''IP''"
| "iface_type_str IF_OAM = ''OAM Return''"
| "iface_type_str IF_OAM_ETH = ''OAM ETH Return''"
| "iface_type_str IF_OAM_CMD = ''OAM Command''"
| "iface_type_str IF_UDP_IN = ''UDP In''"
| "iface_type_str IF_UDP_OUT = ''UDP Out''"

datatype IfaceState = IFSTATE_INIT | IFSTATE_OPEN | IFSTATE_SHUTDOWN

record network =
  net_world :: world
  if_state :: "nat \<Rightarrow> IfaceState"
  recv_th :: "nat \<Rightarrow> bool"
  parsetree :: "nat \<Rightarrow> ParseTree option"

definition on_world :: "(world \<Rightarrow> world) \<Rightarrow> network \<Rightarrow> network" where
  "on_world f n = n\<lparr>net_world := f (net_world n)\<rparr>"

definition drop_parsetree :: "nat \<Rightarrow> network \<Rightarrow> network option" where
  "drop_parsetree i n =
     do { w \<leftarrow> delete_parsetree (parsetree n i) (net_world n);
          Some (n\<lparr>net_world := w, parsetree := (parsetree n)(i := None)\<rparr>) }"

definition stop_receiver :: "nat \<Rightarrow> network \<Rightarrow> network" where
  "stop_receiver i n = n\<lparr>recv_th := (recv_th n)(i := False)\<rparr>"

definition delete_interface :: "nat \<Rightarrow> network \<Rightarrow> network option" where
  "delete_interface i n = drop_parsetree i (stop_receiver i (on_world (emit (EvIfaceDeleted i)) n))"

definition iface_ref :: "nat \<Rightarrow> network \<Rightarrow> network" where
  "iface_ref i = on_world (\<lambda>w. w\<lparr>iface_refs := (iface_refs w)(i := iface_refs w i + 1)\<rparr>)"

definition iface_unref :: "nat \<Rightarrow> network \<Rightarrow> network option" where
  "iface_unref i n =
     (let n1 = on_world (\<lambda>w. w\<lparr>iface_refs := (iface_refs w)(i := iface_refs w i - 1)\<rparr>) n in
      if iface_refs (net_world n1) i = 0
      then (let n2 = n1\<lparr>if_state := (if_state n1)(i := IFSTATE_SHUTDOWN)\<rparr> in
            if sender_count (net_world n2) i > 0 then drop_parsetree i (stop_receiver i n2)
            else delete_interface i n2)
      else Some n1)"

definition iface_add_stream :: "nat \<Rightarrow> HeaderDescriptor list \<Rightarrow> Pipeline \<Rightarrow> network \<Rightarrow> (bool \<times> network) option" where
  "iface_add_stream i hs pipe n =
     (let pt = (case parsetree n i of None \<Rightarrow> new_parsetree i | Some pt \<Rightarrow> pt) in
      do { (ok, pt', w) \<leftarrow> parsetree_add_stream pt hs pipe (net_world n);
           let n1 = n\<lparr>net_world := w, parsetree := (parsetree n)(i \<mapsto> pt')\<rparr>;
           Some (if ok then (True, on_world (pipeline_ref_send_interfaces pipe) n1) else (False, n1)) })"

section \<open>Receiving\<close>

definition iface_common_process :: "run_env \<Rightarrow> nat \<Rightarrow> Packet \<Rightarrow> network \<Rightarrow> (bool \<times> network) option" where
  "iface_common_process env i p n =
     (case parsetree n i of
        None \<Rightarrow> Some (False, on_world (\<lambda>w. with_psys (delete_packet (Some p) (psys w)) w) n)
      | Some pt \<Rightarrow>
          do { (r, p', pt', w) \<leftarrow> parsetree_identify env pt p (net_world n);
               let n1 = n\<lparr>net_world := w, parsetree := (parsetree n)(i \<mapsto> pt')\<rparr>;
               case r of
                 None \<Rightarrow> Some (False, on_world (\<lambda>w. with_psys (delete_packet (Some p') (psys w)) w) n1)
               | Some pi \<Rightarrow> do { w2 \<leftarrow> pipe_iterator_run env pi w; Some (True, n1\<lparr>net_world := w2\<rparr>) } })"

text \<open>
  The check of a configuration: every stream of the interface has a pipeline that was checked for the headers of that
  stream, and the pipelines are alive.
\<close>

definition stream_ctx :: "Stream \<Rightarrow> hctx" where
  "stream_ctx s = \<lparr>hc_lens = map (\<lambda>h. proto_len (hd_id h)) (st_headers s) @ [0], hc_scratch = 0\<rparr>"

definition stream_ok :: "(nat \<Rightarrow> PipelineObjectType option) \<Rightarrow> world \<Rightarrow> Stream \<Rightarrow> bool" where
  "stream_ok \<Gamma> w s \<longleftrightarrow> check_pipe \<Gamma> (stream_ctx s) (st_pipe s) \<and> alive (pipe_ids (st_pipe s)) (pipe_repls (st_pipe s)) w"

definition tree_ok :: "(nat \<Rightarrow> PipelineObjectType option) \<Rightarrow> world \<Rightarrow> ParseTree \<Rightarrow> bool" where
  "tree_ok \<Gamma> w pt \<longleftrightarrow> tree_wf pt \<and> list_all (stream_ok \<Gamma> w) (pt_streams pt)"

definition arrived :: "Packet \<Rightarrow> bool" where
  "arrived p \<longleftrightarrow> ready p \<and> 1024 \<le> unat (pstart p) \<and> unat (pstart p) + unat (plen p) + 64 \<le> PACKET_BUF_LEN"

lemma layout_fits:
  assumes "unat start + off + protos_len ids + 64 \<le> PACKET_BUF_LEN"
  shows "list_all2 header_fits (layout start off ids) (map proto_len ids)"
  using assms
proof (induction ids arbitrary: off)
  case (Cons i ids)
  have "unat (start + of_nat off) = unat start + off" "unat (of_nat (proto_len i) :: u32) = proto_len i"
    using Cons.prems unat_plus_le [of start "of_nat off"] proto_len_le [of i] by (simp_all add: packet_consts unat_of_nat)
  with Cons proto_len_le [of i] show ?case by (simp add: header_fits_def)
qed simp

lemma arrived_fits:
  assumes "arrived p" "protos_len (map hd_id (st_headers s)) \<le> unat (plen p)" "log_wf b"
  shows "fits (stream_ctx s) (p\<lparr>headers := full_layout p (map hd_id (st_headers s)), logbuf := b\<rparr>)"
proof -
  let ?ids = "map hd_id (st_headers s)" and ?n = "protos_len (map hd_id (st_headers s))"
  have p: "length (buf p) = PACKET_BUF_LEN" "scratch_len p = 0" "1024 \<le> unat (pstart p)" "unat (pstart p) + unat (plen p) + 64 \<le> PACKET_BUF_LEN"
    using assms(1) by (auto simp: arrived_def ready_def spans_def)
  have n: "unat (of_nat ?n :: u32) = ?n" using assms(2) p(4) by (simp add: packet_consts unat_of_nat)
  have s: "unat (pstart p + of_nat ?n) = unat (pstart p) + ?n" "unat (pstart p + plen p) = unat (pstart p) + unat (plen p)"
    using p(4) assms(2) n unat_plus_le [of "pstart p" "of_nat ?n"] unat_plus_le [of "pstart p" "plen p"] by (simp_all add: packet_consts)
  have "of_nat ?n \<le> plen p" using assms(2) n by (simp add: word_le_nat_alt)
  hence "unat (plen p - of_nat ?n) = unat (plen p) - ?n" using n by (simp add: unat_sub)
  with s p assms(2) have "header_fits \<lparr>htype = PROTO_ID_PAYLOAD, hstart = pstart p + of_nat ?n, hlen = plen p - of_nat ?n\<rparr> 0"
    by (simp add: header_fits_def)
  moreover have "list_all2 header_fits (layout (pstart p) 0 ?ids) (map proto_len ?ids)"
    using p(4) assms(2) by (intro layout_fits) simp
  ultimately have "list_all2 header_fits (full_layout p ?ids) (hc_lens (stream_ctx s))"
    unfolding full_layout_def stream_ctx_def by (auto intro!: list_all2_appendI simp: comp_def)
  with p s assms(3) show ?thesis by (simp add: fits_def stream_ctx_def)
qed

text \<open>Counting a match changes nothing else of a tree.\<close>

lemma count_match_simps [simp]: "st_headers (count_match p s) = st_headers s" "st_pipe (count_match p s) = st_pipe s"
  by (simp_all add: count_match_def)

lemma map_update_same: "i < length xs \<Longrightarrow> f y = f (xs ! i) \<Longrightarrow> map f (xs[i := y]) = map f xs"
  by (simp add: map_update) (metis length_map list_update_id nth_map)

lemma counted_tree:
  fixes p
  assumes "tree_ok \<Gamma> w pt" "i < length (pt_streams pt)"
  defines "ss \<equiv> (pt_streams pt)[i := count_match p (pt_streams pt ! i)]"
  shows "tree_ok \<Gamma> w (pt\<lparr>pt_streams := ss\<rparr>)" "abs_tree (pt\<lparr>pt_streams := ss\<rparr>) = abs_tree pt"
proof -
  have all: "list_all P ss = list_all P (pt_streams pt)" if "P (count_match p (pt_streams pt ! i)) = P (pt_streams pt ! i)" for P
  proof -
    have "P (ss ! k) = P (pt_streams pt ! k)" for k using that assms(2) by (cases "k = i") (simp_all add: ss_def)
    moreover have "length ss = length (pt_streams pt)" by (simp add: ss_def)
    ultimately show ?thesis by (simp add: list_all_length)
  qed
  have names: "map stream_name ss = map stream_name (pt_streams pt)"
    unfolding ss_def by (rule map_update_same [OF assms(2)]) simp
  show "abs_tree (pt\<lparr>pt_streams := ss\<rparr>) = abs_tree pt"
    unfolding abs_tree_def ss_def by (simp, rule map_update_same [OF assms(2)]) simp
  show "tree_ok \<Gamma> w (pt\<lparr>pt_streams := ss\<rparr>)"
    using assms(1) names all [of "stream_ok \<Gamma> w"] all [of "\<lambda>s. headers_wf 0 (st_headers s)"]
    by (simp add: tree_ok_def tree_wf_def stream_ok_def stream_ctx_def)
qed

lemma tree_ok_spends: "tree_ok \<Gamma> w pt \<Longrightarrow> spends None m w w' \<Longrightarrow> tree_ok \<Gamma> w' pt"
  by (auto simp: tree_ok_def stream_ok_def list_all_iff intro: alive_spends)

lemma fresh_iterator_runs:
  assumes "check_pipe \<Gamma> c pipe"
  shows "pipe_iterator_run env \<lparr>it_packet = p, it_pipe = pipe, it_pos = 0\<rparr> (pipeline_ref (pipe_id pipe) w) = run_pipe env pipe p w"
  using assms by (cases pipe) (simp add: pipe_iterator_run_def)


definition tag_network :: network where
  "tag_network = \<lparr>net_world = tag_world, if_state = (\<lambda>_. IFSTATE_OPEN), recv_th = (\<lambda>_. True), parsetree = [3 \<mapsto>
     (new_parsetree 3)\<lparr>pt_streams := [ethertype_stream ''a'' 1 [8, 0], (ethertype_stream ''tag'' 0 [7, 7])\<lparr>st_pipe := tag_pipe\<rparr>]\<rparr>]\<rparr>"


text \<open>
  The counts of senders do not balance when two interfaces share a pipeline: each addition counts the interfaces the pipeline sends
  on, but only the deletion of the pipeline releases them.  After both parse trees are gone and the pipeline with them, one
  sender remains, and the interface is never deleted.
\<close>

definition shared_pipe :: Pipeline where
  "shared_pipe = Pipeline 5 ''s'' [Act (ActSend 7)]"

definition bare_network :: network where
  "bare_network = \<lparr>net_world = sample_world\<lparr>pipe_refs := (\<lambda>_. 1), sender_count := (\<lambda>_. 0)\<rparr>, if_state = (\<lambda>_. IFSTATE_OPEN),
     recv_th = (\<lambda>_. True), parsetree = (\<lambda>_. None)\<rparr>"

lemma shared_pipeline_keeps_sender:
  "\<exists>n1 n2 w3 n4 n5. iface_add_stream 1 [] shared_pipe bare_network = Some (True, n1) \<and> iface_add_stream 2 [] shared_pipe n1 = Some (True, n2)
     \<and> pipeline_unref shared_pipe (net_world n2) = Some w3 \<and> drop_parsetree 1 (n2\<lparr>net_world := w3\<rparr>) = Some n4 \<and> drop_parsetree 2 n4 = Some n5
     \<and> deleted (out (net_world n5)) = [5] \<and> sender_count (net_world n5) 7 = 1"
  by (simp add: shared_pipe_def bare_network_def iface_add_stream_def parsetree_add_stream_def new_parsetree_def new_stream_def
      pipeline_ref_def on_world_def iface_add_sender_def iface_del_sender_def drop_parsetree_def delete_parsetree_def delete_stream_def
      sample_world_def emit_def Let_def)

end
