(* ===== verification/Spec2Isabelle.thy ===== *)
theory Spec2Isabelle
  imports Prelude Time_Utils Hashmap Protocol Packet Frer Seq_Gen Seq_Recov Recovery_Window Recovery_Life
    Ordered_Queue Pof Header Inet_Utils Checksum Message_Queue Delay Action
    Pipeline Pipeline_Balance Pipeline_Safety Parsetree Interface
begin

text \<open>
  A verification library for DNT, the Detnet/TSN node of \<^verbatim>\<open>src/\<close>: a user-space program that receives packets on interfaces,
  recognises the stream they belong to, and runs them through a pipeline of actions that edit, number, replicate, deduplicate, order,
  delay and send them.

  \<^bold>\<open>The parts and the theories.\<close>  A received packet is given to \<open>iface_common_process\<close> (\<open>Interface\<close>, from \<^verbatim>\<open>interface.c\<close> and
  \<^verbatim>\<open>if_utils.c\<close>), which asks the parse tree of the interface for its stream (\<open>Parsetree\<close>, \<^verbatim>\<open>parsetree.c\<close>).  The tree
  cuts the packet into headers by the protocol table (\<open>Protocol\<close>, \<^verbatim>\<open>protocol.c\<close>) and compares bit fields (\<open>Header\<close>,
  \<^verbatim>\<open>header.c\<close>, \<^verbatim>\<open>headerdesc.c\<close>, \<^verbatim>\<open>value.h\<close>) of the packet (\<open>Packet\<close>, \<^verbatim>\<open>packet.c\<close>).  A match yields an iterator
  over the pipeline of the stream (\<open>Pipeline\<close>: \<^verbatim>\<open>pipeline.c\<close>, \<^verbatim>\<open>object.c\<close>, \<^verbatim>\<open>replicate.c\<close>), which executes actions
  (\<open>Action\<close>, \<^verbatim>\<open>action.c\<close>): checksums (\<open>Checksum\<close> and \<open>Inet_Utils\<close>: \<^verbatim>\<open>checksum.c\<close>, \<^verbatim>\<open>inet_utils.c\<close>),
  sequence numbers (\<open>Seq_Gen\<close>, \<^verbatim>\<open>seq_gen.c\<close>), elimination of duplicates (\<open>Frer\<close> and \<open>Seq_Recov\<close>, \<^verbatim>\<open>seq_recov.c\<close>),
  ordering (\<open>Pof\<close>, \<^verbatim>\<open>pof.c\<close>) and delay (\<open>Delay\<close>, \<^verbatim>\<open>delay.c\<close>, over the mailbox of \<open>Message_Queue\<close>,
  \<^verbatim>\<open>thread_utils.c\<close>).  \<open>Hashmap\<close> (\<^verbatim>\<open>lib/parsers/hashmap.c\<close>) and \<open>Time_Utils\<close> (\<^verbatim>\<open>time_utils.h\<close>) serve them all;
  \<open>Prelude\<close> holds the shared vocabulary.

  \<^bold>\<open>How code becomes definitions.\<close>  A struct is a record with the fields of the struct, an enum a datatype with its enumerators, a
  function a definition of the same name; a loop is a function of its own, named after what it does.  \<^verbatim>\<open>unsigned\<close> is a 32-bit word,
  with wrap-around; the signed counters are integers where the code cannot reach their bounds.  A buffer is a list of bytes and every access
  to it is checked: \<open>None\<close> is a read or write outside of the buffer, a NULL dereference or another undefined operation, so that a theorem
  that a function returns \<open>Some\<close> is a theorem of memory safety.  Operations under a lock are atomic steps, and a wake-up of a thread is
  one step; the clock, the answers of system calls and the memory that an allocator returns are arguments.  What leaves a module (a packet
  sent, an iterator handed to a queue, an alert) is an event in the result.  Log output is left out, except for the log that is kept in
  the packet.

  \<^bold>\<open>What is shown.\<close>
  \<^item> Frame replication and elimination: a packet numbered by a generator and sent over several paths is passed on exactly once
    (\<open>exactly_once_delivery\<close> below, composed from \<open>Seq_Gen\<close> and \<open>Recovery_Window\<close>); the histories are never accessed
    out of bounds and the statistics are exact in every life of a recovery object (\<open>Recovery_Life\<close>).
  \<^item> Queues: the ordering function releases packets in order and loses none; the delay queue sends none early and loses none; both
    are interpretations of \<open>ordered_queue\<close> (\<open>Ordered_Queue\<close>).
  \<^item> Packets: fields are written, read and compared bit by bit as specified; checksums agree with the ones' complement
    reference and verify after they are computed; serialisation, copies and header insertion keep the bytes.
  \<^item> Pipelines: a run conserves packets and references through all replications (\<open>Pipeline_Balance\<close>); a pipeline that passes a static
    check of its header indices runs on every packet without an invalid access (\<open>Pipeline_Safety\<close>); the parse tree refines a first-match
    classifier over the bytes of the packet (\<open>Parsetree\<close>); and the receive path, which composes them, is safe for every input
    (\<open>Interface\<close>).
  \<^item> Tables and containers: the hash map implements a map, with iteration, removal and rehashing; the protocol table is consistent.

  \<^bold>\<open>Interfaces.\<close>  The locale \<open>string_map\<close> is what clients assume of the hash map, \<open>ordered_queue\<close> what the users of the
  two queues assume, \<open>duplicate_filter\<close> and \<open>counting_filter\<close> what an elimination algorithm promises, \<open>csum_units\<close> what the
  word-wise checksum needs of its byte order; each is interpreted on the definitions of the code in the theory that provides it.

  \<^bold>\<open>Bounds.\<close>  No definition needs fuel: all loops of the modelled code are structural or have a termination proof.  Theorems that assume
  bounds (a history shorter than half of the sequence space, a start number below 65533, a frame that leaves 64 bytes of the
  buffer free) say so in their statement, and the lemmas on what happens beyond them are recorded next to the theorems.

  \<^bold>\<open>Not modelled.\<close>  The code that only performs system calls (sockets in \<^verbatim>\<open>if_*.c\<close>, thread creation, \<^verbatim>\<open>main.c\<close>,
  \<^verbatim>\<open>sysmon.c\<close>, \<^verbatim>\<open>log.c\<close>) or only prints state; the configuration compiler (\<^verbatim>\<open>conf_*.c\<close>, \<^verbatim>\<open>configfile.c\<close>,
  \<^verbatim>\<open>state.c\<close>), whose products are the inputs of the theorems about pipelines and trees; the maintenance protocol
  (\<^verbatim>\<open>oam_*.c\<close>), of which pipelines only see that it holds iterators; the text formats of the configuration and the notifications
  (\<^verbatim>\<open>lib/parsers/json.c\<close>, \<^verbatim>\<open>lib/parsers/inifile.c\<close>, \<^verbatim>\<open>notification.c\<close>).
\<close>

section \<open>From the generator to the recovery\<close>

text \<open>
  One stream: the packets that a generator numbered travel over several paths and arrive at a recovery
  object as a list of their positions, repeated, lost and reordered.  \<open>deliver\<close> hands the arrivals
  to the recovery one by one and collects the positions that it passes on.
\<close>

fun deliver :: "Packet \<Rightarrow> SequenceGenerator \<Rightarrow> SequenceRecovery \<Rightarrow> nat list \<Rightarrow> (nat list \<times> SequenceRecovery) option" where
  "deliver p gen rec [] = Some ([], rec)"
| "deliver p gen rec (n # ns) =
     do { (r, rec') \<leftarrow> seq_recovery rec (p\<lparr>sequence := htonl (gen_packet n gen)\<rparr>);
          (acc, rec'') \<leftarrow> deliver p gen rec' ns;
          Some (if r = ACR_CONTINUE then n # acc else acc, rec'') }"

lemma deliver_filter_run:
  "filter_run (recovery_step p) (\<lambda>s. gen_packet (nat (s - int k)) gen) rec (map (\<lambda>n. int (k + n)) ns)
     = map_option (\<lambda>(acc, r). (map (\<lambda>n. int (k + n)) acc, r)) (deliver p gen rec ns)"
  by (induction ns arbitrary: rec)
    (auto simp: recovery_step_def bind_eq_Some_conv map_option_case split: Option.bind_splits option.splits prod.splits)

lemma filter_run_vector:
  assumes "rcvy_inv rec" "algorithm rec = RCVY_Vector"
  shows "filter_run (recovery_step p) enc rec ss = filter_run vector_seq_recovery enc rec ss"
  using assms
proof (induction ss arbitrary: rec)
  case (Cons s ss)
  obtain ok rec' where r: "recovery_step p rec (enc s) = Some (ok, rec')" "rcvy_inv rec'" "config rec' = config rec"
    using recovery_step_counts [OF Cons.prems(1), of p "enc s"] by blast
  have "algorithm rec' = RCVY_Vector" using configD [OF r(3)] Cons.prems(2) by simp
  with Cons.IH [OF r(2)] r(1) Cons.prems(2) show ?case by (simp add: recovery_step_cases)
qed simp

lemma bounded_skew_shift: "bounded_skew hl (int n0 + k) (map (\<lambda>n. int n + k) ns) = bounded_skew hl (int n0) (map int ns)"
proof (induction ns arbitrary: n0)
  case (Cons n ns)
  have "max (int n0 + k) (int n + k) = int (max n0 n) + k" by simp
  with Cons [of "max n0 n"] show ?case by (simp add: algebra_simps of_nat_max)
qed simp

text \<open>
  C1: Exactly-once delivery over redundant paths.  Packets are numbered by a sequence generator and
  arrive at a vector recovery in any order and multiplicity, as long as no arrival is more than a
  history length away from the newest one seen so far.  Then every position that arrives at all is passed on
  exactly once, also across the wrap-around of the 16-bit numbers.
\<close>

theorem exactly_once_delivery:
  assumes "gen_start (new_seq_gen r i s) \<le> 65532" and "1 \<le> uint h" "uint h < 32768"
    and "bounded_skew (uint h) (int n0) (map int ns)"
  shows "\<exists>acc rec. deliver p (new_seq_gen r i s) (new_seq_rec RCVY_Vector rf fi h msec d) (n0 # ns) = Some (acc, rec)
           \<and> distinct acc \<and> set acc = set (n0 # ns)"
proof -
  let ?gen = "new_seq_gen r i s" and ?rec = "new_seq_rec RCVY_Vector rf fi h msec d"
  let ?k = "gen_start ?gen"
  let ?enc = "\<lambda>s. gen_packet (nat (s - int ?k)) ?gen" and ?pos = "\<lambda>n. int (?k + n)"
  have ready: "rcvy_ready ?rec" by (rule new_seq_rec_ready [OF assms(2,3)])
  have hl: "history_length ?rec = uint h"
    using sint_eq_uint_small [of h] assms(3) by (simp add: new_seq_rec_def reset_ticks_def)
  have inv: "rcvy_inv ?rec" and algo: "algorithm ?rec = RCVY_Vector"
    using ready by (auto simp: rcvy_inv_def rcvy_ready_def new_seq_rec_def reset_ticks_def)
  have "bounded_skew (uint h) (?pos n0) (map ?pos ns)"
    using bounded_skew_shift [of "uint h" n0 "int ?k" ns] assms(4) by (simp add: add.commute)
  moreover have "\<forall>x \<in> set (?pos n0 # map ?pos ns). ?enc x AND 0xffff = seq_of x"
    using gen_packet_masked [OF gen_fresh_new assms(1)] by auto
  ultimately obtain acc rec where f:
      "filter_run vector_seq_recovery ?enc ?rec (map ?pos (n0 # ns)) = Some (acc, rec)" "distinct acc"
      "set acc = ?pos ` set (n0 # ns)"
    using vec.exactly_once [OF ready, of "?pos n0" "map ?pos ns" ?enc] unfolding hl by auto
  obtain acc' where a: "deliver p ?gen ?rec (n0 # ns) = Some (acc', rec)" "acc = map ?pos acc'"
    using deliver_filter_run [of p ?k ?gen ?rec "n0 # ns"]
    unfolding filter_run_vector [OF inv algo] f(1) by (auto simp del: deliver.simps dest!: sym [of "Some _"])
  have "inj ?pos" by (simp add: inj_on_def)
  hence "set acc' = set (n0 # ns)" using f(3) a(2) by (simp only: set_map inj_image_eq_iff)
  moreover have "distinct acc'" using f(2) a(2) by (simp add: distinct_map)
  ultimately show ?thesis using a(1) by blast
qed

theorem exactly_once_delivery_witness:
  "\<exists>acc rec. deliver sample_packet (new_seq_gen True False 0) (new_seq_rec RCVY_Vector False False 4 100 zero_diag)
       [0, 0, 2, 1, 1, 2, 3, 3] = Some (acc, rec) \<and> distinct acc \<and> set acc = {0, 1, 2, 3}"
proof -
  have "gen_start (new_seq_gen True False 0) \<le> 65532" by (simp add: gen_start_def new_seq_gen_def)
  from exactly_once_delivery [OF this, of 4 0 "[0, 2, 1, 1, 2, 3, 3]" sample_packet False False 100 zero_diag]
  show ?thesis by (simp add: insert_commute)
qed

end
